(* ===== verification/Prelude.thy ===== *)
theory Prelude
  imports Main
begin

text \<open>
  What every component of the development shares.

  \<^item> Go's run-time failures as values: a function that may panic or end the process returns
    \<open>go_error + 'a\<close>, and \<open>bind_go\<close> sequences two such computations.
  \<^item> Go's slice operations with their bounds checks (\<open>go_index\<close>, \<open>go_update\<close>,
    \<open>go_slice_to\<close>, \<open>go_slice_from\<close>).
  \<^item> Reachable states of a transition system, and the interface \<open>invariant_system\<close>
    that turns "the initial states have it, every step keeps it" into "every reachable state
    has it".
  \<^item> The quorum interface: two quorums share a member.
\<close>

section \<open>Failures of Go code\<close>

datatype go_error =
    IndexOutOfRange
  | SliceBoundsOutOfRange
  | NilDereference
  | CloseOfClosedChannel
  | UnexportedField
  | LogFatal string
  | TestFatal string

type_synonym 'a go = "go_error + 'a"

text \<open>An interface value: \<open>None\<close> is Go's \<^verbatim>\<open>nil\<close>.\<close>

type_synonym 'c iface = "'c option"

named_theorems go_simps \<open>evaluation of Go's bounds-checked operations\<close>

definition bind_go :: "'a go \<Rightarrow> ('a \<Rightarrow> 'b go) \<Rightarrow> 'b go" where
  "bind_go m f = (case m of Inl e \<Rightarrow> Inl e | Inr x \<Rightarrow> f x)"

lemma bind_go_Inl [simp]: "bind_go (Inl e) f = Inl e"
  by (simp add: bind_go_def)

lemma bind_go_Inr [simp]: "bind_go (Inr x) f = f x"
  by (simp add: bind_go_def)

lemma bind_go_eq_Inr [simp]:
  "bind_go m f = Inr y \<longleftrightarrow> (\<exists>x. m = Inr x \<and> f x = Inr y)"
  by (cases m) auto

lemma bind_go_cong [fundef_cong]:
  "m = m' \<Longrightarrow> (\<And>x. m' = Inr x \<Longrightarrow> f x = f' x) \<Longrightarrow> bind_go m f = bind_go m' f'"
  by (cases m) auto

lemma bind_go_assoc: "bind_go (bind_go m f) g = bind_go m (\<lambda>x. bind_go (f x) g)"
  by (cases m) auto

section \<open>Slices\<close>

text \<open>\<^verbatim>\<open>xs[i]\<close> panics unless \<open>0 \<le> i < len(xs)\<close>.\<close>

definition go_index :: "'a list \<Rightarrow> int \<Rightarrow> 'a go" where
  "go_index xs i =
     (if 0 \<le> i \<and> i < int (length xs) then Inr (xs ! nat i) else Inl IndexOutOfRange)"

definition go_update :: "'a list \<Rightarrow> int \<Rightarrow> 'a \<Rightarrow> 'a list go" where
  "go_update xs i v =
     (if 0 \<le> i \<and> i < int (length xs) then Inr (xs[nat i := v]) else Inl IndexOutOfRange)"

text \<open>
  \<^verbatim>\<open>xs[:i]\<close> and \<^verbatim>\<open>xs[i:]\<close>. Go bounds \<^verbatim>\<open>xs[:i]\<close> by the capacity of the slice; every use in
  the program has \<open>i\<close> at most the length, so the length is the bound here.
\<close>

definition go_slice_to :: "'a list \<Rightarrow> int \<Rightarrow> 'a list go" where
  "go_slice_to xs i =
     (if 0 \<le> i \<and> i \<le> int (length xs) then Inr (take (nat i) xs)
      else Inl SliceBoundsOutOfRange)"

definition go_slice_from :: "'a list \<Rightarrow> int \<Rightarrow> 'a list go" where
  "go_slice_from xs i =
     (if 0 \<le> i \<and> i \<le> int (length xs) then Inr (drop (nat i) xs)
      else Inl SliceBoundsOutOfRange)"

lemma go_index_Inr [go_simps]: "0 \<le> i \<Longrightarrow> i < int (length xs) \<Longrightarrow> go_index xs i = Inr (xs ! nat i)"
  by (simp add: go_index_def)

lemma go_index_nat [simp]: "k < length xs \<Longrightarrow> go_index xs (int k) = Inr (xs ! k)"
  by (simp add: go_index_def)

lemma go_index_eq_Inr:
  "go_index xs i = Inr x \<longleftrightarrow> 0 \<le> i \<and> i < int (length xs) \<and> x = xs ! nat i"
  by (auto simp: go_index_def)

lemma go_index_eq_Inl:
  "go_index xs i = Inl e \<longleftrightarrow> e = IndexOutOfRange \<and> \<not> (0 \<le> i \<and> i < int (length xs))"
  by (auto simp: go_index_def)

lemma go_update_eq_Inr:
  "go_update xs i v = Inr ys \<longleftrightarrow> 0 \<le> i \<and> i < int (length xs) \<and> ys = xs[nat i := v]"
  by (auto simp: go_update_def)

lemma go_update_nat [simp]: "k < length xs \<Longrightarrow> go_update xs (int k) v = Inr (xs[k := v])"
  by (simp add: go_update_def)

lemma go_slice_to_eq_Inr:
  "go_slice_to xs i = Inr ys \<longleftrightarrow> 0 \<le> i \<and> i \<le> int (length xs) \<and> ys = take (nat i) xs"
  by (auto simp: go_slice_to_def)

lemma go_slice_from_eq_Inr:
  "go_slice_from xs i = Inr ys \<longleftrightarrow> 0 \<le> i \<and> i \<le> int (length xs) \<and> ys = drop (nat i) xs"
  by (auto simp: go_slice_from_def)

section \<open>Lists\<close>

lemma nth_drop_hd: "p < length xs \<Longrightarrow> drop p xs = xs ! p # drop (Suc p) xs"
  by (simp add: Cons_nth_drop_Suc)

lemma upto_join:
  assumes "-1 \<le> a"
  shows "[0..a] @ [a + 1..b] = [0..max a b]"
proof (cases "a < b")
  case True
  with assms show ?thesis
    using upto_split2 [of 0 a b] by (cases "a = -1") auto
next
  case False
  then show ?thesis by simp
qed

section \<open>Reachable states and invariants\<close>

inductive reach :: "('s \<Rightarrow> bool) \<Rightarrow> ('s \<Rightarrow> 's \<Rightarrow> bool) \<Rightarrow> 's \<Rightarrow> bool"
  for init :: "'s \<Rightarrow> bool" and step :: "'s \<Rightarrow> 's \<Rightarrow> bool" where
  reach_init: "init s \<Longrightarrow> reach init step s"
| reach_step: "reach init step s \<Longrightarrow> step s t \<Longrightarrow> reach init step t"

locale invariant_system =
  fixes init :: "'s \<Rightarrow> bool"
    and step :: "'s \<Rightarrow> 's \<Rightarrow> bool"
    and inv :: "'s \<Rightarrow> bool"
  assumes inv_init: "init s \<Longrightarrow> inv s"
    and inv_step: "inv s \<Longrightarrow> step s t \<Longrightarrow> inv t"
begin

lemma reach_inv:
  assumes "reach init step s"
  shows "inv s"
  using assms by (induction rule: reach.induct) (auto intro: inv_init inv_step)

end

section \<open>Loops that may fail\<close>

fun fold_go :: "('a \<Rightarrow> 's \<Rightarrow> 's go) \<Rightarrow> 'a list \<Rightarrow> 's \<Rightarrow> 's go" where
  "fold_go f [] s = Inr s"
| "fold_go f (x # xs) s = bind_go (f x s) (fold_go f xs)"

lemma fold_go_append: "fold_go f (xs @ ys) s = bind_go (fold_go f xs s) (fold_go f ys)"
  by (induction xs arbitrary: s) (auto simp: bind_go_def split: sum.split)

lemma fold_go_inv:
  assumes "fold_go f xs s = Inr t" and "P s"
    and "\<And>x s t. x \<in> set xs \<Longrightarrow> P s \<Longrightarrow> f x s = Inr t \<Longrightarrow> P t"
  shows "P t"
  using assms by (induction xs arbitrary: s) auto

section \<open>Quorums\<close>

locale quorum_system =
  fixes quorum :: "'p set \<Rightarrow> bool"
  assumes quorum_meet: "quorum A \<Longrightarrow> quorum B \<Longrightarrow> \<exists>p. p \<in> A \<and> p \<in> B"
begin

text \<open>If every member backs one candidate only, two backed candidates are the same.\<close>

lemma unique_choice:
  assumes "quorum A" and "quorum B"
    and "\<And>p. p \<in> A \<Longrightarrow> backs p a" and "\<And>p. p \<in> B \<Longrightarrow> backs p b"
    and "\<And>p x y. backs p x \<Longrightarrow> backs p y \<Longrightarrow> x = y"
  shows "a = b"
  using assms quorum_meet by meson

end

end
