(* ===== verification/Persister.thy ===== *)
theory Persister
  imports Prelude
begin

text \<open>
  The stable storage of a server, \<^verbatim>\<open>Task5/raft/persister.go\<close>: a record of two byte slices
  (the bytes are elements of a type \<open>'b\<close>; a \<^verbatim>\<open>nil\<close> slice and an empty one have the same
  length and the same contents, so both are \<open>[]\<close>) and one definition per method.
  \<^verbatim>\<open>Lock\<close>/\<^verbatim>\<open>Unlock\<close> make each method atomic, which a function on the record is.

  The interface \<open>stable_store\<close> is what a Raft server relies on: what was saved last is read
  back, and a copy made before a later write is not affected by it.
\<close>

record 'b Persister =
  raftstate :: "'b list"
  snapshot :: "'b list"

definition MakePersister :: "'b Persister" where
  "MakePersister = \<lparr>raftstate = [], snapshot = []\<rparr>"

definition Copy :: "'b Persister \<Rightarrow> 'b Persister" where
  "Copy ps = MakePersister\<lparr>raftstate := raftstate ps, snapshot := snapshot ps\<rparr>"

definition SaveRaftState :: "'b Persister \<Rightarrow> 'b list \<Rightarrow> 'b Persister" where
  "SaveRaftState ps st = ps\<lparr>raftstate := st\<rparr>"

definition ReadRaftState :: "'b Persister \<Rightarrow> 'b list" where
  "ReadRaftState ps = raftstate ps"

definition RaftStateSize :: "'b Persister \<Rightarrow> nat" where
  "RaftStateSize ps = length (raftstate ps)"

definition SaveStateAndSnapshot :: "'b Persister \<Rightarrow> 'b list \<Rightarrow> 'b list \<Rightarrow> 'b Persister" where
  "SaveStateAndSnapshot ps st sn = ps\<lparr>raftstate := st, snapshot := sn\<rparr>"

definition ReadSnapshot :: "'b Persister \<Rightarrow> 'b list" where
  "ReadSnapshot ps = snapshot ps"

definition SnapshotSize :: "'b Persister \<Rightarrow> nat" where
  "SnapshotSize ps = length (snapshot ps)"

lemmas persister_defs = MakePersister_def Copy_def SaveRaftState_def ReadRaftState_def
  RaftStateSize_def SaveStateAndSnapshot_def ReadSnapshot_def SnapshotSize_def

section \<open>The interface a server relies on\<close>

locale stable_store =
  fixes save :: "'s \<Rightarrow> 'd \<Rightarrow> 's"
    and load :: "'s \<Rightarrow> 'd"
    and dup :: "'s \<Rightarrow> 's"
  assumes load_save: "load (save s d) = d"
    and load_dup: "load (dup s) = load s"
begin

text \<open>The last of any number of writes is what is read, also through a later copy.\<close>

lemma load_last: "ds \<noteq> [] \<Longrightarrow> load (foldl save s ds) = last ds"
  by (induction ds rule: rev_induct) (simp_all add: load_save)

lemma load_dup_last: "ds \<noteq> [] \<Longrightarrow> load (dup (foldl save s ds)) = last ds"
  by (simp add: load_dup load_last)

end

interpretation raft_store: stable_store SaveRaftState ReadRaftState Copy
  by unfold_locales (simp_all add: persister_defs)

end
