(* ===== verification/Gob.thy ===== *)
theory Gob
  imports Prelude
begin

text \<open>
  What the program uses of Go's \<^verbatim>\<open>encoding/gob\<close>: it persists a server's state and carries the
  arguments and replies of RPCs.

  A Go value is a tree (\<open>goval\<close>). A slice carries the zero value of its element type and a
  pointer that of its target type, which is what the decoder allocates. Interface values hold an
  opaque value of a type \<open>'c\<close> (its concrete type is registered with gob) or \<^verbatim>\<open>nil\<close>.
  An encoded buffer is the sequence of the values sent, one message for each call of \<^verbatim>\<open>Encode\<close>.

  The documented behaviour that matters for the program:
  \<^item> only exported (capitalised) struct fields are sent;
  \<^item> a field that holds the zero value of its type is not sent, and the decoder leaves the
    target's field as it was;
  \<^item> pointers are flattened, and the decoder allocates a target for a nil one;
  \<^item> a slice gets the length of the slice sent, its elements are decoded into the elements that
    exist and into zero values beyond them;
  \<^item> a message that does not fit the type of the target, or the end of the buffer, is an error
    that leaves the target as it was.
\<close>

section \<open>Values\<close>

datatype 'c goval =
    VBool bool
  | VInt int
  | VString string
  | VIface "'c iface"
  | VPtr "'c goval" "'c goval option"
  | VSlice "'c goval" "'c goval list"
  | VStruct string "(string \<times> 'c goval) list"

definition is_upper :: "char \<Rightarrow> bool" where
  "is_upper c \<longleftrightarrow> 65 \<le> (of_char c :: nat) \<and> (of_char c :: nat) \<le> 90"

text \<open>The name's first character decides; names of Go fields are never empty.\<close>

fun exported :: "string \<Rightarrow> bool" where
  "exported [] = False"
| "exported (c # cs) = is_upper c"

text \<open>Values that are not sent as struct fields.\<close>

fun omitted :: "'c goval \<Rightarrow> bool" where
  "omitted (VBool b) = (\<not> b)"
| "omitted (VInt i) = (i = 0)"
| "omitted (VString s) = (s = [])"
| "omitted (VIface x) = (x = None)"
| "omitted (VPtr p x) = (x = None)"
| "omitted (VSlice p xs) = (xs = [])"
| "omitted (VStruct n fs) = False"

text \<open>The zero value of the type of a value.\<close>

fun zero :: "'c goval \<Rightarrow> 'c goval" where
  "zero (VBool b) = VBool False"
| "zero (VInt i) = VInt 0"
| "zero (VString s) = VString []"
| "zero (VIface x) = VIface None"
| "zero (VPtr p x) = VPtr p None"
| "zero (VSlice p xs) = VSlice p []"
| "zero (VStruct n fs) = VStruct n (map (\<lambda>(f, v). (f, zero v)) fs)"

section \<open>Encoding and decoding one message\<close>

fun gob_send :: "'c goval \<Rightarrow> 'c goval" where
  "gob_send (VPtr p (Some v)) = gob_send v"
| "gob_send (VSlice p xs) = VSlice p (map gob_send xs)"
| "gob_send (VStruct n fs) =
     VStruct n (map (\<lambda>(f, v). (f, gob_send v))
       (filter (\<lambda>(f, v). exported f \<and> \<not> omitted v) fs))"
| "gob_send v = v"

lemma size_map_of:
  "map_of fs f = Some v \<Longrightarrow> size v < size_list (size_prod (\<lambda>_. 0) size) fs"
  by (induction fs) (auto split: if_splits)

function gob_recv :: "'c goval \<Rightarrow> 'c goval \<Rightarrow> 'c goval option"
  and recv_elems :: "'c goval \<Rightarrow> 'c goval list \<Rightarrow> 'c goval list \<Rightarrow> 'c goval list option"
  and recv_fields ::
    "(string \<times> 'c goval) list \<Rightarrow> (string \<times> 'c goval) list \<Rightarrow> (string \<times> 'c goval) list option"
where
  "gob_recv (VBool _) w = (case w of VBool b \<Rightarrow> Some (VBool b) | _ \<Rightarrow> None)"
| "gob_recv (VInt _) w = (case w of VInt i \<Rightarrow> Some (VInt i) | _ \<Rightarrow> None)"
| "gob_recv (VString _) w = (case w of VString s \<Rightarrow> Some (VString s) | _ \<Rightarrow> None)"
| "gob_recv (VIface _) w = (case w of VIface x \<Rightarrow> Some (VIface x) | _ \<Rightarrow> None)"
| "gob_recv (VPtr p x) w =
     map_option (\<lambda>v. VPtr p (Some v)) (gob_recv (case x of None \<Rightarrow> p | Some v \<Rightarrow> v) w)"
| "gob_recv (VSlice p xs) w =
     (case w of VSlice _ ws \<Rightarrow> map_option (VSlice p) (recv_elems p xs ws) | _ \<Rightarrow> None)"
| "gob_recv (VStruct n fs) w =
     (case w of VStruct _ ws \<Rightarrow> map_option (VStruct n) (recv_fields fs ws) | _ \<Rightarrow> None)"
| "recv_elems p xs [] = Some []"
| "recv_elems p xs (w # ws) =
     (case gob_recv (case xs of [] \<Rightarrow> p | x # _ \<Rightarrow> x) w of None \<Rightarrow> None
      | Some v \<Rightarrow> map_option ((#) v) (recv_elems p (drop 1 xs) ws))"
| "recv_fields [] ws = Some []"
| "recv_fields ((f, t) # fs) ws =
     (case (if exported f then map_of ws f else None) of
        None \<Rightarrow> map_option ((#) (f, t)) (recv_fields fs ws)
      | Some w \<Rightarrow> (case gob_recv t w of None \<Rightarrow> None
          | Some v \<Rightarrow> map_option ((#) (f, v)) (recv_fields fs ws)))"
  by pat_completeness auto
termination
  by (relation "measure (\<lambda>x. case x of
      Inl (t, w) \<Rightarrow> size t + size w
    | Inr (Inl (p, xs, ws)) \<Rightarrow> size p + size_list size xs + size_list size ws
    | Inr (Inr (fs, ws)) \<Rightarrow>
        size_list (size_prod (\<lambda>_. 0) size) fs + size_list (size_prod (\<lambda>_. 0) size) ws)")
    (auto split: list.splits if_splits option.splits dest: size_map_of)

section \<open>Buffers\<close>

text \<open>
  \<^verbatim>\<open>enc.Encode(v)\<close> appends one message to the buffer; \<^verbatim>\<open>dec.Decode(&t)\<close> takes the next one.
  The error value of \<^verbatim>\<open>Decode\<close> is the first component (\<open>True\<close> for \<^verbatim>\<open>nil\<close>).
\<close>

definition gob_Encode :: "'c goval list \<Rightarrow> 'c goval \<Rightarrow> 'c goval list" where
  "gob_Encode buf v = buf @ [gob_send v]"

fun gob_Decode :: "'c goval \<Rightarrow> 'c goval list \<Rightarrow> bool \<times> 'c goval \<times> 'c goval list" where
  "gob_Decode t [] = (False, t, [])"
| "gob_Decode t (w # ws) =
     (case gob_recv t w of None \<Rightarrow> (False, t, ws) | Some v \<Rightarrow> (True, v, ws))"

section \<open>What survives the wire\<close>

fun nil_ptr :: "'c goval \<Rightarrow> bool" where
  "nil_ptr (VPtr p None) = True"
| "nil_ptr v = False"

text \<open>
  Values that gob carries without loss: every struct field is exported, field names are distinct,
  the elements of a slice and the target of a pointer have the declared type and are not
  themselves nil pointers.
\<close>

fun wire_safe :: "'c goval \<Rightarrow> bool" where
  "wire_safe (VPtr p (Some v)) \<longleftrightarrow> zero v = p \<and> wire_safe v \<and> \<not> nil_ptr v"
| "wire_safe (VSlice p xs) \<longleftrightarrow> (\<forall>x \<in> set xs. zero x = p \<and> wire_safe x \<and> \<not> nil_ptr x)"
| "wire_safe (VStruct n fs) \<longleftrightarrow>
     distinct (map fst fs) \<and> (\<forall>x \<in> set fs. exported (fst x) \<and> wire_safe (snd x))"
| "wire_safe v \<longleftrightarrow> True"

lemma omitted_zero: "omitted v \<Longrightarrow> zero v = v"
  by (cases v) auto

lemma nil_ptr_omitted: "nil_ptr v \<Longrightarrow> omitted v"
  by (cases v rule: nil_ptr.cases) auto

lemma recv_elems_zero:
  assumes "\<And>x. x \<in> set xs \<Longrightarrow> gob_recv p (gob_send x) = Some x"
  shows "recv_elems p [] (map gob_send xs) = Some xs"
  using assms by (induction xs) simp_all

lemma map_of_sent:
  assumes "distinct (map fst fs)" and "(f, v) \<in> set fs" and "exported f"
  shows "map_of (map (\<lambda>(f, v). (f, gob_send v))
           (filter (\<lambda>(f, v). exported f \<and> \<not> omitted v) fs)) f =
         (if omitted v then None else Some (gob_send v))"
  using assms
proof (induction fs)
  case Nil
  then show ?case by simp
next
  case (Cons x fs)
  obtain g u where x: "x = (g, u)" by (cases x)
  show ?case
  proof (cases "(f, v) = x")
    case True
    with Cons.prems have "f \<notin> fst ` set fs" by (auto simp: x)
    then have "map_of (map (\<lambda>(f, v). (f, gob_send v))
        (filter (\<lambda>(f, v). exported f \<and> \<not> omitted v) fs)) f = None"
      by (force simp: map_of_eq_None_iff)
    with True Cons.prems show ?thesis by (auto simp: x)
  next
    case False
    with Cons.prems have "(f, v) \<in> set fs" and "f \<noteq> g" by (force simp: x)+
    with Cons.IH Cons.prems show ?thesis by (auto simp: x)
  qed
qed

lemma recv_fields_zero:
  assumes "\<And>f v. (f, v) \<in> set gs \<Longrightarrow> exported f"
    and "\<And>f v. (f, v) \<in> set gs \<Longrightarrow> map_of ws f = (if omitted v then None else Some (gob_send v))"
    and "\<And>f v. (f, v) \<in> set gs \<Longrightarrow> \<not> omitted v \<Longrightarrow> gob_recv (zero v) (gob_send v) = Some v"
  shows "recv_fields (map (\<lambda>(f, v). (f, zero v)) gs) ws = Some gs"
  using assms
proof (induction gs)
  case Nil
  then show ?case by simp
next
  case (Cons x gs)
  obtain f v where x: "x = (f, v)" by (cases x)
  have tail: "recv_fields (map (\<lambda>(f, v). (f, zero v)) gs) ws = Some gs"
    by (rule Cons.IH) (blast intro: Cons.prems list.set_intros(2))+
  have "exported f" and "map_of ws f = (if omitted v then None else Some (gob_send v))"
    using Cons.prems(1,2) [of f v] by (auto simp: x)
  then show ?case
    using tail Cons.prems(3) [of f v] by (auto simp: x omitted_zero)
qed

lemma gob_roundtrip:
  "wire_safe v \<Longrightarrow> \<not> nil_ptr v \<Longrightarrow> gob_recv (zero v) (gob_send v) = Some v"
proof (induction v rule: gob_send.induct)
  case (1 p v)
  then show ?case by auto
next
  case (2 p xs)
  then have "recv_elems p [] (map gob_send xs) = Some xs"
    by (intro recv_elems_zero) auto
  then show ?case by simp
next
  case (3 n fs)
  let ?ws = "map (\<lambda>(f, v). (f, gob_send v))
    (filter (\<lambda>(f, v). exported f \<and> \<not> omitted v) fs)"
  have "recv_fields (map (\<lambda>(f, v). (f, zero v)) fs) ?ws = Some fs"
  proof (rule recv_fields_zero)
    fix f v
    assume mem: "(f, v) \<in> set fs"
    with "3.prems" show ex: "exported f" by auto
    from "3.prems" mem ex show "map_of ?ws f = (if omitted v then None else Some (gob_send v))"
      by (intro map_of_sent) auto
    assume "\<not> omitted v"
    with mem ex "3.prems" show "gob_recv (zero v) (gob_send v) = Some v"
      by (intro "3.IH" [of "(f, v)"]) (auto dest: nil_ptr_omitted)
  qed
  then show ?case by simp
qed auto

section \<open>The interface of an encoding\<close>

locale codec =
  fixes ok :: "'a \<Rightarrow> bool"
    and enc :: "'a \<Rightarrow> 'w"
    and dec :: "'a \<Rightarrow> 'w \<Rightarrow> 'a option"
    and blank :: "'a \<Rightarrow> 'a"
  assumes dec_enc: "ok x \<Longrightarrow> dec (blank x) (enc x) = Some x"
begin

lemma enc_inject:
  assumes "ok x" and "ok y" and "blank x = blank y" and "enc x = enc y"
  shows "x = y"
  using assms dec_enc by (metis option.inject)

lemma messages_roundtrip:
  "list_all ok xs \<Longrightarrow> those (map2 dec (map blank xs) (map enc xs)) = Some xs"
  by (induction xs) (simp_all add: dec_enc)

end

interpretation gob: codec "\<lambda>v. wire_safe v \<and> \<not> nil_ptr v" gob_send gob_recv zero
  by unfold_locales (auto intro: gob_roundtrip)

text \<open>Decoding a message just encoded, for a target that holds the zero value.\<close>

lemma gob_Decode_sent:
  "wire_safe v \<Longrightarrow> \<not> nil_ptr v \<Longrightarrow> gob_Decode (zero v) (gob_send v # ws) = (True, v, ws)"
  by (simp add: gob.dec_enc)

text \<open>A scalar target is overwritten whatever it held before.\<close>

lemma gob_Decode_int [simp]: "gob_Decode (VInt a) (VInt b # ws) = (True, VInt b, ws)"
  by simp

end
