(* ===== verification/RaftState.thy ===== *)
theory RaftState
  imports Persister Gob
begin

text \<open>
  The data of a Raft peer, \<^verbatim>\<open>Task5/raft/raft.go\<close>: its record, the role changes, the
  persistence of its state through gob and the \<open>Persister\<close>, \<^verbatim>\<open>Make\<close>, \<^verbatim>\<open>Kill\<close> and
  \<^verbatim>\<open>GetState\<close>.

  \<^item> Go's \<^verbatim>\<open>int\<close> is \<open>int\<close>: terms, indices and vote counts grow by one per election, per
    command or per reply and stay far from \<open>2^63\<close>.
  \<^item> \<^verbatim>\<open>peers\<close> is used for its length and as the address of RPCs only: the field holds the
    length, and the index of the peer addressed is part of a message of the cluster model.
  \<^item> \<^verbatim>\<open>applyCh\<close> holds the messages the peer has sent on the channel so far.
  \<^item> the three signal channels are unbuffered and written by goroutines of their own: the field
    holds how many goroutines are waiting to send.
  \<^item> the election timer has no field: when it fires is a choice of the environment.
\<close>

section \<open>Data\<close>

record 'c ApplyMsg =
  CommandValid :: bool
  ApplyCommand :: "'c iface"
  CommandIndex :: int

record 'c LogEntry =
  Command :: "'c iface"
  Term :: int

datatype role = Follower | Candidate | Leader

type_synonym 'c bytes = "'c goval list"

record 'c raft =
  peers :: nat
  persister :: "'c goval Persister"
  me :: nat
  dead :: int
  currentTerm :: int
  votedFor :: int
  log :: "'c LogEntry list"
  committedIndex :: int
  lastApplied :: int
  nextIndex :: "int list"
  matchIndex :: "int list"
  state :: role
  applyCh :: "'c ApplyMsg list"
  grantVoteCh :: nat
  heartBeatCh :: nat
  leaderCh :: nat
  voteGranted :: int
  voteNotGranted :: int

definition GetState :: "'c raft \<Rightarrow> int \<times> bool" where
  "GetState rf = (currentTerm rf, state rf = Leader)"

text \<open>
  The goroutine that signals a channel: it takes back a signal that waits (the \<^verbatim>\<open>select\<close> with a
  \<^verbatim>\<open>default\<close>), then sends its own.
\<close>

definition chan_signal :: "nat \<Rightarrow> nat" where
  "chan_signal n = (if 0 < n then n - 1 else n) + 1"

section \<open>Persistence\<close>

definition entry_val :: "'c LogEntry \<Rightarrow> 'c goval" where
  "entry_val e = VStruct ''LogEntry'' [(''Command'', VIface (Command e)), (''Term'', VInt (Term e))]"

definition zero_entry :: "'c LogEntry" where
  "zero_entry = \<lparr>Command = None, Term = 0\<rparr>"

definition log_val :: "'c LogEntry list \<Rightarrow> 'c goval" where
  "log_val es = VSlice (entry_val zero_entry) (map entry_val es)"

text \<open>Reading a decoded variable back; decoding keeps the shape of its target.\<close>

fun int_of :: "'c goval \<Rightarrow> int" where
  "int_of (VInt i) = i"
| "int_of _ = 0"

fun entry_of :: "'c goval \<Rightarrow> 'c LogEntry" where
  "entry_of (VStruct _ [(_, VIface c), (_, VInt t)]) = \<lparr>Command = c, Term = t\<rparr>"
| "entry_of _ = zero_entry"

fun log_of :: "'c goval \<Rightarrow> 'c LogEntry list" where
  "log_of (VSlice _ xs) = map entry_of xs"
| "log_of _ = []"

definition persist_data :: "'c raft \<Rightarrow> 'c bytes" where
  "persist_data rf =
     (let w = [];
          w = gob_Encode w (VInt (currentTerm rf));
          w = gob_Encode w (VInt (votedFor rf));
          w = gob_Encode w (log_val (log rf));
          w = gob_Encode w (VInt (voteGranted rf));
          w = gob_Encode w (VInt (voteNotGranted rf))
      in w)"

definition persist :: "'c raft \<Rightarrow> 'c raft" where
  "persist rf = rf\<lparr>persister := SaveRaftState (persister rf) (persist_data rf)\<rparr>"

definition readPersist :: "'c raft \<Rightarrow> 'c bytes \<Rightarrow> 'c raft" where
  "readPersist rf data =
     (let (_, t, r) = gob_Decode (VInt (currentTerm rf)) data;
          rf = rf\<lparr>currentTerm := int_of t\<rparr>;
          (_, v, r) = gob_Decode (VInt (votedFor rf)) r;
          rf = rf\<lparr>votedFor := int_of v\<rparr>;
          (_, l, r) = gob_Decode (log_val (log rf)) r;
          rf = rf\<lparr>log := log_of l\<rparr>;
          (_, g, r) = gob_Decode (VInt (voteGranted rf)) r;
          rf = rf\<lparr>voteGranted := int_of g\<rparr>;
          (_, n, r) = gob_Decode (VInt (voteNotGranted rf)) r;
          rf = rf\<lparr>voteNotGranted := int_of n\<rparr>
      in rf)"

section \<open>Role changes\<close>

definition convertToFollower :: "'c raft \<Rightarrow> int \<Rightarrow> int \<Rightarrow> 'c raft" where
  "convertToFollower rf term voteFor =
     persist (rf\<lparr>currentTerm := term, state := Follower, votedFor := voteFor,
       voteGranted := 0, voteNotGranted := 0\<rparr>)"

definition convertToCandidate :: "'c raft \<Rightarrow> 'c raft" where
  "convertToCandidate rf =
     persist (rf\<lparr>currentTerm := currentTerm rf + 1, state := Candidate, votedFor := int (me rf),
       voteGranted := 1, voteNotGranted := 0\<rparr>)"

definition convertToLeader :: "'c raft \<Rightarrow> 'c raft" where
  "convertToLeader rf =
     persist (rf\<lparr>state := Leader,
       nextIndex := map (\<lambda>_. int (length (log rf))) [0..<peers rf],
       matchIndex := map (\<lambda>_. -1) [0..<peers rf]\<rparr>)"

section \<open>Making and killing a peer\<close>

definition blank_raft :: "nat \<Rightarrow> nat \<Rightarrow> 'c goval Persister \<Rightarrow> 'c raft" where
  "blank_raft n i ps =
     \<lparr>peers = n, persister = ps, me = i, dead = 0, currentTerm = 0, votedFor = -1, log = [],
      committedIndex = -1, lastApplied = -1, nextIndex = [], matchIndex = [], state = Follower,
      applyCh = [], grantVoteCh = 0, heartBeatCh = 0, leaderCh = 0,
      voteGranted = 0, voteNotGranted = 0\<rparr>"

definition Make :: "nat \<Rightarrow> nat \<Rightarrow> 'c goval Persister \<Rightarrow> 'c raft" where
  "Make n i ps = readPersist (blank_raft n i ps) (ReadRaftState ps)"

definition Kill :: "'c raft \<Rightarrow> 'c raft" where
  "Kill rf = rf\<lparr>dead := 1\<rparr>"

definition killed :: "'c raft \<Rightarrow> bool" where
  "killed rf \<longleftrightarrow> dead rf = 1"

section \<open>Frame facts\<close>

lemma persist_simps [simp]:
  "peers (persist rf) = peers rf" "me (persist rf) = me rf" "dead (persist rf) = dead rf"
  "currentTerm (persist rf) = currentTerm rf" "votedFor (persist rf) = votedFor rf"
  "log (persist rf) = log rf" "committedIndex (persist rf) = committedIndex rf"
  "lastApplied (persist rf) = lastApplied rf" "nextIndex (persist rf) = nextIndex rf"
  "matchIndex (persist rf) = matchIndex rf" "state (persist rf) = state rf"
  "applyCh (persist rf) = applyCh rf" "grantVoteCh (persist rf) = grantVoteCh rf"
  "heartBeatCh (persist rf) = heartBeatCh rf" "leaderCh (persist rf) = leaderCh rf"
  "voteGranted (persist rf) = voteGranted rf" "voteNotGranted (persist rf) = voteNotGranted rf"
  by (simp_all add: persist_def)

lemma convertToFollower_simps [simp]:
  "peers (convertToFollower rf t v) = peers rf" "me (convertToFollower rf t v) = me rf"
  "dead (convertToFollower rf t v) = dead rf"
  "currentTerm (convertToFollower rf t v) = t" "votedFor (convertToFollower rf t v) = v"
  "log (convertToFollower rf t v) = log rf"
  "committedIndex (convertToFollower rf t v) = committedIndex rf"
  "lastApplied (convertToFollower rf t v) = lastApplied rf"
  "nextIndex (convertToFollower rf t v) = nextIndex rf"
  "matchIndex (convertToFollower rf t v) = matchIndex rf"
  "state (convertToFollower rf t v) = Follower"
  "applyCh (convertToFollower rf t v) = applyCh rf"
  "grantVoteCh (convertToFollower rf t v) = grantVoteCh rf"
  "heartBeatCh (convertToFollower rf t v) = heartBeatCh rf"
  "leaderCh (convertToFollower rf t v) = leaderCh rf"
  "voteGranted (convertToFollower rf t v) = 0" "voteNotGranted (convertToFollower rf t v) = 0"
  by (simp_all add: convertToFollower_def)

lemma convertToCandidate_simps [simp]:
  "peers (convertToCandidate rf) = peers rf" "me (convertToCandidate rf) = me rf"
  "dead (convertToCandidate rf) = dead rf"
  "currentTerm (convertToCandidate rf) = currentTerm rf + 1"
  "votedFor (convertToCandidate rf) = int (me rf)"
  "log (convertToCandidate rf) = log rf"
  "committedIndex (convertToCandidate rf) = committedIndex rf"
  "lastApplied (convertToCandidate rf) = lastApplied rf"
  "nextIndex (convertToCandidate rf) = nextIndex rf"
  "matchIndex (convertToCandidate rf) = matchIndex rf"
  "state (convertToCandidate rf) = Candidate"
  "applyCh (convertToCandidate rf) = applyCh rf"
  "grantVoteCh (convertToCandidate rf) = grantVoteCh rf"
  "heartBeatCh (convertToCandidate rf) = heartBeatCh rf"
  "leaderCh (convertToCandidate rf) = leaderCh rf"
  "voteGranted (convertToCandidate rf) = 1" "voteNotGranted (convertToCandidate rf) = 0"
  by (simp_all add: convertToCandidate_def)

lemma convertToLeader_simps [simp]:
  "peers (convertToLeader rf) = peers rf" "me (convertToLeader rf) = me rf"
  "dead (convertToLeader rf) = dead rf"
  "currentTerm (convertToLeader rf) = currentTerm rf"
  "votedFor (convertToLeader rf) = votedFor rf"
  "log (convertToLeader rf) = log rf"
  "committedIndex (convertToLeader rf) = committedIndex rf"
  "lastApplied (convertToLeader rf) = lastApplied rf"
  "nextIndex (convertToLeader rf) = replicate (peers rf) (int (length (log rf)))"
  "matchIndex (convertToLeader rf) = replicate (peers rf) (-1)"
  "state (convertToLeader rf) = Leader"
  "applyCh (convertToLeader rf) = applyCh rf"
  "grantVoteCh (convertToLeader rf) = grantVoteCh rf"
  "heartBeatCh (convertToLeader rf) = heartBeatCh rf"
  "leaderCh (convertToLeader rf) = leaderCh rf"
  "voteGranted (convertToLeader rf) = voteGranted rf"
  "voteNotGranted (convertToLeader rf) = voteNotGranted rf"
  by (simp_all add: convertToLeader_def map_replicate_const)

section \<open>What a restart restores\<close>

lemma zero_entry_val [simp]: "zero (entry_val e) = entry_val zero_entry"
  by (simp add: entry_val_def zero_entry_def)

lemma wire_safe_entry_val [simp]: "wire_safe (entry_val e)"
  by (simp add: entry_val_def is_upper_def)

lemma nil_ptr_entry_val [simp]: "\<not> nil_ptr (entry_val e)"
  by (simp add: entry_val_def)

lemma wire_safe_log_val [simp]: "wire_safe (log_val es)"
  by (auto simp: log_val_def)

lemma zero_log_val [simp]: "zero (log_val es) = log_val []"
  by (simp add: log_val_def)

lemma entry_of_val [simp]: "entry_of (entry_val e) = e"
  by (simp add: entry_val_def)

lemma log_of_val [simp]: "log_of (log_val es) = es"
  by (simp add: log_val_def comp_def)

lemma gob_Decode_log [simp]:
  "gob_Decode (log_val []) (gob_send (log_val es) # ws) = (True, log_val es, ws)"
  using gob_Decode_sent [of "log_val es" ws] by (simp add: log_val_def)

text \<open>A peer all of whose volatile fields are as \<^verbatim>\<open>Make\<close> leaves them.\<close>

definition at_rest :: "'c raft \<Rightarrow> bool" where
  "at_rest rf \<longleftrightarrow> rf = (blank_raft (peers rf) (me rf) (persister rf))
     \<lparr>currentTerm := currentTerm rf, votedFor := votedFor rf, log := log rf,
      voteGranted := voteGranted rf, voteNotGranted := voteNotGranted rf\<rparr>"

lemma readPersist_persist_data:
  assumes "log rf0 = []"
  shows "readPersist rf0 (persist_data rf) =
    rf0\<lparr>currentTerm := currentTerm rf, votedFor := votedFor rf, log := log rf,
        voteGranted := voteGranted rf, voteNotGranted := voteNotGranted rf\<rparr>"
  using assms
  by (simp add: readPersist_def persist_data_def gob_Encode_def Let_def del: gob_Decode.simps)

lemma readPersist_empty [simp]: "readPersist rf [] = rf"
  by (simp add: readPersist_def)

text \<open>A store and an encoding together: what was encoded and saved survives a crash.\<close>

locale crash_safe =
  stable_store save load dup + codec ok enc dec blank
  for save :: "'s \<Rightarrow> 'w \<Rightarrow> 's" and load :: "'s \<Rightarrow> 'w" and dup :: "'s \<Rightarrow> 's"
    and ok :: "'a \<Rightarrow> bool" and enc :: "'a \<Rightarrow> 'w" and dec :: "'a \<Rightarrow> 'w \<Rightarrow> 'a option"
    and blank :: "'a \<Rightarrow> 'a"
begin

lemma recover: "ok x \<Longrightarrow> dec (blank x) (load (dup (save s (enc x)))) = Some x"
  by (simp add: load_dup load_save dec_enc)

end

interpretation raft_recovery:
  crash_safe SaveRaftState ReadRaftState Copy at_rest persist_data
    "\<lambda>rf data. Some (readPersist rf data)" "\<lambda>rf. blank_raft (peers rf) (me rf) (persister rf)"
  by unfold_locales (simp add: readPersist_persist_data at_rest_def blank_raft_def)

text \<open>The fields that \<^verbatim>\<open>persist\<close> writes, and whether the store holds their current values.\<close>

definition pstate :: "'c raft \<Rightarrow> int \<times> int \<times> 'c LogEntry list \<times> int \<times> int" where
  "pstate rf = (currentTerm rf, votedFor rf, log rf, voteGranted rf, voteNotGranted rf)"

definition durable :: "'c raft \<Rightarrow> bool" where
  "durable rf \<longleftrightarrow> pstate (Make (peers rf) (me rf) (persister rf)) = pstate rf"

lemma Make_persisted:
  assumes "ReadRaftState ps = persist_data rf"
  shows "Make n i ps = (blank_raft n i ps)
    \<lparr>currentTerm := currentTerm rf, votedFor := votedFor rf, log := log rf,
     voteGranted := voteGranted rf, voteNotGranted := voteNotGranted rf\<rparr>"
  using assms by (simp add: Make_def readPersist_persist_data blank_raft_def)

lemma persist_data_cong: "pstate rf = pstate rf' \<Longrightarrow> persist_data rf = persist_data rf'"
  by (simp add: pstate_def persist_data_def)

lemma ReadRaftState_persist [simp]: "ReadRaftState (persister (persist rf)) = persist_data rf"
  by (simp add: persist_def raft_store.load_save)

lemma durable_persist [simp]: "durable (persist rf)"
  by (simp add: durable_def Make_persisted pstate_def)

lemma durable_convert [simp]:
  "durable (convertToFollower rf t v)" "durable (convertToCandidate rf)" "durable (convertToLeader rf)"
  by (simp_all add: convertToFollower_def convertToCandidate_def convertToLeader_def)

lemma pstate_Make_cong:
  assumes "ReadRaftState ps = ReadRaftState ps'"
  shows "pstate (Make n i ps) = pstate (Make m j ps')"
  using assms by (simp add: Make_def readPersist_def blank_raft_def pstate_def split_def Let_def)

text \<open>Durability depends on the persistent fields and on the contents of the store only.\<close>

lemma durable_cong:
  assumes "pstate rf' = pstate rf" and "ReadRaftState (persister rf') = ReadRaftState (persister rf)"
  shows "durable rf' = durable rf"
  using assms(1) pstate_Make_cong [OF assms(2), of "peers rf'" "me rf'" "peers rf" "me rf"]
  by (simp add: durable_def)

lemma persister_Make [simp]: "persister (Make n i ps) = ps"
  by (simp add: Make_def readPersist_def blank_raft_def split_def Let_def)

lemma Make_simps [simp]:
  "peers (Make n i ps) = n" "me (Make n i ps) = i" "dead (Make n i ps) = 0"
  "committedIndex (Make n i ps) = -1" "lastApplied (Make n i ps) = -1"
  "nextIndex (Make n i ps) = []" "matchIndex (Make n i ps) = []"
  "state (Make n i ps) = Follower" "applyCh (Make n i ps) = []"
  "grantVoteCh (Make n i ps) = 0" "heartBeatCh (Make n i ps) = 0" "leaderCh (Make n i ps) = 0"
  by (simp_all add: Make_def readPersist_def blank_raft_def split_def Let_def)

lemma durable_Make [simp]: "durable (Make n i ps)"
  by (simp add: durable_def)

section \<open>Sample states\<close>

text \<open>A peer of a cluster of three with some state of its own, used in examples.\<close>

definition sample_peer :: "nat \<Rightarrow> int \<Rightarrow> int \<Rightarrow> role \<Rightarrow> nat LogEntry list \<Rightarrow> nat raft" where
  "sample_peer i t v st lg =
     (Make 3 i MakePersister)\<lparr>currentTerm := t, votedFor := v, state := st, log := lg\<rparr>"

lemma sample_peer_simps [simp]:
  "peers (sample_peer i t v st lg) = 3" "me (sample_peer i t v st lg) = i"
  "currentTerm (sample_peer i t v st lg) = t" "votedFor (sample_peer i t v st lg) = v"
  "state (sample_peer i t v st lg) = st" "log (sample_peer i t v st lg) = lg"
  "committedIndex (sample_peer i t v st lg) = -1" "lastApplied (sample_peer i t v st lg) = -1"
  by (simp_all add: sample_peer_def)

section \<open>Properties\<close>

text \<open>
  C28: the round trip of the persistent state. Whatever a peer holds when it calls \<^verbatim>\<open>persist\<close>, a peer
  made from a copy of the store afterwards has its term, vote, log and vote counts, and everything
  else as a new peer has it.
\<close>

theorem Make_after_persist:
  "Make n i (Copy (persister (persist rf))) =
     (blank_raft n i (Copy (persister (persist rf))))
       \<lparr>currentTerm := currentTerm rf, votedFor := votedFor rf, log := log rf,
        voteGranted := voteGranted rf, voteNotGranted := voteNotGranted rf\<rparr>"
  by (rule Make_persisted) (simp add: raft_store.load_dup)

end
