(* ===== verification/Election.thy ===== *)
theory Election
  imports RaftState "HOL-Library.Product_Lexorder"
begin

text \<open>
  Leader election, \<^verbatim>\<open>Task5/raft/raft.go\<close>: the \<^verbatim>\<open>RequestVote\<close> handler, the request that
  \<^verbatim>\<open>startRequestVote\<close> builds, and what its goroutines do with a reply. Each is one definition
  over the whole of the source's body. \<^verbatim>\<open>RequestVote\<close> takes no lock in the source; here it is
  one atomic step.
\<close>

section \<open>Messages\<close>

record RequestVoteArgs =
  rv_Term :: int
  CandidateID :: int
  LastLogIndex :: int
  LastLogTerm :: int

record RequestVoteReply =
  rvr_Term :: int
  VoteGranted :: bool

section \<open>The handler\<close>

definition newer :: "'c LogEntry list \<Rightarrow> RequestVoteArgs \<Rightarrow> bool" where
  "newer lg args =
     (if lg = [] \<or> LastLogTerm args > Term (lg ! (length lg - 1)) then True
      else if LastLogTerm args = Term (lg ! (length lg - 1)) \<and>
              int (length lg) \<le> LastLogIndex args + 1 then True
      else False)"

definition RequestVote :: "'c raft \<Rightarrow> RequestVoteArgs \<Rightarrow> 'c raft \<times> RequestVoteReply" where
  "RequestVote rf args =
     (let rf = (if rv_Term args > currentTerm rf then rf\<lparr>votedFor := -1\<rparr> else rf);
          granted = (newer (log rf) args \<and>
            (votedFor rf = -1 \<or> votedFor rf = CandidateID args));
          vote = (if granted then CandidateID args else -1);
          rf = rf\<lparr>votedFor := vote\<rparr>;
          (rf, granted) =
            (if rv_Term args < currentTerm rf then (rf, False)
             else if rv_Term args > currentTerm rf then
               (let rf = rf\<lparr>currentTerm := rv_Term args\<rparr>
                in (if state rf \<noteq> Follower then convertToFollower rf (currentTerm rf) vote else rf,
                    granted))
             else (rf, granted));
          reply = \<lparr>rvr_Term = currentTerm rf, VoteGranted = granted\<rparr>;
          rf = persist rf
      in (if granted then rf\<lparr>grantVoteCh := chan_signal (grantVoteCh rf)\<rparr> else rf, reply))"

section \<open>The candidate's side\<close>

text \<open>\<open>None\<close>: the peer is no longer a candidate and sends nothing.\<close>

definition startRequestVote_args :: "'c raft \<Rightarrow> RequestVoteArgs option" where
  "startRequestVote_args rf =
     (if state rf \<noteq> Candidate then None
      else let lastLogIndex = int (length (log rf)) - 1;
               lastLogTerm = (if lastLogIndex \<ge> 0 then Term (log rf ! nat lastLogIndex) else -1)
           in Some \<lparr>rv_Term = currentTerm rf, CandidateID = int (me rf),
                    LastLogIndex = lastLogIndex, LastLogTerm = lastLogTerm\<rparr>)"

text \<open>The peers a round of requests goes to: all but the candidate itself.\<close>

definition startRequestVote_targets :: "'c raft \<Rightarrow> nat list" where
  "startRequestVote_targets rf = filter (\<lambda>j. j \<noteq> me rf) [0..<peers rf]"

text \<open>
  What a goroutine of the round does with a reply; \<open>nLeader\<close> is the variable that the
  goroutines of one round share.
\<close>

definition handleVoteReply ::
  "'c raft \<Rightarrow> RequestVoteArgs \<Rightarrow> RequestVoteReply \<Rightarrow> nat \<Rightarrow> 'c raft \<times> nat" where
  "handleVoteReply rf args reply nLeader =
     (if rvr_Term reply > currentTerm rf then
        (convertToFollower rf (rvr_Term reply) (-1), nLeader)
      else if currentTerm rf \<noteq> rv_Term args \<or> state rf \<noteq> Candidate then (rf, nLeader)
      else if VoteGranted reply then
        (let rf = rf\<lparr>voteGranted := voteGranted rf + 1\<rparr>
         in if nLeader = 0 \<and> voteGranted rf * 2 > int (peers rf) \<and> state rf = Candidate then
              (let rf = convertToLeader rf
               in (persist (rf\<lparr>leaderCh := chan_signal (leaderCh rf)\<rparr>), nLeader + 1))
            else (persist rf, nLeader))
      else (persist (rf\<lparr>voteNotGranted := voteNotGranted rf + 1\<rparr>), nLeader))"

section \<open>Facts about the handler\<close>

lemma RequestVote_reply_term: "rvr_Term (snd (RequestVote rf args)) = max (currentTerm rf) (rv_Term args)"
  by (auto simp: RequestVote_def Let_def)

lemma RequestVote_term: "currentTerm (fst (RequestVote rf args)) = max (currentTerm rf) (rv_Term args)"
  by (auto simp: RequestVote_def Let_def)

lemma RequestVote_frame [simp]:
  "peers (fst (RequestVote rf args)) = peers rf" "me (fst (RequestVote rf args)) = me rf"
  "dead (fst (RequestVote rf args)) = dead rf" "log (fst (RequestVote rf args)) = log rf"
  "committedIndex (fst (RequestVote rf args)) = committedIndex rf"
  "lastApplied (fst (RequestVote rf args)) = lastApplied rf"
  "nextIndex (fst (RequestVote rf args)) = nextIndex rf"
  "matchIndex (fst (RequestVote rf args)) = matchIndex rf"
  "applyCh (fst (RequestVote rf args)) = applyCh rf"
  "heartBeatCh (fst (RequestVote rf args)) = heartBeatCh rf"
  "leaderCh (fst (RequestVote rf args)) = leaderCh rf"
  by (auto simp: RequestVote_def Let_def)

lemma RequestVote_state:
  "state (fst (RequestVote rf args)) = (if rv_Term args > currentTerm rf then Follower else state rf)"
  by (auto simp: RequestVote_def Let_def)

text \<open>The vote as it stands when the handler looks at it: a new term clears it.\<close>

definition vote_at :: "'c raft \<Rightarrow> int \<Rightarrow> int" where
  "vote_at rf t = (if t > currentTerm rf then -1 else votedFor rf)"

lemma RequestVote_granted_iff:
  "VoteGranted (snd (RequestVote rf args)) \<longleftrightarrow>
     rv_Term args \<ge> currentTerm rf \<and> newer (log rf) args \<and>
     vote_at rf (rv_Term args) \<in> {-1, CandidateID args}"
  by (auto simp: RequestVote_def Let_def vote_at_def)

lemma RequestVote_votedFor:
  "votedFor (fst (RequestVote rf args)) =
     (if newer (log rf) args \<and> vote_at rf (rv_Term args) \<in> {-1, CandidateID args}
      then CandidateID args else -1)"
  by (auto simp: RequestVote_def Let_def vote_at_def)

lemma durable_grantVoteCh [simp]: "durable (rf\<lparr>grantVoteCh := x\<rparr>) = durable rf"
  by (rule durable_cong) (simp_all add: pstate_def)

lemma durable_leaderCh [simp]: "durable (rf\<lparr>leaderCh := x\<rparr>) = durable rf"
  by (rule durable_cong) (simp_all add: pstate_def)

lemma durable_heartBeatCh [simp]: "durable (rf\<lparr>heartBeatCh := x\<rparr>) = durable rf"
  by (rule durable_cong) (simp_all add: pstate_def)

lemma durable_RequestVote: "durable (fst (RequestVote rf args))"
  by (auto simp: RequestVote_def Let_def)

lemma durable_handleVoteReply:
  "durable rf \<Longrightarrow> durable (fst (handleVoteReply rf args reply n))"
  by (auto simp: handleVoteReply_def Let_def)

section \<open>The order on logs\<close>

text \<open>
  The abstract rule: a log is at least as up-to-date as another when its last term is larger, or
  the last terms are equal and it is at least as long. As pairs in the lexicographic order:
\<close>

definition log_key :: "'c LogEntry list \<Rightarrow> int \<times> int" where
  "log_key lg = (if lg = [] then (-1, -1) else (Term (last lg), int (length lg) - 1))"

lemma startRequestVote_key:
  "startRequestVote_args rf = Some args \<Longrightarrow> (LastLogTerm args, LastLogIndex args) = log_key (log rf)"
  by (auto simp: startRequestVote_args_def log_key_def last_conv_nth nat_diff_distrib' Let_def
      split: if_splits)

lemma newer_nonempty:
  "lg \<noteq> [] \<Longrightarrow> newer lg args \<longleftrightarrow> log_key lg \<le> (LastLogTerm args, LastLogIndex args)"
  by (auto simp: newer_def log_key_def last_conv_nth less_eq_prod_def)

lemma newer_key:
  assumes "startRequestVote_args rf = Some args" and "\<forall>e \<in> set (log rf). 0 \<le> Term e"
  shows "newer lg args \<longleftrightarrow> log_key lg \<le> log_key (log rf)"
proof (cases "lg = []")
  case True
  have "0 \<le> Term (last (log rf))" if "log rf \<noteq> []"
    using assms(2) that by simp
  then have "log_key lg \<le> log_key (log rf)"
    using True by (auto simp: log_key_def less_eq_prod_def)
  then show ?thesis by (simp add: newer_def True)
next
  case False
  then show ?thesis
    using startRequestVote_key [OF assms(1)] by (simp add: newer_nonempty)
qed

section \<open>Majorities\<close>

definition majority :: "nat \<Rightarrow> nat set \<Rightarrow> bool" where
  "majority n A \<longleftrightarrow> A \<subseteq> {0..<n} \<and> n < 2 * card A"

lemma majorities_meet:
  assumes "majority n A" and "majority n B"
  shows "\<exists>p. p \<in> A \<and> p \<in> B"
proof (rule ccontr)
  assume "\<not> ?thesis"
  then have disj: "A \<inter> B = {}" by blast
  have sub: "A \<union> B \<subseteq> {0..<n}" and fin: "finite A" "finite B"
    using assms by (auto simp: majority_def intro: finite_subset)
  have "card A + card B = card (A \<union> B)"
    using card_Un_disjoint [OF fin disj] by simp
  also have "\<dots> \<le> n"
    using card_mono [OF _ sub] by simp
  finally show False
    using assms by (auto simp: majority_def)
qed

interpretation votes: quorum_system "majority n" for n
  by unfold_locales (rule majorities_meet)

section \<open>Properties\<close>

text \<open>Sample data for the examples.\<close>

definition sample_vote :: "int \<Rightarrow> int \<Rightarrow> RequestVoteArgs" where
  "sample_vote t c = \<lparr>rv_Term = t, CandidateID = c, LastLogIndex = 0, LastLogTerm = 1\<rparr>"

definition sample_log :: "nat LogEntry list" where
  "sample_log = [\<lparr>Command = Some 7, Term = 1\<rparr>]"

text \<open>
  C26: \<^verbatim>\<open>RequestVote\<close> on every branch.
\<close>

theorem RequestVote_spec:
  "case RequestVote rf args of (rf', reply) \<Rightarrow>
     (VoteGranted reply \<longleftrightarrow>
        currentTerm rf \<le> rv_Term args \<and> newer (log rf) args \<and>
        (currentTerm rf < rv_Term args \<or> votedFor rf = -1 \<or> votedFor rf = CandidateID args)) \<and>
     rvr_Term reply = max (currentTerm rf) (rv_Term args) \<and>
     currentTerm rf' = rvr_Term reply \<and>
     state rf' = (if currentTerm rf < rv_Term args then Follower else state rf) \<and>
     log rf' = log rf \<and> committedIndex rf' = committedIndex rf \<and> durable rf'"
  using RequestVote_granted_iff [of rf args] RequestVote_reply_term [of rf args]
    RequestVote_term [of rf args] RequestVote_state [of rf args] RequestVote_frame [of rf args]
    durable_RequestVote [of rf args]
  by (auto simp: vote_at_def split_def)

text \<open>
  C27: a vote survives a crash. After \<^verbatim>\<open>RequestVote\<close> has granted one, a peer made from a copy
  of the store has the candidate as its vote and the request's term as its term.
\<close>

theorem granted_vote_survives_crash:
  assumes "RequestVote rf args = (rf', reply)" and "VoteGranted reply"
  shows "votedFor (Make n i (Copy (persister rf'))) = CandidateID args \<and>
    currentTerm (Make n i (Copy (persister rf'))) = rv_Term args"
proof -
  have "currentTerm rf' = rv_Term args" "votedFor rf' = CandidateID args"
    using assms RequestVote_granted_iff [of rf args] RequestVote_term [of rf args]
      RequestVote_votedFor [of rf args] by auto
  moreover have "durable rf'" using durable_RequestVote [of rf args] assms(1) by simp
  then have "pstate (Make n i (Copy (persister rf'))) = pstate rf'"
    using pstate_Make_cong [where ps = "Copy (persister rf')" and ps' = "persister rf'"
        and n = n and i = i and m = "peers rf'" and j = "me rf'"]
    by (simp add: durable_def raft_store.load_dup)
  ultimately show ?thesis by (simp add: pstate_def)
qed

theorem granted_vote_survives_crash_witness:
  "votedFor (Make 3 0 (Copy (persister (fst (RequestVote (sample_peer 0 1 (-1) Follower []) (sample_vote 2 1)))))) = 1"
  using granted_vote_survives_crash [of "sample_peer 0 1 (-1) Follower []" "sample_vote 2 1"
      "fst (RequestVote (sample_peer 0 1 (-1) Follower []) (sample_vote 2 1))"
      "snd (RequestVote (sample_peer 0 1 (-1) Follower []) (sample_vote 2 1))" 3 0]
  by (simp add: RequestVote_granted_iff newer_def vote_at_def sample_vote_def)

text \<open>
  C16: the handler together with the request that \<^verbatim>\<open>startRequestVote\<close> builds implements Raft's
  rule: a candidate gets the vote exactly when its term is not behind, its log is at least as
  up-to-date as the voter's (last term first, then length) and the voter is free to vote for it.
\<close>

theorem vote_only_for_up_to_date:
  assumes "startRequestVote_args cand = Some args" and "\<forall>e \<in> set (log cand). 0 \<le> Term e"
  shows "VoteGranted (snd (RequestVote rf args)) \<longleftrightarrow>
    currentTerm rf \<le> currentTerm cand \<and> log_key (log rf) \<le> log_key (log cand) \<and>
    (currentTerm rf < currentTerm cand \<or> votedFor rf \<in> {-1, int (me cand)})"
proof -
  have "rv_Term args = currentTerm cand" "CandidateID args = int (me cand)"
    using assms(1) by (auto simp: startRequestVote_args_def Let_def split: if_splits)
  then show ?thesis
    by (auto simp: RequestVote_granted_iff newer_key [OF assms] vote_at_def)
qed

theorem vote_only_for_up_to_date_witness:
  "\<not> VoteGranted (snd (RequestVote (sample_peer 0 1 (-1) Follower sample_log)
      (the (startRequestVote_args (sample_peer 1 2 1 Candidate [])))))"
  using vote_only_for_up_to_date [of "sample_peer 1 2 1 Candidate []"
      "the (startRequestVote_args (sample_peer 1 2 1 Candidate []))"
      "sample_peer 0 1 (-1) Follower sample_log"]
  by (simp add: startRequestVote_args_def log_key_def sample_log_def less_eq_prod_def Let_def)

text \<open>
  C33: a refusal gives the vote away. A peer that has voted for another candidate in the current
  term refuses a second request of that term, but forgets its vote in doing so, and then grants the
  vote to a further candidate in the same term: it votes twice in one term.
\<close>

theorem refusal_frees_the_vote:
  assumes "votedFor rf \<notin> {-1, CandidateID args}" and "rv_Term args = currentTerm rf"
    and "rv_Term args' = currentTerm rf" and "newer (log rf) args'"
  shows "\<not> VoteGranted (snd (RequestVote rf args)) \<and>
    votedFor (fst (RequestVote rf args)) = -1 \<and>
    VoteGranted (snd (RequestVote (fst (RequestVote rf args)) args'))"
  using assms
  by (auto simp: RequestVote_granted_iff RequestVote_votedFor RequestVote_term vote_at_def)

theorem refusal_frees_the_vote_witness:
  "VoteGranted (snd (RequestVote (fst (RequestVote (sample_peer 0 1 0 Candidate []) (sample_vote 1 1)))
      (sample_vote 1 2)))"
  using refusal_frees_the_vote [of "sample_peer 0 1 0 Candidate []" "sample_vote 1 1" "sample_vote 1 2"]
  by (simp add: sample_vote_def newer_def)

text \<open>
  C30: a reply makes a candidate the leader exactly when it is a granted vote for the round's
  term, no earlier reply of the round has, and with it the votes are more than half of the peers.
\<close>

theorem candidate_wins_by_majority:
  assumes "handleVoteReply rf args reply nLeader = (rf', k)" and "state rf = Candidate"
  shows "state rf' = Leader \<longleftrightarrow>
    rvr_Term reply \<le> currentTerm rf \<and> currentTerm rf = rv_Term args \<and> VoteGranted reply \<and>
    nLeader = 0 \<and> int (peers rf) < 2 * (voteGranted rf + 1)"
  using assms by (auto simp: handleVoteReply_def Let_def split: if_splits)

theorem candidate_wins_by_majority_witness:
  "state (fst (handleVoteReply ((sample_peer 0 1 0 Candidate [])\<lparr>voteGranted := 1\<rparr>) (sample_vote 1 0)
     \<lparr>rvr_Term = 1, VoteGranted = True\<rparr> 0)) = Leader"
  using candidate_wins_by_majority [of "(sample_peer 0 1 0 Candidate [])\<lparr>voteGranted := 1\<rparr>" "sample_vote 1 0"
      "\<lparr>rvr_Term = 1, VoteGranted = True\<rparr>" 0
      "fst (handleVoteReply ((sample_peer 0 1 0 Candidate [])\<lparr>voteGranted := 1\<rparr>) (sample_vote 1 0)
         \<lparr>rvr_Term = 1, VoteGranted = True\<rparr> 0)"
      "snd (handleVoteReply ((sample_peer 0 1 0 Candidate [])\<lparr>voteGranted := 1\<rparr>) (sample_vote 1 0)
         \<lparr>rvr_Term = 1, VoteGranted = True\<rparr> 0)"]
  by (simp add: sample_vote_def)

end
