(* ===== verification/Replication.thy ===== *)
theory Replication
  imports Election "HOL-Library.Multiset"
begin

text \<open>
  Log replication, \<^verbatim>\<open>Task5/raft/raft.go\<close>: \<^verbatim>\<open>Start\<close>, the \<^verbatim>\<open>AppendEntries\<close> handler, the
  request that a goroutine of \<^verbatim>\<open>startAppendEntries\<close> builds, what it does with a reply (advancing
  the commit index, or backing up \<^verbatim>\<open>nextIndex\<close>) and \<^verbatim>\<open>startApplyLogs\<close>.

  Every slice and index expression of the source whose bounds are not checked just before it
  goes through the bounds-checked operations of the prelude, so a panic is a value
  \<open>Inl e\<close> of the model.
\<close>

section \<open>Messages\<close>

record 'c AppendEntriesArgs =
  ae_Term :: int
  LeaderID :: int
  PrevLogIndex :: int
  PrevLogTerm :: int
  Entries :: "'c LogEntry list"
  LeaderCommit :: int

record AppendEntriesReply =
  aer_Term :: int
  Success :: bool
  ConflictIndex :: int
  ConflictTerm :: int

section \<open>Applying committed entries\<close>

text \<open>
  \<^verbatim>\<open>startApplyLogs\<close>: the loop ends because \<open>lastApplied\<close> grows towards \<open>committedIndex\<close>.
\<close>

function startApplyLogs :: "'c raft \<Rightarrow> 'c raft go" where
  "startApplyLogs rf =
     (if lastApplied rf < committedIndex rf \<and> lastApplied rf + 1 < int (length (log rf)) then
        bind_go (go_index (log rf) (lastApplied rf + 1)) (\<lambda>e.
          startApplyLogs (rf\<lparr>
            applyCh := applyCh rf @ [\<lparr>CommandValid = True, ApplyCommand = Command e,
              CommandIndex = lastApplied rf + 1\<rparr>],
            lastApplied := lastApplied rf + 1\<rparr>))
      else Inr rf)"
  by pat_completeness auto
termination
  by (relation "measure (\<lambda>rf. nat (committedIndex rf - lastApplied rf))") auto

declare startApplyLogs.simps [simp del]

section \<open>The AppendEntries handler\<close>

text \<open>The first loop: cut the log at an entry whose term differs; \<open>k\<close> is \<^verbatim>\<open>PrevLogIndex+i+1\<close>.\<close>

fun ae_truncate :: "int \<Rightarrow> 'c LogEntry list \<Rightarrow> 'c LogEntry list \<Rightarrow> 'c LogEntry list go" where
  "ae_truncate k [] lg = Inr lg"
| "ae_truncate k (e # es) lg =
     (if k \<ge> int (length lg) then Inr lg
      else bind_go (go_index lg k) (\<lambda>x.
        if Term x \<noteq> Term e then go_slice_to lg (k - 1) else ae_truncate (k + 1) es lg))"

text \<open>The second loop: write the entries over the log or append them.\<close>

fun ae_write :: "int \<Rightarrow> 'c LogEntry list \<Rightarrow> 'c LogEntry list \<Rightarrow> 'c LogEntry list go" where
  "ae_write k [] lg = Inr lg"
| "ae_write k (e # es) lg =
     (if k \<ge> int (length lg) then ae_write (k + 1) es (lg @ [e])
      else bind_go (go_update lg k e) (ae_write (k + 1) es))"

text \<open>The index of the first entry of a term; \<^verbatim>\<open>reply.ConflictIndex\<close> keeps \<open>0\<close> if there is none.\<close>

fun first_of_term :: "int \<Rightarrow> int \<Rightarrow> 'c LogEntry list \<Rightarrow> int" where
  "first_of_term t i [] = 0"
| "first_of_term t i (e # es) = (if Term e = t then i else first_of_term t (i + 1) es)"

text \<open>The consistency check: \<open>(Success, ConflictIndex, ConflictTerm)\<close> of the reply.\<close>

definition ae_check :: "'c raft \<Rightarrow> 'c AppendEntriesArgs \<Rightarrow> (bool \<times> int \<times> int) go" where
  "ae_check rf args =
     (if ae_Term args < currentTerm rf then Inr (False, 0, 0)
      else if int (length (log rf)) \<le> PrevLogIndex args then
        Inr (False, int (length (log rf)) - 1, -1)
      else if PrevLogIndex args = -1 then Inr (True, 0, 0)
      else bind_go (go_index (log rf) (PrevLogIndex args)) (\<lambda>e.
        if Term e \<noteq> PrevLogTerm args then
          (let prevLogTerm = (if PrevLogIndex args \<ge> 0 then Term e else -1)
           in if PrevLogTerm args \<noteq> prevLogTerm then
                Inr (False, first_of_term prevLogTerm 0 (log rf), prevLogTerm)
              else Inr (False, 0, 0))
        else Inr (True, 0, 0)))"

text \<open>The commit index after a successful append.\<close>

definition ae_commit :: "'c raft \<Rightarrow> 'c AppendEntriesArgs \<Rightarrow> int" where
  "ae_commit rf args =
     (if LeaderCommit args > committedIndex rf then
        (let c = (if LeaderCommit args > PrevLogIndex args + int (length (Entries args))
                  then PrevLogIndex args + int (length (Entries args)) else LeaderCommit args)
         in if c \<ge> int (length (log rf)) then int (length (log rf)) - 1 else c)
      else committedIndex rf)"

definition ae_log :: "int \<Rightarrow> 'c LogEntry list \<Rightarrow> 'c LogEntry list \<Rightarrow> 'c LogEntry list go" where
  "ae_log prev es lg =
     bind_go (ae_truncate (prev + 1) es lg) (\<lambda>lg.
       if prev < int (length lg) then ae_write (prev + 1) es lg else Inr lg)"

definition ae_install :: "'c raft \<Rightarrow> 'c AppendEntriesArgs \<Rightarrow> 'c raft go" where
  "ae_install rf args =
     bind_go (ae_log (PrevLogIndex args) (Entries args) (log rf)) (\<lambda>lg.
       let rf = rf\<lparr>log := lg\<rparr>;
           rf = rf\<lparr>committedIndex := ae_commit rf args\<rparr>
       in startApplyLogs rf)"

text \<open>A request of a later term: the handler adopts the term and steps down.\<close>

definition ae_adopt :: "'c raft \<Rightarrow> 'c AppendEntriesArgs \<Rightarrow> 'c raft" where
  "ae_adopt rf args =
     (if ae_Term args > currentTerm rf then
        (let rf = rf\<lparr>currentTerm := ae_Term args\<rparr>
         in if state rf \<noteq> Follower then convertToFollower rf (currentTerm rf) (votedFor rf) else rf)
      else rf)"

definition AppendEntries :: "'c raft \<Rightarrow> 'c AppendEntriesArgs \<Rightarrow> ('c raft \<times> AppendEntriesReply) go" where
  "AppendEntries rf args =
     (let rf = ae_adopt rf args
      in bind_go (ae_check rf args) (\<lambda>(success, ci, ct).
         let reply = \<lparr>aer_Term = currentTerm rf, Success = success, ConflictIndex = ci,
                      ConflictTerm = ct\<rparr>
         in bind_go (if success then ae_install rf args else Inr rf) (\<lambda>rf.
            let rf = persist rf
            in Inr (rf\<lparr>heartBeatCh := chan_signal (heartBeatCh rf)\<rparr>, reply))))"

section \<open>The leader's side\<close>

definition Start :: "'c raft \<Rightarrow> 'c iface \<Rightarrow> 'c raft \<times> int \<times> int \<times> bool" where
  "Start rf command =
     (let index = -1; term = currentTerm rf; isLeader = (state rf = Leader)
      in if isLeader then
           (persist (rf\<lparr>log := log rf @ [\<lparr>Command = command, Term = currentTerm rf\<rparr>]\<rparr>),
            int (length (log rf)), term, isLeader)
         else (rf, index, term, isLeader))"

text \<open>
  The request a goroutine of \<^verbatim>\<open>startAppendEntries\<close> builds for peer \<open>j\<close>; \<open>Inr None\<close>: the
  peer is no longer leader and the goroutine ends.
\<close>

definition appendEntries_args :: "'c raft \<Rightarrow> nat \<Rightarrow> 'c AppendEntriesArgs option go" where
  "appendEntries_args rf j =
     (if state rf \<noteq> Leader then Inr None
      else bind_go (go_index (nextIndex rf) (int j)) (\<lambda>next.
        let prevLogIndex = next - 1
        in bind_go (if prevLogIndex \<ge> 0
                    then bind_go (go_index (log rf) prevLogIndex) (\<lambda>e. Inr (Term e))
                    else Inr (-1)) (\<lambda>prevLogTerm.
           bind_go (go_slice_from (log rf) (prevLogIndex + 1)) (\<lambda>entries.
             Inr (Some \<lparr>ae_Term = currentTerm rf, LeaderID = int (me rf),
               PrevLogIndex = prevLogIndex, PrevLogTerm = prevLogTerm,
               Entries = entries, LeaderCommit = committedIndex rf\<rparr>)))))"

text \<open>The index that \<^verbatim>\<open>copyMatchIndex[len(rf.peers)/2]\<close> gives after sorting.\<close>

definition commit_candidate :: "'c raft \<Rightarrow> int go" where
  "commit_candidate rf =
     bind_go (go_update (take (peers rf) (matchIndex rf) @
                replicate (peers rf - length (matchIndex rf)) 0)
              (int (me rf)) (int (length (log rf)))) (\<lambda>copyMatchIndex.
     go_index (sort copyMatchIndex) (int (peers rf div 2)))"

definition advance_commit :: "'c raft \<Rightarrow> 'c raft go" where
  "advance_commit rf =
     bind_go (commit_candidate rf) (\<lambda>N.
     bind_go (if N > committedIndex rf
              then bind_go (go_index (log rf) N) (\<lambda>e. Inr (Term e = currentTerm rf))
              else Inr False) (\<lambda>ok.
     startApplyLogs (if ok then rf\<lparr>committedIndex := N\<rparr> else rf)))"

text \<open>
  The scan of the leader's log on a refused request: at the first entry with a term greater than
  \<^verbatim>\<open>ConflictTerm\<close> it decides the new \<^verbatim>\<open>nextIndex[j]\<close>; \<open>None\<close>: there is no such entry and
  \<^verbatim>\<open>nextIndex[j]\<close> stays.
\<close>

fun backup_scan :: "int \<Rightarrow> int \<Rightarrow> bool \<Rightarrow> int \<Rightarrow> 'c LogEntry list \<Rightarrow> int option" where
  "backup_scan ct ci has i [] = None"
| "backup_scan ct ci has i (e # es) =
     (let has = (has \<or> Term e = ct)
      in if Term e > ct then Some (if has then i else ci)
         else backup_scan ct ci has (i + 1) es)"

definition backup_next :: "'c raft \<Rightarrow> int \<Rightarrow> AppendEntriesReply \<Rightarrow> int" where
  "backup_next rf next reply =
     (let n = (case backup_scan (ConflictTerm reply) (ConflictIndex reply) False 0 (log rf) of
                 None \<Rightarrow> next | Some n \<Rightarrow> n)
      in if n < 0 then 0 else n)"

text \<open>
  What the goroutine does with a reply. The flag says whether it goes round its loop again
  (a refused request) or ends.
\<close>

definition handleAppendReply ::
  "'c raft \<Rightarrow> nat \<Rightarrow> 'c AppendEntriesArgs \<Rightarrow> AppendEntriesReply \<Rightarrow> ('c raft \<times> bool) go" where
  "handleAppendReply rf j args reply =
     (if aer_Term reply > currentTerm rf then
        Inr (convertToFollower rf (aer_Term reply) (-1), False)
      else if currentTerm rf \<noteq> ae_Term args \<or> state rf \<noteq> Leader then Inr (rf, False)
      else if Success reply then
        bind_go (go_update (matchIndex rf) (int j)
                  (PrevLogIndex args + int (length (Entries args)))) (\<lambda>mi.
        bind_go (go_index mi (int j)) (\<lambda>m.
        bind_go (go_update (nextIndex rf) (int j) (m + 1)) (\<lambda>ni.
        bind_go (advance_commit (rf\<lparr>matchIndex := mi, nextIndex := ni\<rparr>)) (\<lambda>rf.
          Inr (rf, False)))))
      else
        bind_go (go_index (nextIndex rf) (int j)) (\<lambda>next.
        bind_go (go_update (nextIndex rf) (int j) (backup_next rf next reply)) (\<lambda>ni.
          Inr (rf\<lparr>nextIndex := ni\<rparr>, True))))"

text \<open>
  The loop of one goroutine of \<^verbatim>\<open>startAppendEntries\<close> against a peer that answers every call:
  build a request, have it handled, handle the reply, go round again if it was refused. The fuel
  bounds the rounds; \<open>None\<close> is a loop that is still going.
\<close>

fun appendEntries_loop :: "nat \<Rightarrow> 'c raft \<Rightarrow> nat \<Rightarrow> 'c raft \<Rightarrow> ('c raft \<times> 'c raft) option go" where
  "appendEntries_loop 0 L j F = Inr None"
| "appendEntries_loop (Suc fuel) L j F =
     bind_go (appendEntries_args L j) (\<lambda>a. case a of
       None \<Rightarrow> Inr (Some (L, F))
     | Some args \<Rightarrow> bind_go (AppendEntries F args) (\<lambda>(F, reply).
         bind_go (handleAppendReply L j args reply) (\<lambda>(L, again).
           if again then appendEntries_loop fuel L j F else Inr (Some (L, F)))))"

section \<open>What startApplyLogs sends\<close>

definition apply_msg :: "'c LogEntry list \<Rightarrow> int \<Rightarrow> 'c ApplyMsg" where
  "apply_msg lg k = \<lparr>CommandValid = True, ApplyCommand = Command (lg ! nat k), CommandIndex = k\<rparr>"

definition apply_limit :: "'c raft \<Rightarrow> int" where
  "apply_limit rf = min (committedIndex rf) (int (length (log rf)) - 1)"

lemma startApplyLogs_eq:
  "-1 \<le> lastApplied rf \<Longrightarrow>
   startApplyLogs rf = Inr (rf\<lparr>
     applyCh := applyCh rf @ map (apply_msg (log rf)) [lastApplied rf + 1 .. apply_limit rf],
     lastApplied := max (lastApplied rf) (apply_limit rf)\<rparr>)"
proof (induction rf rule: startApplyLogs.induct)
  case (1 rf)
  show ?case
  proof (cases "lastApplied rf < committedIndex rf \<and> lastApplied rf + 1 < int (length (log rf))")
    case True
    then have "lastApplied rf + 1 \<le> apply_limit rf" by (simp add: apply_limit_def)
    with True "1.prems" "1.IH" show ?thesis
      by (subst startApplyLogs.simps)
        (simp add: go_simps apply_limit_def apply_msg_def upto_rec1 [of "lastApplied rf + 1"])
  next
    case False
    then have "apply_limit rf \<le> lastApplied rf" by (auto simp: apply_limit_def)
    with False show ?thesis by (subst startApplyLogs.simps) (auto simp: max_def)
  qed
qed

lemma map_apply_index: "map (CommandIndex \<circ> apply_msg lg) xs = xs"
  by (induction xs) (auto simp: apply_msg_def)

section \<open>The log after AppendEntries\<close>

text \<open>
  The abstract rule: the new entries are compared with the part of the log that follows the
  previous entry; the first entry of another term and all that follow it give way to the new
  ones, and entries beyond the new ones stay.
\<close>

fun merge_entries :: "'c LogEntry list \<Rightarrow> 'c LogEntry list \<Rightarrow> 'c LogEntry list" where
  "merge_entries [] ys = ys"
| "merge_entries es [] = es"
| "merge_entries (e # es) (y # ys) =
     (if Term y \<noteq> Term e then e # es else e # merge_entries es ys)"

fun conflict_at :: "'c LogEntry list \<Rightarrow> 'c LogEntry list \<Rightarrow> nat option" where
  "conflict_at (e # es) (y # ys) =
     (if Term y \<noteq> Term e then Some 0 else map_option Suc (conflict_at es ys))"
| "conflict_at _ _ = None"

lemma merge_entries_eq:
  "merge_entries es ys =
     (case conflict_at es ys of None \<Rightarrow> es @ drop (length es) ys | Some i \<Rightarrow> es)"
  by (induction es ys rule: merge_entries.induct) (auto split: option.splits)

lemma conflict_at_bounds:
  "conflict_at es ys = Some i \<Longrightarrow> i < length es \<and> i < length ys"
  by (induction es ys arbitrary: i rule: conflict_at.induct) (auto split: if_splits)

lemma ae_truncate_eq:
  "p \<le> length lg \<Longrightarrow>
   ae_truncate (int p) es lg =
     (case conflict_at es (drop p lg) of None \<Rightarrow> Inr lg
      | Some i \<Rightarrow> if p + i = 0 then Inl SliceBoundsOutOfRange else Inr (take (p + i - 1) lg))"
proof (induction es arbitrary: p)
  case Nil
  then show ?case by simp
next
  case (Cons e es)
  show ?case
  proof (cases "p < length lg")
    case False
    with Cons.prems show ?thesis by simp
  next
    case True
    have "ae_truncate (int (Suc p)) es lg =
      (case conflict_at es (drop (Suc p) lg) of None \<Rightarrow> Inr lg
       | Some i \<Rightarrow> if Suc p + i = 0 then Inl SliceBoundsOutOfRange
                  else Inr (take (Suc p + i - 1) lg))"
      using True by (intro Cons.IH) simp
    moreover have "conflict_at (e # es) (drop p lg) =
      (if Term (lg ! p) \<noteq> Term e then Some 0
       else map_option Suc (conflict_at es (drop (Suc p) lg)))"
      using True by (simp add: nth_drop_hd)
    moreover have "ae_truncate (int p) (e # es) lg =
      (if Term (lg ! p) \<noteq> Term e then go_slice_to lg (int p - 1)
       else ae_truncate (int (Suc p)) es lg)"
      using True by (simp add: add.commute)
    moreover have "go_slice_to lg (int p - 1) =
      (if p = 0 then Inl SliceBoundsOutOfRange else Inr (take (p - 1) lg))"
      using True by (auto simp: go_slice_to_def nat_diff_distrib')
    ultimately show ?thesis
      by (auto split: option.splits)
  qed
qed

lemma ae_write_eq:
  "p \<le> length lg \<Longrightarrow> ae_write (int p) es lg = Inr (take p lg @ es @ drop (p + length es) lg)"
proof (induction es arbitrary: p lg)
  case Nil
  then show ?case by simp
next
  case (Cons e es)
  show ?case
  proof (cases "p < length lg")
    case False
    with Cons.prems have p: "p = length lg" by simp
    with Cons.IH [of "Suc p" "lg @ [e]"] show ?thesis by (simp add: add.commute)
  next
    case True
    with Cons.IH [of "Suc p" "lg[p := e]"] show ?thesis
      by (simp add: add.commute take_Suc_conv_app_nth)
  qed
qed

text \<open>
  The entry right after the previous one has another term than the first new entry.
\<close>

definition head_conflict :: "nat \<Rightarrow> 'c LogEntry list \<Rightarrow> 'c LogEntry list \<Rightarrow> bool" where
  "head_conflict p es lg \<longleftrightarrow> es \<noteq> [] \<and> p < length lg \<and> Term (lg ! p) \<noteq> Term (hd es)"

lemma conflict_at_head:
  "conflict_at es (drop p lg) = Some 0 \<longleftrightarrow> head_conflict p es lg"
  by (cases es; cases "p < length lg") (auto simp: head_conflict_def nth_drop_hd)

lemma ae_log_eq:
  assumes "p \<le> length lg"
  shows "ae_log (int p - 1) es lg =
    (if \<not> head_conflict p es lg then Inr (take p lg @ merge_entries es (drop p lg))
     else if p = 0 then Inl SliceBoundsOutOfRange
     else Inr (take (p - 1) lg))"
proof (cases "conflict_at es (drop p lg)")
  case None
  then have "\<not> head_conflict p es lg" by (metis conflict_at_head option.distinct(1))
  with None assms show ?thesis
    by (simp add: ae_log_def ae_truncate_eq ae_write_eq merge_entries_eq add.commute)
next
  case (Some i)
  show ?thesis
  proof (cases i)
    case 0
    with Some have "head_conflict p es lg" by (simp add: conflict_at_head [symmetric])
    with 0 Some assms show ?thesis
      by (auto simp: ae_log_def ae_truncate_eq of_nat_diff)
  next
    case (Suc m)
    have nc: "\<not> head_conflict p es lg" using Some Suc by (simp add: conflict_at_head [symmetric])
    have b: "Suc m < length es" "Suc m < length lg - p"
      using conflict_at_bounds [OF Some] Suc by auto
    then have "ae_write (int p) es (take (p + m) lg) = Inr (take p lg @ es)"
      by (subst ae_write_eq) (auto simp: min_def)
    with Some Suc nc assms b show ?thesis
      by (simp add: ae_log_def ae_truncate_eq merge_entries_eq)
  qed
qed

lemma merge_entries_idem: "merge_entries es (merge_entries es ys) = merge_entries es ys"
proof (induction es ys rule: merge_entries.induct)
  case (3 e es y ys)
  have "merge_entries es es = es" by (induction es) auto
  with 3 show ?case by simp
next
  case (2 e es)
  have "merge_entries xs xs = xs" for xs :: "'a LogEntry list" by (induction xs) auto
  then show ?case by simp
qed simp

section \<open>AppendEntries branch by branch\<close>

lemma ae_adopt_simps [simp]:
  "currentTerm (ae_adopt rf args) = max (currentTerm rf) (ae_Term args)"
  "log (ae_adopt rf args) = log rf" "peers (ae_adopt rf args) = peers rf"
  "me (ae_adopt rf args) = me rf" "dead (ae_adopt rf args) = dead rf"
  "committedIndex (ae_adopt rf args) = committedIndex rf"
  "lastApplied (ae_adopt rf args) = lastApplied rf" "applyCh (ae_adopt rf args) = applyCh rf"
  "nextIndex (ae_adopt rf args) = nextIndex rf" "matchIndex (ae_adopt rf args) = matchIndex rf"
  "votedFor (ae_adopt rf args) = votedFor rf"
  "state (ae_adopt rf args) = (if ae_Term args > currentTerm rf then Follower else state rf)"
  "grantVoteCh (ae_adopt rf args) = grantVoteCh rf"
  "heartBeatCh (ae_adopt rf args) = heartBeatCh rf" "leaderCh (ae_adopt rf args) = leaderCh rf"
  by (auto simp: ae_adopt_def Let_def)

text \<open>The request passes the consistency check.\<close>

definition ae_accepts :: "'c raft \<Rightarrow> 'c AppendEntriesArgs \<Rightarrow> bool" where
  "ae_accepts rf args \<longleftrightarrow>
     currentTerm rf \<le> ae_Term args \<and> -1 \<le> PrevLogIndex args \<and>
     PrevLogIndex args < int (length (log rf)) \<and>
     (PrevLogIndex args = -1 \<or> Term (log rf ! nat (PrevLogIndex args)) = PrevLogTerm args)"

lemma ae_check_accepts:
  "ae_check (ae_adopt rf args) args = Inr (True, ci, ct) \<longleftrightarrow> ae_accepts rf args \<and> ci = 0 \<and> ct = 0"
  by (auto simp: ae_check_def ae_accepts_def go_index_def Let_def)

lemma ae_check_adopted:
  "ae_accepts rf args \<Longrightarrow> ae_check (ae_adopt rf args) args = Inr (True, 0, 0)"
  by (simp add: ae_check_accepts)

text \<open>The peer after an accepted request that leaves the log \<open>lg\<close>.\<close>

definition ae_accepted :: "'c raft \<Rightarrow> 'c AppendEntriesArgs \<Rightarrow> 'c LogEntry list \<Rightarrow> 'c raft" where
  "ae_accepted rf args lg =
     (let rf = (ae_adopt rf args)\<lparr>log := lg\<rparr>;
          rf = rf\<lparr>committedIndex := ae_commit rf args\<rparr>;
          rf = persist (rf\<lparr>
            applyCh := applyCh rf @ map (apply_msg lg) [lastApplied rf + 1 .. apply_limit rf],
            lastApplied := max (lastApplied rf) (apply_limit rf)\<rparr>)
      in rf\<lparr>heartBeatCh := chan_signal (heartBeatCh rf)\<rparr>)"

lemma AppendEntries_accept_eq:
  assumes "ae_accepts rf args" and "-1 \<le> lastApplied rf"
  shows "AppendEntries rf args =
    bind_go (ae_log (PrevLogIndex args) (Entries args) (log rf)) (\<lambda>lg.
      Inr (ae_accepted rf args lg,
           \<lparr>aer_Term = ae_Term args, Success = True, ConflictIndex = 0, ConflictTerm = 0\<rparr>))"
proof -
  have "max (currentTerm rf) (ae_Term args) = ae_Term args"
    using assms(1) by (simp add: ae_accepts_def)
  then show ?thesis
    using assms(2)
    by (cases "ae_log (PrevLogIndex args) (Entries args) (log rf)")
      (simp_all add: AppendEntries_def ae_check_adopted [OF assms(1)] ae_install_def
        startApplyLogs_eq ae_accepted_def Let_def)
qed

lemma ae_accepted_simps [simp]:
  "log (ae_accepted rf args lg) = lg"
  "currentTerm (ae_accepted rf args lg) = max (currentTerm rf) (ae_Term args)"
  "peers (ae_accepted rf args lg) = peers rf" "me (ae_accepted rf args lg) = me rf"
  "dead (ae_accepted rf args lg) = dead rf"
  "votedFor (ae_accepted rf args lg) = votedFor rf"
  "nextIndex (ae_accepted rf args lg) = nextIndex rf"
  "matchIndex (ae_accepted rf args lg) = matchIndex rf"
  "state (ae_accepted rf args lg) = (if ae_Term args > currentTerm rf then Follower else state rf)"
  "committedIndex (ae_accepted rf args lg) = ae_commit (rf\<lparr>log := lg\<rparr>) args"
  by (simp_all add: ae_accepted_def Let_def ae_commit_def)

lemma ae_accepted_applied:
  "lastApplied (ae_accepted rf args lg) =
     max (lastApplied rf) (apply_limit (rf\<lparr>log := lg, committedIndex := ae_commit (rf\<lparr>log := lg\<rparr>) args\<rparr>))"
  "applyCh (ae_accepted rf args lg) = applyCh rf @ map (apply_msg lg) [lastApplied rf + 1 ..
     apply_limit (rf\<lparr>log := lg, committedIndex := ae_commit (rf\<lparr>log := lg\<rparr>) args\<rparr>)]"
  by (simp_all add: ae_accepted_def Let_def ae_commit_def apply_limit_def)

lemma AppendEntries_refuse_eq:
  assumes "ae_check (ae_adopt rf args) args = Inr (False, ci, ct)"
  shows "AppendEntries rf args =
    Inr ((persist (ae_adopt rf args))\<lparr>heartBeatCh := chan_signal (heartBeatCh rf)\<rparr>,
         \<lparr>aer_Term = max (currentTerm rf) (ae_Term args), Success = False,
          ConflictIndex = ci, ConflictTerm = ct\<rparr>)"
  by (simp add: AppendEntries_def assms Let_def)

lemma AppendEntries_cases:
  assumes "AppendEntries rf args = Inr (rf', reply)" and "-1 \<le> lastApplied rf"
  obtains (accepted) lg where "ae_accepts rf args"
      "ae_log (PrevLogIndex args) (Entries args) (log rf) = Inr lg" "rf' = ae_accepted rf args lg"
      "reply = \<lparr>aer_Term = ae_Term args, Success = True, ConflictIndex = 0, ConflictTerm = 0\<rparr>"
    | (refused) ci ct where "\<not> ae_accepts rf args"
      "ae_check (ae_adopt rf args) args = Inr (False, ci, ct)"
      "rf' = (persist (ae_adopt rf args))\<lparr>heartBeatCh := chan_signal (heartBeatCh rf)\<rparr>"
      "reply = \<lparr>aer_Term = max (currentTerm rf) (ae_Term args), Success = False,
                ConflictIndex = ci, ConflictTerm = ct\<rparr>"
proof (cases "ae_accepts rf args")
  case True
  with assms that(1) show ?thesis by (auto simp: AppendEntries_accept_eq)
next
  case False
  obtain ok ci ct where ck: "ae_check (ae_adopt rf args) args = Inr (ok, ci, ct)"
    using assms(1) by (auto simp: AppendEntries_def Let_def)
  with False have "\<not> ok" using ae_check_accepts by (metis (full_types))
  with ck have ck': "ae_check (ae_adopt rf args) args = Inr (False, ci, ct)" by simp
  from assms(1) False ck' that(2) show ?thesis by (simp add: AppendEntries_refuse_eq [OF ck'])
qed

lemma durable_ae_accepted [simp]: "durable (ae_accepted rf args lg)"
  by (simp add: ae_accepted_def Let_def)

lemma ae_log_accepts:
  assumes "ae_accepts rf args"
  defines "p \<equiv> nat (PrevLogIndex args + 1)"
  shows "p \<le> length (log rf)" and "PrevLogIndex args = int p - 1"
  using assms by (auto simp: ae_accepts_def p_def)

lemma AppendEntries_merge:
  assumes "ae_accepts rf args" and "-1 \<le> lastApplied rf"
    and "\<not> head_conflict (nat (PrevLogIndex args + 1)) (Entries args) (log rf)"
  shows "AppendEntries rf args = Inr (ae_accepted rf args
      (take (nat (PrevLogIndex args + 1)) (log rf) @
       merge_entries (Entries args) (drop (nat (PrevLogIndex args + 1)) (log rf))),
    \<lparr>aer_Term = ae_Term args, Success = True, ConflictIndex = 0, ConflictTerm = 0\<rparr>)"
  using assms(3) ae_log_eq [OF ae_log_accepts(1) [OF assms(1)], of "Entries args"]
    ae_log_accepts(2) [OF assms(1)]
  by (simp add: AppendEntries_accept_eq [OF assms(1,2)])

section \<open>The request a leader builds\<close>

lemma appendEntries_args_SomeD:
  assumes "appendEntries_args rf j = Inr (Some args)"
  shows "state rf = Leader" "j < length (nextIndex rf)"
    "0 \<le> nextIndex rf ! j" "nextIndex rf ! j \<le> int (length (log rf))"
    "args = \<lparr>ae_Term = currentTerm rf, LeaderID = int (me rf), PrevLogIndex = nextIndex rf ! j - 1,
      PrevLogTerm = (if nextIndex rf ! j = 0 then -1 else Term (log rf ! nat (nextIndex rf ! j - 1))),
      Entries = drop (nat (nextIndex rf ! j)) (log rf), LeaderCommit = committedIndex rf\<rparr>"
  using assms
  by (auto simp: appendEntries_args_def go_index_eq_Inr go_slice_from_eq_Inr Let_def split: if_splits)

lemma ae_check_refused:
  assumes "ae_check rf args = Inr (False, ci, ct)" and "currentTerm rf \<le> ae_Term args"
  shows "int (length (log rf)) \<le> PrevLogIndex args \<and> ci = int (length (log rf)) - 1 \<and> ct = -1 \<or>
    0 \<le> PrevLogIndex args \<and> PrevLogIndex args < int (length (log rf)) \<and>
    ct = Term (log rf ! nat (PrevLogIndex args)) \<and> ct \<noteq> PrevLogTerm args \<and>
    ci = first_of_term ct 0 (log rf)"
  using assms by (auto simp: ae_check_def go_index_eq_Inr Let_def split: if_splits)

section \<open>Handling a request twice\<close>

lemma chan_signal_idem [simp]: "chan_signal (chan_signal n) = chan_signal n"
  by (simp add: chan_signal_def)

lemma persist_idem:
  assumes "ReadRaftState (persister rf) = persist_data rf"
  shows "persist rf = rf"
  using assms by (simp add: persist_def SaveRaftState_def ReadRaftState_def)

lemma ae_commit_idem:
  "committedIndex rf' = ae_commit rf args \<Longrightarrow> length (log rf') = length (log rf) \<Longrightarrow>
   ae_commit rf' args = ae_commit rf args"
  by (auto simp: ae_commit_def Let_def)

lemma ae_accepted_again:
  assumes "ae_accepts rf args"
  shows "ae_accepted (ae_accepted rf args lg) args lg = ae_accepted rf args lg"
proof -
  let ?rf = "ae_accepted rf args lg"
  have t: "currentTerm ?rf = ae_Term args" using assms by (simp add: ae_accepts_def)
  have same: "ae_adopt ?rf args = ?rf" by (simp add: ae_adopt_def t)
  have log': "?rf\<lparr>log := lg\<rparr> = ?rf"
    by (metis ae_accepted_simps(1) raft.surjective raft.update_convs(7))
  have c: "ae_commit ?rf args = committedIndex ?rf"
    by (subst ae_commit_idem [of ?rf "rf\<lparr>log := lg\<rparr>" args]) simp_all
  then have c': "?rf\<lparr>committedIndex := ae_commit ?rf args\<rparr> = ?rf" by simp
  have lim: "apply_limit ?rf \<le> lastApplied ?rf"
    by (simp add: ae_accepted_applied apply_limit_def)
  then have ap: "?rf\<lparr>applyCh := applyCh ?rf @ map (apply_msg lg) [lastApplied ?rf + 1 .. apply_limit ?rf],
      lastApplied := max (lastApplied ?rf) (apply_limit ?rf)\<rparr> = ?rf"
    by (simp add: max_def)
  have ps: "persist ?rf = ?rf"
    by (rule persist_idem)
      (simp add: ae_accepted_def Let_def, rule persist_data_cong, simp add: pstate_def)
  have hb: "?rf\<lparr>heartBeatCh := chan_signal (heartBeatCh ?rf)\<rparr> = ?rf"
    by (simp add: ae_accepted_def Let_def)
  show ?thesis
    unfolding ae_accepted_def [of ?rf] Let_def same log' c' ap ps hb ..
qed

section \<open>The log after a round\<close>

lemma take_merge_entries: "take (length es) (merge_entries es ys) = es"
  by (simp add: merge_entries_eq split: option.split)

text \<open>
  The follower's log up to the previous entry is the leader's (log matching): after the request the
  leader's log is a prefix of the follower's.
\<close>

lemma merge_prefix:
  assumes "p \<le> length lgL" and "p \<le> length lgF" and "take p lgF = take p lgL"
  shows "take (length lgL) (take p lgF @ merge_entries (drop p lgL) (drop p lgF)) = lgL"
proof -
  have "take (length lgL) (take p lgF @ merge_entries (drop p lgL) (drop p lgF)) =
    take p lgL @ take (length (drop p lgL)) (merge_entries (drop p lgL) (drop p lgF))"
    using assms by (simp add: min_def)
  then show ?thesis by (simp only: take_merge_entries append_take_drop_id)
qed

section \<open>Properties\<close>

text \<open>Sample data for the examples.\<close>

definition entry :: "nat \<Rightarrow> int \<Rightarrow> nat LogEntry" where
  "entry c t = \<lparr>Command = Some c, Term = t\<rparr>"

definition sample_append :: "int \<Rightarrow> int \<Rightarrow> int \<Rightarrow> nat LogEntry list \<Rightarrow> int \<Rightarrow> nat AppendEntriesArgs" where
  "sample_append t p pt es c =
     \<lparr>ae_Term = t, LeaderID = 1, PrevLogIndex = p, PrevLogTerm = pt, Entries = es, LeaderCommit = c\<rparr>"

text \<open>
  C3: an accepted \<^verbatim>\<open>AppendEntries\<close> implements Raft's rule for the log, provided the entry right after
  the previous one does not conflict: it returns without a panic, reports success, and the log is
  the part up to the previous entry followed by the merge of the new entries with the rest.
\<close>

theorem AppendEntries_refines_merge:
  assumes "ae_accepts rf args" and "-1 \<le> lastApplied rf"
    and "\<not> head_conflict (nat (PrevLogIndex args + 1)) (Entries args) (log rf)"
  shows "\<exists>rf' reply. AppendEntries rf args = Inr (rf', reply) \<and> Success reply \<and> durable rf' \<and>
    log rf' = take (nat (PrevLogIndex args + 1)) (log rf) @
      merge_entries (Entries args) (drop (nat (PrevLogIndex args + 1)) (log rf))"
  by (simp add: AppendEntries_merge [OF assms])

theorem AppendEntries_refines_merge_witness:
  "\<exists>rf' reply. AppendEntries (sample_peer 0 1 (-1) Follower [entry 5 1, entry 6 1, entry 7 1])
     (sample_append 2 0 1 [entry 6 1, entry 8 2] (-1)) = Inr (rf', reply) \<and> Success reply \<and>
     log rf' = [entry 5 1, entry 6 1, entry 8 2]"
  using AppendEntries_refines_merge [of "sample_peer 0 1 (-1) Follower [entry 5 1, entry 6 1, entry 7 1]"
      "sample_append 2 0 1 [entry 6 1, entry 8 2] (-1)"]
  by (auto simp: ae_accepts_def head_conflict_def sample_append_def entry_def)

text \<open>
  C32: a conflict at the very first new entry is mishandled. The handler reports success, but the
  log loses the previous entry as well and none of the new entries is stored.
\<close>

theorem AppendEntries_head_conflict:
  assumes "ae_accepts rf args" and "-1 \<le> lastApplied rf" and "0 \<le> PrevLogIndex args"
    and "head_conflict (nat (PrevLogIndex args + 1)) (Entries args) (log rf)"
  shows "\<exists>rf' reply. AppendEntries rf args = Inr (rf', reply) \<and> Success reply \<and>
    log rf' = take (nat (PrevLogIndex args)) (log rf)"
  using assms(3,4) ae_log_eq [OF ae_log_accepts(1) [OF assms(1)], of "Entries args"]
    ae_log_accepts(2) [OF assms(1)]
  by (simp add: AppendEntries_accept_eq [OF assms(1,2)] nat_add_distrib)

theorem AppendEntries_head_conflict_witness:
  "\<exists>rf' reply. AppendEntries (sample_peer 0 1 (-1) Follower [entry 5 1, entry 6 1])
     (sample_append 2 0 1 [entry 8 2] (-1)) = Inr (rf', reply) \<and> Success reply \<and> log rf' = []"
  using AppendEntries_head_conflict [of "sample_peer 0 1 (-1) Follower [entry 5 1, entry 6 1]"
      "sample_append 2 0 1 [entry 8 2] (-1)"]
  by (auto simp: ae_accepts_def head_conflict_def sample_append_def entry_def)

text \<open>
  C31: exactly when \<^verbatim>\<open>AppendEntries\<close> panics: for a request that is not of an earlier term, if its
  previous index is below \<open>-1\<close>, or is \<open>-1\<close> and the very first entries conflict.
\<close>

theorem AppendEntries_panics_iff:
  assumes "-1 \<le> lastApplied rf"
  shows "(\<exists>e. AppendEntries rf args = Inl e) \<longleftrightarrow>
    currentTerm rf \<le> ae_Term args \<and>
    (PrevLogIndex args < -1 \<or>
     PrevLogIndex args = -1 \<and> head_conflict 0 (Entries args) (log rf))"
proof (cases "ae_accepts rf args")
  case True
  note p = ae_log_accepts [OF True]
  show ?thesis
    using True ae_log_eq [OF p(1), of "Entries args"] p(2)
    by (auto simp: AppendEntries_accept_eq [OF True assms] ae_accepts_def)
next
  case False
  show ?thesis
  proof (cases "ae_check (ae_adopt rf args) args")
    case (Inl e)
    then have "currentTerm rf \<le> ae_Term args" "PrevLogIndex args < -1"
      by (auto simp: ae_check_def go_index_def Let_def split: if_splits)
    with Inl show ?thesis by (auto simp: AppendEntries_def Let_def)
  next
    case (Inr x)
    obtain ok ci ct where x: "x = (ok, ci, ct)" by (cases x)
    with Inr False have "\<not> ok" using ae_check_accepts by (metis (full_types))
    with Inr x have "AppendEntries rf args \<noteq> Inl e" for e by (simp add: AppendEntries_def Let_def)
    moreover have "\<not> (currentTerm rf \<le> ae_Term args \<and> PrevLogIndex args \<le> -1)"
      using Inr False by (auto simp: ae_check_def ae_accepts_def go_index_def split: if_splits)
    ultimately show ?thesis by auto
  qed
qed

theorem AppendEntries_panics_iff_witness:
  "\<exists>e. AppendEntries (sample_peer 0 1 (-1) Follower [entry 5 1])
     (sample_append 2 (-1) (-1) [entry 8 2] (-1)) = Inl e"
  using AppendEntries_panics_iff [of "sample_peer 0 1 (-1) Follower [entry 5 1]"
      "sample_append 2 (-1) (-1) [entry 8 2] (-1)"]
  by (simp add: head_conflict_def sample_append_def entry_def)







text \<open>
  \<^verbatim>\<open>Start\<close> on a leader appends one entry of the current term, returns its index and the entry
  survives a crash; on any other peer it changes nothing and says so.
\<close>

lemma Start_spec:
  "case Start rf c of (rf', index, term, isLeader) \<Rightarrow>
     term = currentTerm rf \<and> (isLeader \<longleftrightarrow> state rf = Leader) \<and>
     (if isLeader
      then log rf' = log rf @ [\<lparr>Command = c, Term = currentTerm rf\<rparr>] \<and>
        index = int (length (log rf)) \<and> log (Make n i (Copy (persister rf'))) = log rf'
      else rf' = rf \<and> index = -1)"
  by (simp add: Start_def Let_def Make_persisted raft_store.load_dup blank_raft_def)

end
