(* ===== verification/LeaderLog.thy ===== *)
theory LeaderLog
  imports Replication
begin

text \<open>
  Facts about the leader's side of replication, \<^verbatim>\<open>startAppendEntries\<close> of
  \<^verbatim>\<open>Task5/raft/raft.go\<close>: which index the sorted copy of \<^verbatim>\<open>matchIndex\<close> selects, when the
  commit index may advance, and how \<^verbatim>\<open>nextIndex\<close> backs up after a refused request.
\<close>

section \<open>The median of matchIndex\<close>

lemma sorted_count_ge:
  fixes xs :: "int list"
  assumes "sorted xs" and "k < length xs"
  shows "length xs - k \<le> length (filter (\<lambda>x. xs ! k \<le> x) xs)"
proof -
  have "\<forall>x \<in> set (drop k xs). xs ! k \<le> x"
    using assms by (auto simp: in_set_conv_nth sorted_iff_nth_mono)
  then have "filter (\<lambda>x. xs ! k \<le> x) (drop k xs) = drop k xs"
    by simp
  moreover have "length (filter (\<lambda>x. xs ! k \<le> x) xs) =
      length (filter (\<lambda>x. xs ! k \<le> x) (take k xs)) + length (filter (\<lambda>x. xs ! k \<le> x) (drop k xs))"
    by (metis append_take_drop_id filter_append length_append)
  ultimately show ?thesis by simp
qed

lemma sort_count_ge:
  fixes xs :: "int list"
  assumes "k < length xs"
  shows "length xs - k \<le> card {i. i < length xs \<and> sort xs ! k \<le> xs ! i}"
proof -
  have "length (filter P (sort xs)) = length (filter P xs)" for P
    by (metis mset_filter mset_sort size_mset)
  then show ?thesis
    using sorted_count_ge [of "sort xs" k] assms by (simp add: length_filter_conv_card)
qed

text \<open>The lengths and bounds of a leader's bookkeeping.\<close>

definition leader_wf :: "'c raft \<Rightarrow> bool" where
  "leader_wf rf \<longleftrightarrow> me rf < peers rf \<and> length (matchIndex rf) = peers rf \<and>
     length (nextIndex rf) = peers rf \<and>
     (\<forall>m \<in> set (matchIndex rf). m < int (length (log rf))) \<and>
     -1 \<le> committedIndex rf \<and> -1 \<le> lastApplied rf"

text \<open>The peers known to hold the entry at an index: the leader, and those whose match index says so.\<close>

definition holders :: "'c raft \<Rightarrow> int \<Rightarrow> nat set" where
  "holders rf N = {j. j < peers rf \<and> (j = me rf \<or> N \<le> matchIndex rf ! j)}"

lemma commit_candidate_eq:
  assumes "me rf < peers rf" and "length (matchIndex rf) = peers rf"
  shows "commit_candidate rf =
    Inr (sort ((matchIndex rf)[me rf := int (length (log rf))]) ! (peers rf div 2))"
  using assms by (simp add: commit_candidate_def)

lemma commit_candidate_count:
  assumes "me rf < peers rf" and "length (matchIndex rf) = peers rf" and "commit_candidate rf = Inr N"
  shows "peers rf - peers rf div 2 \<le>
    card {i. i < peers rf \<and> N \<le> (matchIndex rf)[me rf := int (length (log rf))] ! i}"
  using sort_count_ge [of "peers rf div 2" "(matchIndex rf)[me rf := int (length (log rf))]"] assms
  by (simp add: commit_candidate_eq)

lemma commit_candidate_holders:
  assumes "me rf < peers rf" and "length (matchIndex rf) = peers rf" and "commit_candidate rf = Inr N"
  shows "peers rf - peers rf div 2 \<le> card (holders rf N)"
proof -
  have "card {i. i < peers rf \<and> N \<le> (matchIndex rf)[me rf := int (length (log rf))] ! i}
      \<le> card (holders rf N)"
    using assms by (intro card_mono) (auto simp: holders_def nth_list_update split: if_splits)
  with commit_candidate_count [OF assms] show ?thesis by simp
qed

lemma commit_candidate_majority:
  assumes "me rf < peers rf" and "length (matchIndex rf) = peers rf" and "commit_candidate rf = Inr N"
    and "odd (peers rf)"
  shows "majority (peers rf) (holders rf N)"
proof -
  have "peers rf < 2 * (peers rf - peers rf div 2)"
    using assms(4) by presburger
  with commit_candidate_holders [OF assms(1-3)] show ?thesis
    by (auto simp: majority_def holders_def)
qed

lemma commit_candidate_lt:
  assumes "leader_wf rf" and "commit_candidate rf = Inr N" and "3 \<le> peers rf"
  shows "N < int (length (log rf))"
proof (rule ccontr)
  assume contra: "\<not> ?thesis"
  have "matchIndex rf ! i < int (length (log rf))" if "i < peers rf" for i
    using assms(1) that by (auto simp: leader_wf_def)
  then have "i = me rf" if "i < peers rf" "N \<le> (matchIndex rf)[me rf := int (length (log rf))] ! i" for i
    using that contra by (cases "i = me rf") force+
  then have "{i. i < peers rf \<and> N \<le> (matchIndex rf)[me rf := int (length (log rf))] ! i} \<subseteq> {me rf}"
    by blast
  then have "card {i. i < peers rf \<and> N \<le> (matchIndex rf)[me rf := int (length (log rf))] ! i} \<le> 1"
    using card_mono [of "{me rf}"] by fastforce
  with commit_candidate_count [of rf N] assms show False
    by (auto simp: leader_wf_def)
qed

lemma advance_commit_ok:
  assumes "leader_wf rf" and "3 \<le> peers rf"
  obtains N where "commit_candidate rf = Inr N"
    and "advance_commit rf = startApplyLogs
      (if committedIndex rf < N \<and> Term (log rf ! nat N) = currentTerm rf
       then rf\<lparr>committedIndex := N\<rparr> else rf)"
proof -
  obtain N where N: "commit_candidate rf = Inr N"
    using assms(1) by (simp add: leader_wf_def commit_candidate_eq)
  have "N < int (length (log rf))"
    by (rule commit_candidate_lt [OF assms(1) N assms(2)])
  then have "advance_commit rf = startApplyLogs
      (if committedIndex rf < N \<and> Term (log rf ! nat N) = currentTerm rf
       then rf\<lparr>committedIndex := N\<rparr> else rf)"
    using assms(1) N by (auto simp: advance_commit_def go_index_def leader_wf_def)
  with N that show ?thesis by blast
qed

lemma advance_commit_total:
  assumes "leader_wf rf" and "3 \<le> peers rf"
  shows "\<exists>rf'. advance_commit rf = Inr rf'"
proof -
  obtain N where "advance_commit rf = startApplyLogs
      (if committedIndex rf < N \<and> Term (log rf ! nat N) = currentTerm rf
       then rf\<lparr>committedIndex := N\<rparr> else rf)"
    by (rule advance_commit_ok [OF assms])
  then show ?thesis
    using assms(1) by (simp add: startApplyLogs_eq leader_wf_def)
qed

lemma handleAppendReply_success:
  assumes "leader_wf L" and "3 \<le> peers L" and "state L = Leader" and "j < peers L"
    and "Success reply" and "aer_Term reply \<le> currentTerm L" and "ae_Term args = currentTerm L"
    and "PrevLogIndex args + int (length (Entries args)) < int (length (log L))"
  shows "\<exists>L'. handleAppendReply L j args reply = Inr (L', False) \<and>
    matchIndex L' = (matchIndex L)[j := PrevLogIndex args + int (length (Entries args))] \<and>
    nextIndex L' = (nextIndex L)[j := PrevLogIndex args + int (length (Entries args)) + 1] \<and>
    log L' = log L \<and> currentTerm L' = currentTerm L \<and> state L' = Leader"
proof -
  define m where "m = PrevLogIndex args + int (length (Entries args))"
  define L1 where "L1 = L\<lparr>matchIndex := (matchIndex L)[j := m], nextIndex := (nextIndex L)[j := m + 1]\<rparr>"
  have wf1: "leader_wf L1" "3 \<le> peers L1"
    using assms(1,2,8) set_update_subset_insert [of "matchIndex L" j m]
    by (auto simp: leader_wf_def L1_def m_def)
  obtain N where N: "advance_commit L1 = startApplyLogs
      (if committedIndex L1 < N \<and> Term (log L1 ! nat N) = currentTerm L1
       then L1\<lparr>committedIndex := N\<rparr> else L1)"
    by (rule advance_commit_ok [OF wf1])
  have "L1 = L1\<lparr>committedIndex := committedIndex L1\<rparr>" by simp
  then obtain c where c: "advance_commit L1 = startApplyLogs (L1\<lparr>committedIndex := c\<rparr>)"
    using N by (metis (full_types))
  have "-1 \<le> lastApplied (L1\<lparr>committedIndex := c\<rparr>)" using wf1 by (simp add: leader_wf_def)
  from startApplyLogs_eq [OF this] c show ?thesis
    using assms by (simp add: handleAppendReply_def leader_wf_def m_def [symmetric] L1_def)
qed

section \<open>Backing up\<close>

lemma first_of_term_le:
  "q < length lg \<Longrightarrow> Term (lg ! q) = t \<Longrightarrow>
   i \<le> first_of_term t i lg \<and> first_of_term t i lg \<le> i + int q"
proof (induction lg arbitrary: i q)
  case Nil
  then show ?case by simp
next
  case (Cons e lg)
  show ?case
  proof (cases q)
    case 0
    with Cons.prems show ?thesis by simp
  next
    case (Suc m)
    with Cons.prems Cons.IH [of m "i + 1"] show ?thesis by auto
  qed
qed

lemma backup_scan_None: "backup_scan ct ci has i lg = None \<longleftrightarrow> (\<forall>e \<in> set lg. Term e \<le> ct)"
  by (induction lg arbitrary: has i) (auto simp: Let_def)

lemma backup_scan_le:
  "backup_scan ct ci has i lg = Some n \<Longrightarrow> q < length lg \<Longrightarrow> ct < Term (lg ! q) \<Longrightarrow>
   n = ci \<or> n \<le> i + int q"
proof (induction lg arbitrary: has i q)
  case Nil
  then show ?case by simp
next
  case (Cons e lg)
  show ?case
  proof (cases "Term e > ct")
    case True
    with Cons.prems show ?thesis by (auto simp: Let_def split: if_splits)
  next
    case False
    with Cons.prems obtain m where q: "q = Suc m" by (cases q) auto
    have "n = ci \<or> n \<le> (i + 1) + int m"
      using Cons.IH [of "has \<or> Term e = ct" "i + 1" m] Cons.prems False q by (simp add: Let_def)
    with q show ?thesis by (simp add: algebra_simps)
  qed
qed

text \<open>No entry of the conflicting term before the decision: the follower's hint is taken.\<close>

lemma backup_scan_hint:
  "backup_scan ct ci False i lg = Some n \<Longrightarrow> \<forall>e \<in> set lg. Term e \<noteq> ct \<Longrightarrow> n = ci"
  by (induction lg arbitrary: i) (auto simp: Let_def split: if_splits)

section \<open>Catching up\<close>

text \<open>
  What makes the exchange between a leader and one follower settle. The last three conditions are
  properties of Raft's logs: the leader holds an entry newer than any of the follower's, entries of
  one term found at two places mean that the logs agree below them (log matching), and the first
  entries agree.
\<close>

definition agree_below :: "'c LogEntry list \<Rightarrow> 'c LogEntry list \<Rightarrow> bool" where
  "agree_below F L \<longleftrightarrow>
     (\<forall>p q. p < q \<and> p < length F \<and> q < length L \<and> Term (F ! p) = Term (L ! q) \<longrightarrow>
        Term (L ! p) = Term (F ! p))"

definition can_catch_up :: "'c raft \<Rightarrow> nat \<Rightarrow> 'c raft \<Rightarrow> bool" where
  "can_catch_up L j F \<longleftrightarrow>
     state L = Leader \<and> leader_wf L \<and> 3 \<le> peers L \<and> j < peers L \<and>
     0 \<le> nextIndex L ! j \<and> nextIndex L ! j \<le> int (length (log L)) \<and>
     currentTerm F \<le> currentTerm L \<and> -1 \<le> lastApplied F \<and>
     sorted (map Term (log L)) \<and> (\<forall>e \<in> set (log L). 0 \<le> Term e) \<and>
     (\<forall>e \<in> set (log F). \<exists>x \<in> set (log L). Term e < Term x) \<and>
     agree_below (log F) (log L) \<and>
     (log F \<noteq> [] \<and> log L \<noteq> [] \<longrightarrow> Term (log F ! 0) = Term (log L ! 0))"

lemma catch_up_args:
  assumes "can_catch_up L j F"
  shows "appendEntries_args L j = Inr (Some \<lparr>ae_Term = currentTerm L, LeaderID = int (me L),
    PrevLogIndex = nextIndex L ! j - 1,
    PrevLogTerm = (if nextIndex L ! j = 0 then -1 else Term (log L ! nat (nextIndex L ! j - 1))),
    Entries = drop (nat (nextIndex L ! j)) (log L), LeaderCommit = committedIndex L\<rparr>)"
  using assms
  by (auto simp: appendEntries_args_def can_catch_up_def leader_wf_def go_simps go_slice_from_def
      Let_def)

text \<open>A follower whose log is too short: the hint is the end of its log.\<close>

lemma backup_short:
  assumes "can_catch_up L j F" and "log L \<noteq> []"
  shows "backup_scan (-1) ci False 0 (log L) = Some ci"
proof -
  have "0 \<le> Term e" if "e \<in> set (log L)" for e
    using assms(1) that by (auto simp: can_catch_up_def)
  then have no: "\<forall>e \<in> set (log L). Term e \<noteq> -1" and "\<exists>e \<in> set (log L). \<not> Term e \<le> -1"
    using hd_in_set [OF assms(2)] by force+
  then obtain n where n: "backup_scan (-1) ci False 0 (log L) = Some n"
    by (metis backup_scan_None option.exhaust)
  with no show ?thesis using backup_scan_hint by blast
qed

text \<open>
  The follower's entry is newer than the leader's at the same place: the leader has no entry of
  that term at all.
\<close>

lemma conflict_term_absent:
  assumes cu: "can_catch_up L j F"
    and p: "p < length (log F)" "p < length (log L)" "Term (log L ! p) < Term (log F ! p)"
  shows "\<forall>e \<in> set (log L). Term e \<noteq> Term (log F ! p)"
proof -
  have "Term (log L ! q) \<noteq> Term (log F ! p)" if q: "q < length (log L)" for q
  proof
    assume eq: "Term (log L ! q) = Term (log F ! p)"
    have "p < q"
    proof (rule ccontr)
      assume "\<not> ?thesis"
      then have "Term (log L ! q) \<le> Term (log L ! p)"
        using cu p(2) by (auto simp: can_catch_up_def sorted_map sorted_iff_nth_mono)
      with eq p(3) show False by simp
    qed
    then have "Term (log L ! p) = Term (log F ! p)"
      using cu p(1) q eq unfolding can_catch_up_def agree_below_def by metis
    with p(3) show False by simp
  qed
  then show ?thesis by (metis in_set_conv_nth)
qed

lemma backup_differs:
  assumes cu: "can_catch_up L j F"
    and p: "p < length (log F)" "p < length (log L)" "Term (log F ! p) \<noteq> Term (log L ! p)"
    and ci: "ci = first_of_term (Term (log F ! p)) 0 (log F)"
  shows "\<exists>n. backup_scan (Term (log F ! p)) ci False 0 (log L) = Some n \<and> n \<le> int p"
proof -
  let ?ct = "Term (log F ! p)"
  have ci_le: "ci \<le> int p" using first_of_term_le [OF p(1) refl, of 0] ci by simp
  have "log F ! p \<in> set (log F)" using p(1) by simp
  then have "\<not> (\<forall>e \<in> set (log L). Term e \<le> ?ct)"
    using cu unfolding can_catch_up_def by force
  then obtain n where n: "backup_scan ?ct ci False 0 (log L) = Some n"
    by (metis backup_scan_None option.exhaust)
  show ?thesis
  proof (cases "?ct < Term (log L ! p)")
    case True
    from backup_scan_le [OF n p(2) True] n ci_le show ?thesis by auto
  next
    case False
    with p(3) have "\<forall>e \<in> set (log L). Term e \<noteq> ?ct"
      by (intro conflict_term_absent [OF cu p(1,2)]) simp
    with n have "n = ci" by (rule backup_scan_hint)
    with n ci_le show ?thesis by simp
  qed
qed

lemma backup_progress:
  assumes cu: "can_catch_up L j F" and args: "appendEntries_args L j = Inr (Some args)"
    and ref: "ae_check (ae_adopt F args) args = Inr (False, ConflictIndex reply, ConflictTerm reply)"
  shows "0 \<le> backup_next L (nextIndex L ! j) reply \<and>
    backup_next L (nextIndex L ! j) reply < nextIndex L ! j"
proof -
  let ?next = "nextIndex L ! j"
  have prev: "PrevLogIndex args = ?next - 1"
    "PrevLogTerm args = (if ?next = 0 then -1 else Term (log L ! nat (?next - 1)))"
    and t: "currentTerm (ae_adopt F args) \<le> ae_Term args"
    using catch_up_args [OF cu] args cu by (auto simp: can_catch_up_def)
  have le: "?next \<le> int (length (log L))" using cu by (simp add: can_catch_up_def)
  from ae_check_refused [OF ref t] show ?thesis
  proof (elim disjE conjE)
    assume "int (length (log (ae_adopt F args))) \<le> PrevLogIndex args"
      and "ConflictIndex reply = int (length (log (ae_adopt F args))) - 1" "ConflictTerm reply = -1"
    moreover from this le have "log L \<noteq> []" by (auto simp: prev)
    ultimately show ?thesis
      using backup_short [OF cu, of "ConflictIndex reply"] by (auto simp: backup_next_def prev Let_def)
  next
    assume *: "0 \<le> PrevLogIndex args" "PrevLogIndex args < int (length (log (ae_adopt F args)))"
      "ConflictTerm reply = Term (log (ae_adopt F args) ! nat (PrevLogIndex args))"
      "ConflictTerm reply \<noteq> PrevLogTerm args"
      "ConflictIndex reply = first_of_term (ConflictTerm reply) 0 (log (ae_adopt F args))"
    then have "\<exists>n. backup_scan (ConflictTerm reply) (ConflictIndex reply) False 0 (log L) = Some n \<and>
        n \<le> int (nat (?next - 1))"
      using le backup_differs [OF cu, of "nat (?next - 1)" "ConflictIndex reply"] by (auto simp: prev)
    with *(1) show ?thesis by (auto simp: backup_next_def prev Let_def)
  qed
qed

lemma catch_up_check:
  assumes cu: "can_catch_up L j F" and args: "appendEntries_args L j = Inr (Some args)"
  shows "\<exists>ok ci ct. ae_check (ae_adopt F args) args = Inr (ok, ci, ct)"
proof -
  have "PrevLogIndex args = nextIndex L ! j - 1" "0 \<le> nextIndex L ! j"
    using catch_up_args [OF cu] args cu by (auto simp: can_catch_up_def)
  then show ?thesis by (auto simp: ae_check_def go_index_def Let_def)
qed

text \<open>A round that ends with an accepted request.\<close>

lemma catch_up_accept:
  assumes cu: "can_catch_up L j F" and args: "appendEntries_args L j = Inr (Some args)"
    and acc: "ae_accepts F args"
  shows "\<exists>F' reply L'. AppendEntries F args = Inr (F', reply) \<and>
    handleAppendReply L j args reply = Inr (L', False)"
proof -
  have flds: "PrevLogIndex args = nextIndex L ! j - 1" "ae_Term args = currentTerm L"
    "Entries args = drop (nat (nextIndex L ! j)) (log L)"
    using catch_up_args [OF cu] args by auto
  have wf: "leader_wf L" "state L = Leader" "3 \<le> peers L" "j < peers L" "-1 \<le> lastApplied F"
    "0 \<le> nextIndex L ! j" "nextIndex L ! j \<le> int (length (log L))"
    using cu by (auto simp: can_catch_up_def)
  have "log F \<noteq> [] \<and> log L \<noteq> [] \<longrightarrow> Term (log F ! 0) = Term (log L ! 0)"
    using cu by (simp add: can_catch_up_def)
  then have "\<not> (nat (nextIndex L ! j) = 0 \<and> head_conflict 0 (Entries args) (log F))"
    by (auto simp: head_conflict_def flds hd_conv_nth)
  then obtain lg where lg: "ae_log (PrevLogIndex args) (Entries args) (log F) = Inr lg"
    using ae_log_eq [OF ae_log_accepts(1) [OF acc], of "Entries args"] ae_log_accepts(2) [OF acc]
    by (auto simp: flds split: if_splits)
  let ?reply = "\<lparr>aer_Term = ae_Term args, Success = True, ConflictIndex = 0, ConflictTerm = 0\<rparr>"
  have AE: "AppendEntries F args = Inr (ae_accepted F args lg, ?reply)"
    by (simp add: AppendEntries_accept_eq [OF acc wf(5)] lg)
  have "\<exists>L'. handleAppendReply L j args ?reply = Inr (L', False)"
    using handleAppendReply_success [OF wf(1,3,2,4), of ?reply args] wf by (auto simp: flds)
  with AE show ?thesis by blast
qed

text \<open>A round that ends with a refused one backs up and leaves the conditions as they were.\<close>

lemma catch_up_refuse:
  assumes cu: "can_catch_up L j F" and args: "appendEntries_args L j = Inr (Some args)"
    and ref: "ae_check (ae_adopt F args) args = Inr (False, ci, ct)"
  shows "\<exists>F' reply L'. AppendEntries F args = Inr (F', reply) \<and>
    handleAppendReply L j args reply = Inr (L', True) \<and> can_catch_up L' j F' \<and>
    nextIndex L' ! j < nextIndex L ! j"
proof -
  let ?F' = "(persist (ae_adopt F args))\<lparr>heartBeatCh := chan_signal (heartBeatCh F)\<rparr>"
  let ?reply = "\<lparr>aer_Term = max (currentTerm F) (ae_Term args), Success = False,
    ConflictIndex = ci, ConflictTerm = ct\<rparr>"
  let ?n = "backup_next L (nextIndex L ! j) ?reply"
  let ?L' = "L\<lparr>nextIndex := (nextIndex L)[j := ?n]\<rparr>"
  have t: "ae_Term args = currentTerm L" using catch_up_args [OF cu] args by auto
  have wf: "leader_wf L" "state L = Leader" "j < peers L" "currentTerm F \<le> currentTerm L"
    "nextIndex L ! j \<le> int (length (log L))"
    using cu by (simp_all add: can_catch_up_def)
  have n: "0 \<le> ?n" "?n < nextIndex L ! j"
    using backup_progress [OF cu args, of ?reply] ref by auto
  have AE: "AppendEntries F args = Inr (?F', ?reply)"
    by (simp add: AppendEntries_refuse_eq [OF ref])
  have HR: "handleAppendReply L j args ?reply = Inr (?L', True)"
    using wf by (simp add: handleAppendReply_def t leader_wf_def)
  have "can_catch_up ?L' j ?F'"
    using cu n wf t unfolding can_catch_up_def leader_wf_def by simp
  moreover have "nextIndex ?L' ! j < nextIndex L ! j"
    using n wf(1,3) by (simp add: leader_wf_def)
  ultimately show ?thesis using AE HR by blast
qed

lemma appendEntries_loop_ends:
  "can_catch_up L j F \<Longrightarrow> nat (nextIndex L ! j) < fuel \<Longrightarrow>
   \<exists>L' F'. appendEntries_loop fuel L j F = Inr (Some (L', F'))"
proof (induction fuel arbitrary: L F)
  case 0
  then show ?case by simp
next
  case (Suc fuel)
  obtain args where args: "appendEntries_args L j = Inr (Some args)"
    using catch_up_args [OF Suc.prems(1)] by blast
  show ?case
  proof (cases "ae_accepts F args")
    case True
    then obtain F' reply L' where "AppendEntries F args = Inr (F', reply)"
      "handleAppendReply L j args reply = Inr (L', False)"
      using catch_up_accept [OF Suc.prems(1) args] by blast
    then have "appendEntries_loop (Suc fuel) L j F = Inr (Some (L', F'))"
      by (simp add: args del: bind_go_eq_Inr)
    then show ?thesis by blast
  next
    case False
    obtain ci ct where "ae_check (ae_adopt F args) args = Inr (False, ci, ct)"
      using catch_up_check [OF Suc.prems(1) args] ae_check_accepts False by (metis (full_types))
    from catch_up_refuse [OF Suc.prems(1) args this]
    obtain F' reply L' where round: "AppendEntries F args = Inr (F', reply)"
      "handleAppendReply L j args reply = Inr (L', True)" and cu': "can_catch_up L' j F'"
      and less: "nextIndex L' ! j < nextIndex L ! j"
      by blast
    have "0 \<le> nextIndex L' ! j" using cu' by (simp add: can_catch_up_def)
    with less Suc.prems(2) have "nat (nextIndex L' ! j) < fuel" by linarith
    moreover have "appendEntries_loop (Suc fuel) L j F = appendEntries_loop fuel L' j F'"
      by (simp add: args round del: bind_go_eq_Inr)
    ultimately show ?thesis using Suc.IH [OF cu'] by simp
  qed
qed

section \<open>A sender that never ends\<close>

lemma backup_stays:
  assumes "\<forall>e \<in> set (log L). Term e \<le> ConflictTerm reply" and "0 \<le> k"
  shows "backup_next L k reply = k"
  using assms backup_scan_None [of "ConflictTerm reply" "ConflictIndex reply" False 0 "log L"]
  by (simp add: backup_next_def)

definition stuck :: "'c raft \<Rightarrow> nat \<Rightarrow> 'c raft \<Rightarrow> bool" where
  "stuck L j F \<longleftrightarrow> state L = Leader \<and> j < length (nextIndex L) \<and>
     1 \<le> nextIndex L ! j \<and> nextIndex L ! j \<le> int (length (log L)) \<and>
     nextIndex L ! j \<le> int (length (log F)) \<and> currentTerm F \<le> currentTerm L \<and>
     (\<forall>e \<in> set (log L). Term e < Term (log F ! nat (nextIndex L ! j - 1)))"

lemma stuck_round:
  assumes "stuck L j F"
  shows "\<exists>args F' reply. appendEntries_args L j = Inr (Some args) \<and>
    AppendEntries F args = Inr (F', reply) \<and> handleAppendReply L j args reply = Inr (L, True) \<and>
    stuck L j F'"
proof -
  define k where "k = nat (nextIndex L ! j - 1)"
  have nx: "nextIndex L ! j = int k + 1" using assms by (simp add: k_def stuck_def)
  have k: "k < length (log L)" "k < length (log F)" "state L = Leader" "j < length (nextIndex L)"
    "currentTerm F \<le> currentTerm L" "\<forall>e \<in> set (log L). Term e < Term (log F ! k)"
    using assms by (auto simp: stuck_def nx)
  obtain args where args: "appendEntries_args L j = Inr (Some args)" "ae_Term args = currentTerm L"
    "PrevLogIndex args = int k" "PrevLogTerm args = Term (log L ! k)"
    using k by (simp add: appendEntries_args_def go_simps nx go_slice_from_def Let_def)
  have "Term (log F ! k) \<noteq> Term (log L ! k)" using k by (metis nth_mem less_irrefl)
  then have chk: "ae_check (ae_adopt F args) args =
      Inr (False, first_of_term (Term (log F ! k)) 0 (log F), Term (log F ! k))"
    using k args by (simp add: ae_check_def Let_def)
  let ?reply = "\<lparr>aer_Term = max (currentTerm F) (ae_Term args), Success = False,
    ConflictIndex = first_of_term (Term (log F ! k)) 0 (log F), ConflictTerm = Term (log F ! k)\<rparr>"
  let ?F = "(persist (ae_adopt F args))\<lparr>heartBeatCh := chan_signal (heartBeatCh F)\<rparr>"
  have "backup_next L (nextIndex L ! j) ?reply = nextIndex L ! j"
    using k by (intro backup_stays) (auto simp: nx intro: less_imp_le)
  then have "handleAppendReply L j args ?reply = Inr (L, True)"
    using k args by (simp add: handleAppendReply_def)
  moreover have "stuck L j ?F" using assms args by (simp add: stuck_def)
  ultimately show ?thesis using args(1) AppendEntries_refuse_eq [OF chk] by blast
qed

section \<open>Properties\<close>

text \<open>Sample data for the examples.\<close>

definition sample_leader :: "nat \<Rightarrow> int \<Rightarrow> int list \<Rightarrow> nat LogEntry list \<Rightarrow> nat raft" where
  "sample_leader n t mi lg =
     (Make n 0 MakePersister)\<lparr>currentTerm := t, state := Leader, log := lg,
        matchIndex := mi, nextIndex := map (\<lambda>m. m + 1) mi\<rparr>"

definition sample_round :: "nat AppendEntriesArgs" where
  "sample_round = \<lparr>ae_Term = 2, LeaderID = 0, PrevLogIndex = 0, PrevLogTerm = 1,
     Entries = [entry 6 2], LeaderCommit = -1\<rparr>"





text \<open>
  In a cluster of four the rule commits without a majority: with two copies of an entry, the
  leader's own and one more, the commit index moves to it.
\<close>

lemma commit_without_majority:
  "\<exists>rf'. advance_commit (sample_leader 4 1 [-1, 0, -1, -1] [entry 5 1]) = Inr rf' \<and>
     committedIndex rf' = 0 \<and>
     \<not> majority 4 (holders (sample_leader 4 1 [-1, 0, -1, -1] [entry 5 1]) 0)"
proof -
  have "{j. j < 4 \<and> (j = 0 \<or> (0::int) \<le> [-1, 0, -1, -1] ! j)} \<subseteq> {0, 1::nat}"
    by (auto simp: less_Suc_eq numeral_eq_Suc)
  from card_mono [OF _ this] show ?thesis
    by (auto simp: advance_commit_def commit_candidate_def sample_leader_def go_update_def go_index_def
        startApplyLogs_eq holders_def majority_def entry_def)
qed

text \<open>
  C36: in a cluster of two the leader panics on every successful reply while its log extends past
  the commit index: the median it picks is the length of the log, one past the last entry.
\<close>

theorem two_peers_panic:
  assumes "peers rf = 2" and "me rf < 2" and "length (matchIndex rf) = 2"
    and "\<forall>m \<in> set (matchIndex rf). m < int (length (log rf))"
    and "committedIndex rf < int (length (log rf))"
  shows "advance_commit rf = Inl IndexOutOfRange"
proof -
  obtain a b where mi: "matchIndex rf = [a, b]"
    using assms(3) by (auto simp: length_Suc_conv numeral_2_eq_2)
  have "commit_candidate rf = Inr (int (length (log rf)))"
    using assms(1,2,4) by (subst commit_candidate_eq) (auto simp: mi less_2_cases_iff)
  with assms(5) show ?thesis by (simp add: advance_commit_def go_index_def)
qed

theorem two_peers_panic_witness:
  "advance_commit (sample_leader 2 1 [-1, 0] [entry 5 1]) = Inl IndexOutOfRange"
  using two_peers_panic [of "sample_leader 2 1 [-1, 0] [entry 5 1]"]
  by (simp add: sample_leader_def)




text \<open>
  C40: without an entry newer than the follower's the sender never gets anywhere. If the follower's
  entry at the previous index is of a later term than all of the leader's entries, every request is
  refused and \<^verbatim>\<open>nextIndex\<close> stays: the loop is still going after any number of requests.
\<close>

theorem backup_livelock:
  assumes "stuck L j F"
  shows "appendEntries_loop fuel L j F = Inr None"
  using assms
proof (induction fuel arbitrary: F)
  case (Suc fuel)
  then obtain args F' reply where "appendEntries_args L j = Inr (Some args)"
    "AppendEntries F args = Inr (F', reply)" "handleAppendReply L j args reply = Inr (L, True)"
    "stuck L j F'"
    using stuck_round by blast
  then show ?case using Suc.IH by (simp del: bind_go_eq_Inr)
qed simp

theorem backup_livelock_witness:
  "appendEntries_loop 1000 (sample_leader 3 4 [-1, 0, -1] [entry 5 1]) 1
     (sample_peer 1 3 (-1) Follower [entry 7 3]) = Inr None"
  using backup_livelock [of "sample_leader 3 4 [-1, 0, -1] [entry 5 1]" 1
      "sample_peer 1 3 (-1) Follower [entry 7 3]" 1000]
  by (simp add: stuck_def sample_leader_def entry_def)

end
