(* ===== verification/HeartBeat.thy ===== *)
theory HeartBeat
  imports LeaderLog
begin

text \<open>
  The main loop of a peer, \<^verbatim>\<open>heartBeat\<close> of \<^verbatim>\<open>Task5/raft/raft.go\<close>, as a state machine: where
  the goroutine is (\<open>hb_pc\<close>) and one definition per stretch of code between two points where it
  blocks. A \<^verbatim>\<open>select\<close> takes one of its cases; a case that receives from a channel is possible only
  when a goroutine waits to send on it, the timer's case is possible at any time.
\<close>

datatype hb_pc = HTop | HFollower | HCandidate | HLeader | HExit

datatype signal = SigGrantVote | SigHeartBeat | SigLeader | SigTimer

text \<open>The top of the loop up to the \<^verbatim>\<open>switch\<close>.\<close>

definition heartBeat_top :: "'c raft \<Rightarrow> 'c raft \<times> hb_pc" where
  "heartBeat_top rf =
     (if killed rf then (rf, HExit)
      else let st = state rf; rf = persist rf
           in (rf, case st of Leader \<Rightarrow> HLeader | Candidate \<Rightarrow> HCandidate | Follower \<Rightarrow> HFollower))"

text \<open>The \<^verbatim>\<open>select\<close> of a candidate; \<open>None\<close>: the case is not ready or not in the \<^verbatim>\<open>select\<close>.\<close>

fun heartBeat_candidate :: "'c raft \<Rightarrow> signal \<Rightarrow> 'c raft option" where
  "heartBeat_candidate rf SigHeartBeat =
     (if heartBeatCh rf = 0 then None
      else let rf = rf\<lparr>heartBeatCh := heartBeatCh rf - 1\<rparr>
           in Some (convertToFollower rf (currentTerm rf) (-1)))"
| "heartBeat_candidate rf SigLeader =
     (if leaderCh rf = 0 then None else Some (rf\<lparr>leaderCh := leaderCh rf - 1\<rparr>))"
| "heartBeat_candidate rf SigTimer =
     Some (if state rf = Follower then rf
           else if voteNotGranted rf * 2 < int (peers rf) then convertToCandidate rf
           else convertToFollower rf (currentTerm rf) (-1))"
| "heartBeat_candidate rf SigGrantVote = None"

text \<open>The \<^verbatim>\<open>select\<close> of a follower.\<close>

fun heartBeat_follower :: "'c raft \<Rightarrow> signal \<Rightarrow> 'c raft option" where
  "heartBeat_follower rf SigGrantVote =
     (if grantVoteCh rf = 0 then None else Some (rf\<lparr>grantVoteCh := grantVoteCh rf - 1\<rparr>))"
| "heartBeat_follower rf SigHeartBeat =
     (if heartBeatCh rf = 0 then None else Some (rf\<lparr>heartBeatCh := heartBeatCh rf - 1\<rparr>))"
| "heartBeat_follower rf SigTimer = Some (convertToCandidate rf)"
| "heartBeat_follower rf SigLeader = None"

text \<open>
  One round of the outer loop of \<^verbatim>\<open>startAppendEntries\<close>: the peers to send to, or \<open>None\<close> when the
  peer is killed or no longer leader and the function returns.
\<close>

definition startAppendEntries_round :: "'c raft \<Rightarrow> nat list option" where
  "startAppendEntries_round rf =
     (if killed rf then None
      else if state rf \<noteq> Leader then None
      else Some (filter (\<lambda>j. j \<noteq> me rf) [0..<peers rf]))"

fun_cases heartBeat_candidate_SomeE: "heartBeat_candidate rf sg = Some rf'"
fun_cases heartBeat_follower_SomeE: "heartBeat_follower rf sg = Some rf'"

end
