(* ===== verification/Cluster.thy ===== *)
theory Cluster
  imports HeartBeat
begin

text \<open>
  Several Raft peers over a network that loses, delays and reorders messages, and restarts of
  peers: the composition of the definitions of the other theories, the way
  \<^verbatim>\<open>Task5/raft/raft.go\<close> composes them with goroutines and RPCs.

  The state holds the peers, where each peer's main loop is, the RPCs under way, the goroutines
  that are started and have not run yet, and for each run of \<^verbatim>\<open>startRequestVote\<close> the variables its
  goroutines share. An event runs one piece of code to the next point where it blocks; which one is
  next is not determined. The transport is what \<^verbatim>\<open>Call\<close> of \<^verbatim>\<open>labrpc\<close> promises: a call is handled
  at most once, and either its reply arrives or the call fails (\<open>EvLose\<close>).
\<close>

section \<open>State\<close>

datatype 'c rpc =
    VoteReq nat nat nat RequestVoteArgs
  | VoteRep nat nat nat RequestVoteReply
  | AppReq nat nat "'c AppendEntriesArgs"
  | AppRep nat nat "'c AppendEntriesArgs" AppendEntriesReply

datatype task = StartVote nat | SendAppend nat nat

record vote_round =
  round_owner :: nat
  round_args :: RequestVoteArgs
  round_nLeader :: nat

record 'c cluster =
  nodes :: "'c raft list"
  hbs :: "hb_pc list"
  rpcs :: "'c rpc list"
  tasks :: "task list"
  rounds :: "vote_round list"

definition init_cluster :: "nat \<Rightarrow> 'c cluster" where
  "init_cluster n = \<lparr>nodes = map (\<lambda>i. Make n i MakePersister) [0..<n], hbs = replicate n HTop,
     rpcs = [], tasks = [], rounds = []\<rparr>"

section \<open>Events\<close>

datatype 'c event =
    EvStart nat "'c iface"
  | EvHeartBeat nat
  | EvSelect nat signal
  | EvLeaderRound nat
  | EvTask nat
  | EvDeliver nat
  | EvLose nat
  | EvRestart nat

definition remove_at :: "nat \<Rightarrow> 'a list \<Rightarrow> 'a list" where
  "remove_at k xs = take k xs @ drop (Suc k) xs"

definition set_node :: "'c cluster \<Rightarrow> nat \<Rightarrow> 'c raft \<Rightarrow> 'c cluster" where
  "set_node C i rf = C\<lparr>nodes := (nodes C)[i := rf]\<rparr>"

text \<open>A goroutine runs: \<^verbatim>\<open>startRequestVote\<close>, or one round of a sender of \<^verbatim>\<open>startAppendEntries\<close>.\<close>

fun run_task :: "'c cluster \<Rightarrow> task \<Rightarrow> 'c cluster go" where
  "run_task C (StartVote i) =
     (case startRequestVote_args (nodes C ! i) of
        None \<Rightarrow> Inr C
      | Some args \<Rightarrow> Inr (C\<lparr>
          rounds := rounds C @ [\<lparr>round_owner = i, round_args = args, round_nLeader = 0\<rparr>],
          rpcs := rpcs C @ map (\<lambda>j. VoteReq (length (rounds C)) i j args)
                     (startRequestVote_targets (nodes C ! i))\<rparr>))"
| "run_task C (SendAppend i j) =
     bind_go (appendEntries_args (nodes C ! i) j) (\<lambda>a. case a of
        None \<Rightarrow> Inr C
      | Some args \<Rightarrow> Inr (C\<lparr>rpcs := rpcs C @ [AppReq i j args]\<rparr>))"

text \<open>A message arrives: a request at its handler, a reply at the goroutine that waits for it.\<close>

fun deliver :: "'c cluster \<Rightarrow> 'c rpc \<Rightarrow> 'c cluster go" where
  "deliver C (VoteReq b i j args) =
     (let (rf, reply) = RequestVote (nodes C ! j) args
      in Inr ((set_node C j rf)\<lparr>rpcs := rpcs C @ [VoteRep b i j reply]\<rparr>))"
| "deliver C (VoteRep b i j reply) =
     (let rd = rounds C ! b;
          (rf, n) = handleVoteReply (nodes C ! i) (round_args rd) reply (round_nLeader rd)
      in Inr ((set_node C i rf)\<lparr>rounds := (rounds C)[b := rd\<lparr>round_nLeader := n\<rparr>]\<rparr>))"
| "deliver C (AppReq i j args) =
     bind_go (AppendEntries (nodes C ! j) args) (\<lambda>(rf, reply).
       Inr ((set_node C j rf)\<lparr>rpcs := rpcs C @ [AppRep i j args reply]\<rparr>))"
| "deliver C (AppRep i j args reply) =
     bind_go (handleAppendReply (nodes C ! i) j args reply) (\<lambda>(rf, again).
       Inr (if again then (set_node C i rf)\<lparr>tasks := tasks C @ [SendAppend i j]\<rparr>
            else set_node C i rf))"

text \<open>The calls a peer waits for, and its goroutines, end with it.\<close>

fun rpc_caller :: "'c rpc \<Rightarrow> nat" where
  "rpc_caller (VoteReq b i j args) = i"
| "rpc_caller (VoteRep b i j reply) = i"
| "rpc_caller (AppReq i j args) = i"
| "rpc_caller (AppRep i j args reply) = i"

fun task_owner :: "task \<Rightarrow> nat" where
  "task_owner (StartVote i) = i"
| "task_owner (SendAppend i j) = i"

text \<open>\<^verbatim>\<open>crash1\<close> and \<^verbatim>\<open>start1\<close> of \<^verbatim>\<open>config.go\<close> pass the saved state on to the new instance.\<close>

definition restart_persister :: "'c goval Persister \<Rightarrow> 'c goval Persister" where
  "restart_persister ps = Copy (SaveRaftState MakePersister (ReadRaftState (Copy ps)))"

definition restart :: "'c cluster \<Rightarrow> nat \<Rightarrow> 'c cluster" where
  "restart C i =
     C\<lparr>nodes := (nodes C)[i := Make (peers (nodes C ! i)) i (restart_persister (persister (nodes C ! i)))],
       hbs := (hbs C)[i := HTop],
       rpcs := filter (\<lambda>m. rpc_caller m \<noteq> i) (rpcs C),
       tasks := filter (\<lambda>t. task_owner t \<noteq> i) (tasks C)\<rparr>"

text \<open>
  One event. \<open>None\<close>: it cannot happen in this state. \<open>Some (Inl e)\<close>: the code panics.
\<close>

fun cluster_step :: "'c event \<Rightarrow> 'c cluster \<Rightarrow> 'c cluster go option" where
  "cluster_step (EvStart i c) C =
     (if i < length (nodes C) then Some (Inr (set_node C i (fst (Start (nodes C ! i) c)))) else None)"
| "cluster_step (EvHeartBeat i) C =
     (if i < length (nodes C) \<and> hbs C ! i = HTop then
        (let (rf, pc) = heartBeat_top (nodes C ! i)
         in Some (Inr ((set_node C i rf)\<lparr>hbs := (hbs C)[i := pc],
              tasks := tasks C @ (if pc = HCandidate then [StartVote i] else [])\<rparr>)))
      else None)"
| "cluster_step (EvSelect i sg) C =
     (if i < length (nodes C) then
        map_option (\<lambda>rf. Inr ((set_node C i rf)\<lparr>hbs := (hbs C)[i := HTop]\<rparr>))
          (case hbs C ! i of
             HFollower \<Rightarrow> heartBeat_follower (nodes C ! i) sg
           | HCandidate \<Rightarrow> heartBeat_candidate (nodes C ! i) sg
           | _ \<Rightarrow> None)
      else None)"
| "cluster_step (EvLeaderRound i) C =
     (if i < length (nodes C) \<and> hbs C ! i = HLeader then
        Some (Inr (case startAppendEntries_round (nodes C ! i) of
            None \<Rightarrow> C\<lparr>hbs := (hbs C)[i := HTop]\<rparr>
          | Some js \<Rightarrow> C\<lparr>tasks := tasks C @ map (SendAppend i) js\<rparr>))
      else None)"
| "cluster_step (EvTask k) C =
     (if k < length (tasks C) then
        Some (run_task (C\<lparr>tasks := remove_at k (tasks C)\<rparr>) (tasks C ! k))
      else None)"
| "cluster_step (EvDeliver k) C =
     (if k < length (rpcs C) then
        Some (deliver (C\<lparr>rpcs := remove_at k (rpcs C)\<rparr>) (rpcs C ! k))
      else None)"
| "cluster_step (EvLose k) C =
     (if k < length (rpcs C) then Some (Inr (C\<lparr>rpcs := remove_at k (rpcs C)\<rparr>)) else None)"
| "cluster_step (EvRestart i) C =
     (if i < length (nodes C) then Some (Inr (restart C i)) else None)"

definition cluster_next :: "'c cluster \<Rightarrow> 'c cluster \<Rightarrow> bool" where
  "cluster_next C C' \<longleftrightarrow> (\<exists>ev. cluster_step ev C = Some (Inr C'))"

definition cluster_reach :: "nat \<Rightarrow> 'c cluster \<Rightarrow> bool" where
  "cluster_reach n = reach (\<lambda>C. C = init_cluster n) cluster_next"

text \<open>A sequence of events, run from a state.\<close>

fun run_events :: "'c event list \<Rightarrow> 'c cluster \<Rightarrow> 'c cluster go option" where
  "run_events [] C = Some (Inr C)"
| "run_events (ev # evs) C =
     (case cluster_step ev C of Some (Inr C') \<Rightarrow> run_events evs C' | r \<Rightarrow> r)"

lemma run_events_reach:
  assumes "run_events evs C = Some (Inr C')" and "cluster_reach n C"
  shows "cluster_reach n C'"
  using assms
proof (induction evs arbitrary: C)
  case Nil
  then show ?case by simp
next
  case (Cons ev evs)
  then obtain D where D: "cluster_step ev C = Some (Inr D)" "run_events evs D = Some (Inr C')"
    by (auto split: option.splits sum.splits)
  then have "cluster_reach n D"
    using Cons.prems(2) by (metis cluster_reach_def cluster_next_def reach.reach_step)
  with D(2) show ?case by (rule Cons.IH)
qed

lemma init_reach: "cluster_reach n (init_cluster n)"
  by (simp add: cluster_reach_def reach.reach_init)

end
