(* ===== verification/Invariants.thy ===== *)
theory Invariants
  imports Cluster
begin

text \<open>
  What holds in every reachable state of a cluster: the well-formedness of each peer, kept by every
  operation of \<^verbatim>\<open>Task5/raft/raft.go\<close>. The terms of a log never decrease along it and never exceed
  the peer's term, the store holds the current persistent state, and what a peer has applied is
  gapless and in order.
\<close>

section \<open>The invariant of one peer\<close>

definition log_ok :: "int \<Rightarrow> 'c LogEntry list \<Rightarrow> bool" where
  "log_ok t lg \<longleftrightarrow> sorted (map Term lg) \<and> (\<forall>e \<in> set lg. 0 \<le> Term e \<and> Term e \<le> t)"

definition node_inv :: "nat \<Rightarrow> nat \<Rightarrow> 'c raft \<Rightarrow> bool" where
  "node_inv n i rf \<longleftrightarrow>
     peers rf = n \<and> me rf = i \<and> durable rf \<and> 0 \<le> currentTerm rf \<and>
     -1 \<le> committedIndex rf \<and> -1 \<le> lastApplied rf \<and>
     (state rf = Leader \<longrightarrow> length (nextIndex rf) = n \<and> length (matchIndex rf) = n) \<and>
     log_ok (currentTerm rf) (log rf) \<and>
     map CommandIndex (applyCh rf) = [0..lastApplied rf]"

lemma log_ok_mono: "log_ok t lg \<Longrightarrow> t \<le> t' \<Longrightarrow> log_ok t' lg"
  by (force simp: log_ok_def)

lemma log_ok_max: "log_ok t lg \<Longrightarrow> log_ok (max t t') lg"
  by (erule log_ok_mono) simp

lemma log_ok_take: "log_ok t lg \<Longrightarrow> log_ok t (take p lg)"
  by (auto simp: log_ok_def take_map [symmetric] sorted_wrt_take dest: in_set_takeD)

lemma log_ok_nth: "log_ok t lg \<Longrightarrow> p \<le> q \<Longrightarrow> q < length lg \<Longrightarrow> Term (lg ! p) \<le> Term (lg ! q)"
  by (auto simp: log_ok_def sorted_iff_nth_mono)

lemma log_ok_snoc: "log_ok t lg \<Longrightarrow> 0 \<le> t \<Longrightarrow> log_ok t (lg @ [\<lparr>Command = c, Term = t\<rparr>])"
  by (auto simp: log_ok_def sorted_append)

lemma log_ok_append:
  "log_ok t xs \<Longrightarrow> log_ok t ys \<Longrightarrow> (\<And>x y. x \<in> set xs \<Longrightarrow> y \<in> set ys \<Longrightarrow> Term x \<le> Term y) \<Longrightarrow>
   log_ok t (xs @ ys)"
  by (auto simp: log_ok_def sorted_append)

lemma log_ok_terms: "log_ok t lg \<longleftrightarrow> sorted (map Term lg) \<and> (\<forall>x \<in> set (map Term lg). 0 \<le> x \<and> x \<le> t)"
  by (auto simp: log_ok_def)

lemma log_ok_map: "map Term lg = map Term lg' \<Longrightarrow> log_ok t lg = log_ok t lg'"
  by (simp only: log_ok_terms)

section \<open>Frame facts\<close>

lemma node_inv_channels [simp]:
  "node_inv n i (rf\<lparr>grantVoteCh := x\<rparr>) = node_inv n i rf"
  "node_inv n i (rf\<lparr>heartBeatCh := x\<rparr>) = node_inv n i rf"
  "node_inv n i (rf\<lparr>leaderCh := x\<rparr>) = node_inv n i rf"
  by (simp_all add: node_inv_def)

lemma node_inv_persist: "node_inv n i rf \<Longrightarrow> node_inv n i (persist rf)"
  by (simp add: node_inv_def)

lemma node_inv_convertToFollower:
  "node_inv n i rf \<Longrightarrow> currentTerm rf \<le> t \<Longrightarrow> node_inv n i (convertToFollower rf t v)"
  by (simp add: node_inv_def log_ok_mono [of "currentTerm rf"])

lemma node_inv_convertToCandidate: "node_inv n i rf \<Longrightarrow> node_inv n i (convertToCandidate rf)"
  by (simp add: node_inv_def log_ok_mono [of "currentTerm rf"])

lemma node_inv_convertToLeader: "node_inv n i rf \<Longrightarrow> node_inv n i (convertToLeader rf)"
  by (simp add: node_inv_def)

lemma node_inv_Start: "node_inv n i rf \<Longrightarrow> node_inv n i (fst (Start rf c))"
  by (simp add: node_inv_def Start_def Let_def log_ok_snoc)

section \<open>Elections\<close>

lemma node_inv_RequestVote: "node_inv n i rf \<Longrightarrow> node_inv n i (fst (RequestVote rf args))"
  by (simp add: node_inv_def RequestVote_term RequestVote_state durable_RequestVote log_ok_max)

lemma node_inv_persist_votes:
  "node_inv n i rf \<Longrightarrow> node_inv n i (persist (rf\<lparr>voteGranted := x\<rparr>))"
  "node_inv n i rf \<Longrightarrow> node_inv n i (persist (rf\<lparr>voteNotGranted := x\<rparr>))"
  "node_inv n i rf \<Longrightarrow> node_inv n i (persist ((convertToLeader (rf\<lparr>voteGranted := x\<rparr>))\<lparr>leaderCh := y\<rparr>))"
  by (simp_all add: node_inv_def)

lemma node_inv_handleVoteReply:
  "node_inv n i rf \<Longrightarrow> node_inv n i (fst (handleVoteReply rf args reply k))"
  by (simp add: handleVoteReply_def Let_def node_inv_convertToFollower node_inv_persist_votes)

section \<open>Replication\<close>

lemma node_inv_applied:
  assumes "node_inv n i rf" and "startApplyLogs rf = Inr rf'"
  shows "node_inv n i rf'"
proof -
  have la: "-1 \<le> lastApplied rf" using assms(1) by (simp add: node_inv_def)
  have "[0..lastApplied rf] @ [lastApplied rf + 1..apply_limit rf] =
      [0..max (lastApplied rf) (apply_limit rf)]"
    by (rule upto_join [OF la])
  moreover have "durable (rf\<lparr>applyCh := xs, lastApplied := y\<rparr>) = durable rf" for xs y
    by (rule durable_cong) (simp_all add: pstate_def)
  ultimately show ?thesis
    using assms(1) assms(2) [unfolded startApplyLogs_eq [OF la]] by (auto simp: node_inv_def map_apply_index)
qed

text \<open>A well-formed request carries a well-formed piece of a log that fits after its previous entry.\<close>

definition ae_args_ok :: "'c AppendEntriesArgs \<Rightarrow> bool" where
  "ae_args_ok args \<longleftrightarrow> log_ok (ae_Term args) (Entries args) \<and>
     (\<forall>e \<in> set (Entries args). PrevLogTerm args \<le> Term e)"

lemma appendEntries_args_ok:
  assumes "appendEntries_args rf j = Inr (Some args)" and "log_ok (currentTerm rf) (log rf)"
  shows "ae_args_ok args"
proof -
  define ni where "ni = nextIndex rf ! j"
  have nx: "0 \<le> ni" "ni \<le> int (length (log rf))"
    "ae_Term args = currentTerm rf" "Entries args = drop (nat ni) (log rf)"
    "PrevLogTerm args = (if ni = 0 then -1 else Term (log rf ! nat (ni - 1)))"
    using appendEntries_args_SomeD [OF assms(1)] by (simp_all add: ni_def)
  have srt: "sorted (map Term (log rf))" and rng: "\<forall>e \<in> set (log rf). 0 \<le> Term e \<and> Term e \<le> currentTerm rf"
    using assms(2) by (auto simp: log_ok_def)
  have "PrevLogTerm args \<le> Term e" if "e \<in> set (drop (nat ni) (log rf))" for e
  proof -
    from that obtain q where q: "nat ni \<le> q" "q < length (log rf)" "e = log rf ! q"
      by (auto simp: in_set_conv_nth) (metis add.commute le_add1 less_diff_conv)
    show ?thesis
    proof (cases "ni = 0")
      case False
      then have "Term (log rf ! nat (ni - 1)) \<le> Term (log rf ! q)"
        using q nx by (intro log_ok_nth [OF assms(2)]) auto
      with False nx q show ?thesis by simp
    next
      case True
      have "0 \<le> Term e" using rng q by simp
      with True nx show ?thesis by simp
    qed
  qed
  moreover have "log_ok (ae_Term args) (Entries args)"
    using nx srt rng by (auto simp: log_ok_def drop_map [symmetric] sorted_wrt_drop dest: in_set_dropD)
  ultimately show ?thesis using nx by (simp add: ae_args_ok_def)
qed

lemma merge_entries_terms:
  "conflict_at es ys = None \<Longrightarrow>
   map Term (merge_entries es ys) = (if length es \<le> length ys then map Term ys else map Term es)"
  by (induction es ys rule: merge_entries.induct) (auto split: if_splits)

lemma log_ok_merge:
  assumes lg: "log_ok t lg" and args: "log_ok t es" and p: "p \<le> length lg"
    and fits: "\<And>e. e \<in> set es \<Longrightarrow> 0 < p \<Longrightarrow> Term (lg ! (p - 1)) \<le> Term e"
  shows "log_ok t (take p lg @ merge_entries es (drop p lg))"
proof -
  have join: "log_ok t (take p lg @ es)"
  proof (rule log_ok_append [OF log_ok_take [OF lg] args])
    fix x y
    assume "x \<in> set (take p lg)" and y: "y \<in> set es"
    then obtain q where q: "q < p" "x = lg ! q" using p by (auto simp: in_set_conv_nth)
    then have "Term x \<le> Term (lg ! (p - 1))" using p by (auto intro!: log_ok_nth [OF lg])
    with fits [OF y] q show "Term x \<le> Term y" by auto
  qed
  show ?thesis
  proof (cases "conflict_at es (drop p lg)")
    case (Some i)
    with join show ?thesis by (simp add: merge_entries_eq)
  next
    case None
    let ?new = "take p lg @ merge_entries es (drop p lg)"
    have whole: "map Term (take p lg) @ map Term (drop p lg) = map Term lg"
      by (simp only: map_append [symmetric] append_take_drop_id)
    have new: "map Term ?new = map Term (take p lg) @
        (if length es \<le> length (drop p lg) then map Term (drop p lg) else map Term es)"
      by (simp only: map_append merge_entries_terms [OF None])
    show ?thesis
    proof (cases "length es \<le> length (drop p lg)")
      case True
      with new whole have "map Term ?new = map Term lg" by simp
      from log_ok_map [OF this, of t] lg show ?thesis by simp
    next
      case False
      with new have "map Term ?new = map Term (take p lg @ es)" by simp
      from log_ok_map [OF this, of t] join show ?thesis by simp
    qed
  qed
qed

lemma log_ok_ae_log:
  assumes "ae_log (PrevLogIndex args) (Entries args) (log rf) = Inr lg"
    and acc: "ae_accepts rf args" and ok: "ae_args_ok args" and lg: "log_ok t (log rf)" "ae_Term args \<le> t"
  shows "log_ok t lg"
proof -
  define p where "p = nat (PrevLogIndex args + 1)"
  have p: "p \<le> length (log rf)" "PrevLogIndex args = int p - 1"
    using ae_log_accepts [OF acc] by (simp_all add: p_def)
  have es: "log_ok t (Entries args)"
    using ok lg(2) by (simp add: ae_args_ok_def log_ok_mono [of "ae_Term args"])
  have "Term (log rf ! (p - 1)) \<le> Term e" if "e \<in> set (Entries args)" "0 < p" for e
  proof -
    have "Term (log rf ! (p - 1)) = PrevLogTerm args"
      using acc that(2) by (auto simp: ae_accepts_def p_def nat_add_distrib)
    with ok that(1) show ?thesis by (auto simp: ae_args_ok_def)
  qed
  from log_ok_merge [OF lg(1) es p(1) this] log_ok_take [OF lg(1)] assms(1) show ?thesis
    unfolding p(2) ae_log_eq [OF p(1)] by (auto split: if_splits)
qed

lemma node_inv_AppendEntries:
  assumes inv: "node_inv n i rf" and ok: "ae_args_ok args"
    and AE: "AppendEntries rf args = Inr (rf', reply)"
  shows "node_inv n i rf'"
proof -
  have la: "-1 \<le> lastApplied rf" using inv by (simp add: node_inv_def)
  have adopt: "node_inv n i (persist (ae_adopt rf args))"
    using inv by (simp add: node_inv_def log_ok_max)
  from AE la show ?thesis
  proof (cases rule: AppendEntries_cases)
    case (refused ci ct)
    with adopt show ?thesis by simp
  next
    case (accepted lg)
    have "log_ok (currentTerm rf) (log rf)" using inv by (simp add: node_inv_def)
    then have "log_ok (max (currentTerm rf) (ae_Term args)) lg"
      using accepted ok by (intro log_ok_ae_log [of args rf lg]) (simp_all add: log_ok_max)
    moreover have "-1 \<le> ae_commit (rf\<lparr>log := lg\<rparr>) args"
      using accepted inv by (auto simp: ae_commit_def ae_accepts_def node_inv_def Let_def)
    ultimately show ?thesis
      using inv accepted(3) upto_join [OF la]
      by (auto simp: node_inv_def ae_accepted_applied map_apply_index)
  qed
qed

lemma node_inv_advance_commit:
  assumes inv: "node_inv n i rf" and ok: "advance_commit rf = Inr rf'"
  shows "node_inv n i rf'"
proof -
  have d: "durable (rf\<lparr>committedIndex := N\<rparr>) = durable rf" for N
    by (rule durable_cong) (simp_all add: pstate_def)
  have "(\<exists>N. committedIndex rf < N \<and> startApplyLogs (rf\<lparr>committedIndex := N\<rparr>) = Inr rf') \<or>
      startApplyLogs rf = Inr rf'"
    using ok by (auto simp: advance_commit_def split: if_splits)
  then show ?thesis
  proof (elim disjE exE conjE)
    fix N
    assume "committedIndex rf < N" and ap: "startApplyLogs (rf\<lparr>committedIndex := N\<rparr>) = Inr rf'"
    then have "node_inv n i (rf\<lparr>committedIndex := N\<rparr>)" using inv by (simp add: node_inv_def d)
    then show ?thesis using ap by (rule node_inv_applied)
  next
    assume "startApplyLogs rf = Inr rf'"
    with inv show ?thesis by (rule node_inv_applied)
  qed
qed

lemma node_inv_indices:
  assumes "node_inv n i rf" and "length mi = length (matchIndex rf)" and "length ni = length (nextIndex rf)"
  shows "node_inv n i (rf\<lparr>matchIndex := mi, nextIndex := ni\<rparr>)"
proof -
  have "durable (rf\<lparr>matchIndex := mi, nextIndex := ni\<rparr>) = durable rf"
    by (rule durable_cong) (simp_all add: pstate_def)
  with assms show ?thesis by (simp add: node_inv_def)
qed

lemma node_inv_handleAppendReply:
  assumes inv: "node_inv n i rf" and hr: "handleAppendReply rf j args reply = Inr (rf', again)"
  shows "node_inv n i rf'"
proof (cases "aer_Term reply > currentTerm rf \<or> currentTerm rf \<noteq> ae_Term args \<or> state rf \<noteq> Leader")
  case True
  with inv hr show ?thesis
    by (auto simp: handleAppendReply_def node_inv_convertToFollower split: if_splits)
next
  case False
  show ?thesis
  proof (cases "Success reply")
    case True
    let ?m = "PrevLogIndex args + int (length (Entries args))"
    have ac: "advance_commit (rf\<lparr>matchIndex := (matchIndex rf)[j := ?m],
        nextIndex := (nextIndex rf)[j := ?m + 1]\<rparr>) = Inr rf'"
      using True False hr by (auto simp: handleAppendReply_def go_update_eq_Inr go_index_eq_Inr)
    have "node_inv n i (rf\<lparr>matchIndex := (matchIndex rf)[j := ?m],
        nextIndex := (nextIndex rf)[j := ?m + 1]\<rparr>)"
      using inv by (rule node_inv_indices) simp_all
    then show ?thesis using ac by (rule node_inv_advance_commit)
  next
    case refused: False
    let ?ni = "(nextIndex rf)[j := backup_next rf (nextIndex rf ! j) reply]"
    have "rf' = rf\<lparr>nextIndex := ?ni\<rparr>"
      using refused False hr by (auto simp: handleAppendReply_def go_update_eq_Inr go_index_eq_Inr)
    moreover have "node_inv n i (rf\<lparr>matchIndex := matchIndex rf, nextIndex := ?ni\<rparr>)"
      using inv by (rule node_inv_indices) simp_all
    ultimately show ?thesis by simp
  qed
qed

section \<open>The main loop and restarts\<close>

lemma node_inv_heartBeat_top: "node_inv n i rf \<Longrightarrow> node_inv n i (fst (heartBeat_top rf))"
  by (simp add: heartBeat_top_def node_inv_persist Let_def)

lemma node_inv_heartBeat_follower:
  "heartBeat_follower rf sg = Some rf' \<Longrightarrow> node_inv n i rf \<Longrightarrow> node_inv n i rf'"
  by (cases sg) (auto simp: node_inv_convertToCandidate split: if_splits)

lemma node_inv_heartBeat_candidate:
  "heartBeat_candidate rf sg = Some rf' \<Longrightarrow> node_inv n i rf \<Longrightarrow> node_inv n i rf'"
  by (cases sg) (auto simp: Let_def node_inv_convertToCandidate node_inv_convertToFollower
      split: if_splits)

lemma ReadRaftState_restart [simp]: "ReadRaftState (restart_persister ps) = ReadRaftState ps"
  by (simp add: restart_persister_def raft_store.load_dup raft_store.load_save)

lemma restart_pstate:
  "durable rf \<Longrightarrow> pstate (Make (peers rf) i (restart_persister (persister rf))) = pstate rf"
  using pstate_Make_cong [where ps = "restart_persister (persister rf)" and ps' = "persister rf"
      and n = "peers rf" and i = i and m = "peers rf" and j = "me rf"]
  by (simp add: durable_def)

lemma node_inv_restart:
  assumes "node_inv n i rf"
  shows "node_inv n i (Make (peers rf) i (restart_persister (persister rf)))"
proof -
  have "durable rf" using assms by (simp add: node_inv_def)
  then have "pstate (Make (peers rf) i (restart_persister (persister rf))) = pstate rf"
    by (rule restart_pstate)
  with assms show ?thesis by (simp add: node_inv_def pstate_def)
qed

lemma node_inv_init: "node_inv n i (Make n i MakePersister :: 'c raft)"
proof -
  have "currentTerm (Make n i MakePersister :: 'c raft) = 0"
    and "log (Make n i MakePersister :: 'c raft) = []"
    by (simp_all add: Make_def ReadRaftState_def MakePersister_def blank_raft_def)
  then show ?thesis by (simp add: node_inv_def log_ok_def)
qed

section \<open>The invariant of a cluster\<close>

fun rpc_ok :: "nat \<Rightarrow> 'c rpc \<Rightarrow> bool" where
  "rpc_ok n (AppReq i j args) \<longleftrightarrow> i < n \<and> ae_args_ok args"
| "rpc_ok n m \<longleftrightarrow> rpc_caller m < n"

definition cluster_inv :: "nat \<Rightarrow> 'c cluster \<Rightarrow> bool" where
  "cluster_inv n C \<longleftrightarrow>
     length (nodes C) = n \<and> length (hbs C) = n \<and> (\<forall>i < n. node_inv n i (nodes C ! i)) \<and>
     (\<forall>m \<in> set (rpcs C). rpc_ok n m) \<and> (\<forall>t \<in> set (tasks C). task_owner t < n)"

lemma set_remove_at: "x \<in> set (remove_at k xs) \<Longrightarrow> x \<in> set xs"
  by (auto simp: remove_at_def dest: in_set_takeD in_set_dropD)

lemma cluster_inv_init: "cluster_inv n (init_cluster n)"
  by (simp add: cluster_inv_def init_cluster_def node_inv_init)

lemma cluster_inv_set_node:
  assumes "cluster_inv n C" and "i < n \<Longrightarrow> node_inv n i rf"
  shows "cluster_inv n (set_node C i rf)"
  using assms
  by (cases "i < n") (auto simp: cluster_inv_def set_node_def nth_list_update list_update_beyond)

lemma rpc_ok_caller: "rpc_ok n m \<Longrightarrow> rpc_caller m < n"
  by (cases m) auto

lemma cluster_inv_node: "cluster_inv n C \<Longrightarrow> i < n \<Longrightarrow> node_inv n i (nodes C ! i)"
  by (simp add: cluster_inv_def)

text \<open>Changes of the other fields, after the node that moves is in place.\<close>

lemma cluster_inv_update:
  assumes "cluster_inv n C" and "nodes C' = nodes C" and "length (hbs C') = n"
    and "\<forall>m \<in> set (rpcs C'). m \<in> set (rpcs C) \<or> rpc_ok n m"
    and "\<forall>t \<in> set (tasks C'). t \<in> set (tasks C) \<or> task_owner t < n"
  shows "cluster_inv n C'"
  using assms by (auto simp: cluster_inv_def)

lemma set_node_simps [simp]:
  "hbs (set_node C i rf) = hbs C" "rpcs (set_node C i rf) = rpcs C"
  "tasks (set_node C i rf) = tasks C" "rounds (set_node C i rf) = rounds C"
  "nodes (set_node C i rf) = (nodes C)[i := rf]"
  by (simp_all add: set_node_def)

lemma cluster_inv_hbs: "cluster_inv n C \<Longrightarrow> length (hbs C) = n"
  by (simp add: cluster_inv_def)

lemma cluster_inv_nodes: "cluster_inv n C \<Longrightarrow> length (nodes C) = n"
  by (simp add: cluster_inv_def)

lemma cluster_inv_run_task:
  assumes inv: "cluster_inv n C" and t: "task_owner t < n" and run: "run_task C t = Inr C'"
  shows "cluster_inv n C'"
proof (cases t)
  case (StartVote i)
  with run inv t show ?thesis
    by (cases "startRequestVote_args (nodes C ! i)")
      (auto simp: cluster_inv_hbs intro!: cluster_inv_update [OF inv])
next
  case (SendAppend i j)
  have "log_ok (currentTerm (nodes C ! i)) (log (nodes C ! i))"
    using cluster_inv_node [OF inv] t SendAppend by (simp add: node_inv_def)
  then have ok: "ae_args_ok args" if "appendEntries_args (nodes C ! i) j = Inr (Some args)" for args
    using that by (rule appendEntries_args_ok [rotated])
  obtain a where a: "appendEntries_args (nodes C ! i) j = Inr a"
    using run SendAppend by auto
  then show ?thesis
    using run SendAppend inv t ok
    by (cases a) (auto simp: cluster_inv_hbs intro!: cluster_inv_update [OF inv])
qed

lemma cluster_inv_deliver:
  assumes inv: "cluster_inv n C" and m: "rpc_ok n m" and del: "deliver C m = Inr C'"
  shows "cluster_inv n C'"
proof (cases m)
  case (VoteReq b i j args)
  have "cluster_inv n (set_node C j (fst (RequestVote (nodes C ! j) args)))"
    using inv by (intro cluster_inv_set_node node_inv_RequestVote cluster_inv_node)
  from cluster_inv_update [OF this, of C'] del m show ?thesis
    by (auto simp: VoteReq cluster_inv_hbs [OF inv] split_def Let_def)
next
  case (VoteRep b i j reply)
  have "cluster_inv n (set_node C i (fst (handleVoteReply (nodes C ! i) (round_args (rounds C ! b))
      reply (round_nLeader (rounds C ! b)))))"
    using inv by (intro cluster_inv_set_node node_inv_handleVoteReply cluster_inv_node)
  from cluster_inv_update [OF this, of C'] del m show ?thesis
    by (auto simp: VoteRep cluster_inv_hbs [OF inv] split_def Let_def)
next
  case (AppReq i j args)
  with del obtain rf reply where AE: "AppendEntries (nodes C ! j) args = Inr (rf, reply)"
    and C': "C' = (set_node C j rf)\<lparr>rpcs := rpcs C @ [AppRep i j args reply]\<rparr>"
    by auto
  have "cluster_inv n (set_node C j rf)"
    using m AppReq by (intro cluster_inv_set_node [OF inv] node_inv_AppendEntries [OF _ _ AE]
        cluster_inv_node [OF inv]) simp_all
  from cluster_inv_update [OF this, of C'] m show ?thesis
    by (auto simp: AppReq C' cluster_inv_hbs [OF inv])
next
  case (AppRep i j args reply)
  with del obtain rf again where hr: "handleAppendReply (nodes C ! i) j args reply = Inr (rf, again)"
    and C': "C' = (if again then (set_node C i rf)\<lparr>tasks := tasks C @ [SendAppend i j]\<rparr>
                   else set_node C i rf)"
    by auto
  have "cluster_inv n (set_node C i rf)"
    by (intro cluster_inv_set_node [OF inv] node_inv_handleAppendReply [OF _ hr]
        cluster_inv_node [OF inv])
  from cluster_inv_update [OF this, of C'] m show ?thesis
    by (auto simp: AppRep C' cluster_inv_hbs [OF inv])
qed

lemma cluster_inv_remove:
  "cluster_inv n C \<Longrightarrow> cluster_inv n (C\<lparr>rpcs := remove_at k (rpcs C)\<rparr>)"
  "cluster_inv n C \<Longrightarrow> cluster_inv n (C\<lparr>tasks := remove_at k (tasks C)\<rparr>)"
  by (auto simp: cluster_inv_def dest: set_remove_at)

lemma cluster_inv_restart: "cluster_inv n C \<Longrightarrow> i < n \<Longrightarrow> cluster_inv n (restart C i)"
  by (auto simp: cluster_inv_def restart_def nth_list_update node_inv_restart)

lemma cluster_inv_select:
  assumes inv: "cluster_inv n C" and step: "cluster_step (EvSelect i sg) C = Some (Inr C')"
  shows "cluster_inv n C'"
proof -
  from step obtain rf where i: "i < length (nodes C)"
    and rf: "heartBeat_follower (nodes C ! i) sg = Some rf \<or> heartBeat_candidate (nodes C ! i) sg = Some rf"
    and C': "C' = (set_node C i rf)\<lparr>hbs := (hbs C)[i := HTop]\<rparr>"
    by (auto split: if_splits hb_pc.splits)
  have "cluster_inv n (set_node C i rf)"
    using rf by (auto intro!: cluster_inv_set_node [OF inv]
        elim!: node_inv_heartBeat_follower node_inv_heartBeat_candidate dest: cluster_inv_node [OF inv])
  from cluster_inv_update [OF this, of C'] show ?thesis by (simp add: C' cluster_inv_hbs [OF inv])
qed

lemma cluster_inv_step:
  assumes inv: "cluster_inv n C" and step: "cluster_step ev C = Some (Inr C')"
  shows "cluster_inv n C'"
proof (cases ev)
  case (EvStart i c)
  have "cluster_inv n (set_node C i (fst (Start (nodes C ! i) c)))"
    by (intro cluster_inv_set_node [OF inv] node_inv_Start cluster_inv_node [OF inv])
  with step EvStart show ?thesis by (simp split: if_splits)
next
  case (EvHeartBeat i)
  have "cluster_inv n (set_node C i (fst (heartBeat_top (nodes C ! i))))"
    by (intro cluster_inv_set_node [OF inv] node_inv_heartBeat_top cluster_inv_node [OF inv])
  from cluster_inv_update [OF this, of C'] step EvHeartBeat show ?thesis
    by (auto simp: cluster_inv_hbs [OF inv] cluster_inv_nodes [OF inv] split_def Let_def
        split: if_splits)
next
  case (EvSelect i sg)
  with inv step show ?thesis by (blast intro: cluster_inv_select)
next
  case (EvLeaderRound i)
  with step show ?thesis
    by (auto simp: cluster_inv_hbs [OF inv] cluster_inv_nodes [OF inv]
        intro!: cluster_inv_update [OF inv] split: if_splits option.splits)
next
  case (EvTask k)
  with step have "run_task (C\<lparr>tasks := remove_at k (tasks C)\<rparr>) (tasks C ! k) = Inr C'"
    and "k < length (tasks C)"
    by (auto split: if_splits)
  moreover from this have "task_owner (tasks C ! k) < n" using inv by (simp add: cluster_inv_def)
  ultimately show ?thesis by (blast intro: cluster_inv_run_task cluster_inv_remove(2) [OF inv])
next
  case (EvDeliver k)
  with step have "deliver (C\<lparr>rpcs := remove_at k (rpcs C)\<rparr>) (rpcs C ! k) = Inr C'"
    and "k < length (rpcs C)"
    by (auto split: if_splits)
  moreover from this have "rpc_ok n (rpcs C ! k)" using inv by (simp add: cluster_inv_def)
  ultimately show ?thesis by (blast intro: cluster_inv_deliver cluster_inv_remove(1) [OF inv])
next
  case (EvLose k)
  with step cluster_inv_remove(1) [OF inv] show ?thesis by (auto split: if_splits)
next
  case (EvRestart i)
  with step cluster_inv_restart [OF inv] show ?thesis
    by (auto simp: cluster_inv_nodes [OF inv] split: if_splits)
qed

interpretation cluster: invariant_system "\<lambda>C. C = init_cluster n" cluster_next "cluster_inv n" for n
  by unfold_locales (auto simp: cluster_inv_init cluster_next_def intro: cluster_inv_step)

lemma reach_cluster_inv: "cluster_reach n C \<Longrightarrow> cluster_inv n C"
  unfolding cluster_reach_def by (rule cluster.reach_inv)

end
