(* ===== verification/Moves.thy ===== *)
theory Moves
  imports Invariants
begin

text \<open>
  Every event of the cluster changes at most one peer, and changes it by one operation of
  \<^verbatim>\<open>Task5/raft/raft.go\<close>. The relation \<open>node_move\<close> lists these operations, so that a property of
  two successive states of a peer is proved by one case per operation. The properties of reachable
  states that follow from the invariant of the previous theory, and two runs that show what the
  protocol as written does not guarantee, are at the end.
\<close>

section \<open>The moves of one peer\<close>

inductive node_move :: "'c raft \<Rightarrow> 'c raft \<Rightarrow> bool" where
  mv_stay: "node_move rf rf"
| mv_start: "node_move rf (fst (Start rf c))"
| mv_top: "node_move rf (fst (heartBeat_top rf))"
| mv_follower: "heartBeat_follower rf sg = Some rf' \<Longrightarrow> node_move rf rf'"
| mv_candidate: "heartBeat_candidate rf sg = Some rf' \<Longrightarrow> node_move rf rf'"
| mv_vote: "node_move rf (fst (RequestVote rf args))"
| mv_vote_reply: "node_move rf (fst (handleVoteReply rf args reply k))"
| mv_append: "AppendEntries rf args = Inr (rf', areply) \<Longrightarrow> node_move rf rf'"
| mv_append_reply: "handleAppendReply rf j args areply = Inr (rf', again) \<Longrightarrow> node_move rf rf'"
| mv_restart: "node_move rf (Make (peers rf) i (restart_persister (persister rf)))"

lemma move_at:
  "node_move (xs ! k) rf \<Longrightarrow> i < length xs \<Longrightarrow>
   node_move (xs ! i) (xs[k := rf] ! i)"
  by (cases "k = i") (auto intro: mv_stay)

lemma deliver_moves:
  assumes "deliver C m = Inr C'" and "i < length (nodes C)"
  shows "node_move (nodes C ! i) (nodes C' ! i)"
proof (cases m)
  case (AppReq b j args)
  with assms show ?thesis by (auto intro!: move_at intro: mv_append)
next
  case (AppRep b j args reply)
  with assms show ?thesis by (auto split: if_splits intro!: move_at intro: mv_append_reply)
qed (use assms in \<open>auto simp: split_def Let_def intro!: move_at mv_vote mv_vote_reply\<close>)

lemma run_task_nodes: "run_task C t = Inr C' \<Longrightarrow> nodes C' = nodes C"
  by (cases t) (auto split: option.splits)

lemma cluster_step_moves:
  assumes "cluster_step ev C = Some (Inr C')" and "i < length (nodes C)"
  shows "node_move (nodes C ! i) (nodes C' ! i)"
proof (cases ev)
  case (EvSelect k sg)
  with assms show ?thesis
    by (auto split: if_splits hb_pc.splits intro!: move_at intro: mv_follower mv_candidate)
next
  case (EvTask k)
  with assms show ?thesis by (auto split: if_splits dest!: run_task_nodes intro: mv_stay)
next
  case (EvDeliver k)
  with assms deliver_moves [of "C\<lparr>rpcs := remove_at k (rpcs C)\<rparr>" "rpcs C ! k" C' i]
  show ?thesis by (auto split: if_splits)
next
  case (EvRestart k)
  with assms show ?thesis by (auto simp: restart_def split: if_splits intro!: move_at mv_restart)
qed (use assms in \<open>auto simp: split_def Let_def split: if_splits option.splits
      intro!: move_at mv_start mv_top mv_stay\<close>)

section \<open>Terms\<close>

lemma advance_commit_cases:
  assumes "advance_commit rf = Inr rf'"
  obtains N where "startApplyLogs (rf\<lparr>committedIndex := N\<rparr>) = Inr rf'"
proof -
  have "(\<exists>N. startApplyLogs (rf\<lparr>committedIndex := N\<rparr>) = Inr rf') \<or> startApplyLogs rf = Inr rf'"
    using assms by (auto simp: advance_commit_def split: if_splits)
  moreover have "rf = rf\<lparr>committedIndex := committedIndex rf\<rparr>" by simp
  ultimately show ?thesis using that by metis
qed

lemma advance_commit_role:
  assumes "advance_commit rf = Inr rf'" and "-1 \<le> lastApplied rf"
  shows "currentTerm rf' = currentTerm rf \<and> state rf' = state rf \<and> votedFor rf' = votedFor rf \<and>
    voteGranted rf' = voteGranted rf"
proof -
  obtain N where N: "startApplyLogs (rf\<lparr>committedIndex := N\<rparr>) = Inr rf'"
    by (rule advance_commit_cases [OF assms(1)])
  have "-1 \<le> lastApplied (rf\<lparr>committedIndex := N\<rparr>)" using assms(2) by simp
  from startApplyLogs_eq [OF this] N show ?thesis by auto
qed

text \<open>What a reply to an append request does to a peer's term, role and vote.\<close>

lemma handleAppendReply_role:
  assumes "handleAppendReply rf j args reply = Inr (rf', again)" and "-1 \<le> lastApplied rf"
  shows "currentTerm rf' = currentTerm rf \<and> state rf' = state rf \<and> votedFor rf' = votedFor rf \<and>
      voteGranted rf' = voteGranted rf \<or>
    currentTerm rf < currentTerm rf' \<and> state rf' = Follower"
proof (cases "aer_Term reply > currentTerm rf \<or> currentTerm rf \<noteq> ae_Term args \<or> state rf \<noteq> Leader")
  case True
  with assms show ?thesis by (auto simp: handleAppendReply_def split: if_splits)
next
  case False
  show ?thesis
  proof (cases "Success reply")
    case True
    with False assms(1) obtain mi ni where
      "advance_commit (rf\<lparr>matchIndex := mi, nextIndex := ni\<rparr>) = Inr rf'"
      by (auto simp: handleAppendReply_def)
    from advance_commit_role [OF this] assms(2) show ?thesis by simp
  next
    case refused: False
    with False assms(1) obtain ni where "rf' = rf\<lparr>nextIndex := ni\<rparr>"
      by (auto simp: handleAppendReply_def)
    then show ?thesis by simp
  qed
qed

lemma AppendEntries_role:
  assumes "AppendEntries rf args = Inr (rf', reply)" and "-1 \<le> lastApplied rf"
  shows "currentTerm rf' = max (currentTerm rf) (ae_Term args) \<and> votedFor rf' = votedFor rf \<and>
    state rf' = (if currentTerm rf < ae_Term args then Follower else state rf)"
  using assms by (cases rule: AppendEntries_cases) auto

lemma restart_fields:
  assumes "durable rf"
  shows "currentTerm (Make (peers rf) i (restart_persister (persister rf))) = currentTerm rf"
    "votedFor (Make (peers rf) i (restart_persister (persister rf))) = votedFor rf"
    "log (Make (peers rf) i (restart_persister (persister rf))) = log rf"
  using restart_pstate [OF assms, of i] by (simp_all add: pstate_def)

lemma node_move_term:
  assumes "node_move rf rf'" and "node_inv n i rf"
  shows "currentTerm rf \<le> currentTerm rf'"
  using assms(1)
proof (cases rule: node_move.cases)
  case (mv_follower sg)
  then show ?thesis by (cases sg) (auto split: if_splits)
next
  case (mv_candidate sg)
  then show ?thesis by (cases sg) (auto simp: Let_def split: if_splits)
next
  case (mv_append args areply)
  then show ?thesis using AppendEntries_role assms(2) by (fastforce simp: node_inv_def)
next
  case (mv_append_reply j args areply again)
  then show ?thesis using handleAppendReply_role assms(2) by (fastforce simp: node_inv_def)
next
  case (mv_restart k)
  have "durable rf" using assms(2) by (simp add: node_inv_def)
  with mv_restart show ?thesis by (simp add: restart_fields(1))
next
  case (mv_vote_reply args reply k)
  then show ?thesis by (simp add: handleVoteReply_def Let_def)
qed (simp_all add: Start_def heartBeat_top_def RequestVote_term Let_def)

section \<open>Runs that break what Raft promises\<close>

text \<open>
  Three peers time out together and ask each other for votes in term 1. Peer 1 and then peer 0 refuse
  a request and lose the vote they gave themselves; each then votes for a further candidate.
\<close>

definition split_run :: "nat event list" where
  "split_run = [EvHeartBeat 0, EvHeartBeat 1, EvHeartBeat 2,
     EvSelect 0 SigTimer, EvSelect 1 SigTimer, EvSelect 2 SigTimer,
     EvHeartBeat 0, EvHeartBeat 1, EvHeartBeat 2, EvTask 0, EvTask 0, EvTask 0,
     EvDeliver 0, EvDeliver 4, EvDeliver 2, EvDeliver 0, EvDeliver 3, EvDeliver 4]"

text \<open>Each leader then gets a command and has peer 1 store it at index 0.\<close>

definition diverge_run :: "nat event list" where
  "diverge_run = split_run @ [EvSelect 0 SigLeader, EvHeartBeat 0, EvSelect 2 SigLeader, EvHeartBeat 2,
     EvStart 0 (Some 10), EvStart 2 (Some 20), EvLeaderRound 0, EvTask 0, EvLeaderRound 2,
     EvDeliver 4, EvDeliver 4, EvTask 2, EvDeliver 4, EvDeliver 4]"

definition outcome :: "nat event list \<Rightarrow> (nat raft \<Rightarrow> 'b) \<Rightarrow> 'b list" where
  "outcome evs f = (case run_events evs (init_cluster 3) of
     Some (Inr C) \<Rightarrow> map f (nodes C) | _ \<Rightarrow> [])"

lemma outcome_reach:
  assumes "outcome evs f = xs" and "xs \<noteq> []"
  obtains C where "cluster_reach 3 C" and "map f (nodes C) = xs"
proof -
  obtain C where "run_events evs (init_cluster 3) = Some (Inr C)" "map f (nodes C) = xs"
    using assms by (auto simp: outcome_def split: option.splits sum.splits)
  with that run_events_reach [OF _ init_reach] show ?thesis by blast
qed

lemma split_run_outcome: "outcome split_run GetState = [(1, True), (1, False), (1, True)]"
  by code_simp

lemma diverge_run_outcome:
  "outcome diverge_run (\<lambda>rf. map (\<lambda>m. (CommandIndex m, ApplyCommand m)) (applyCh rf)) =
     [[(0, Some 10)], [], [(0, Some 20)]]"
  by code_simp

lemma applied_somewhere:
  obtains C :: "nat cluster" where "cluster_reach 3 C" and "applyCh (nodes C ! 0) \<noteq> []"
proof -
  obtain C :: "nat cluster" where "cluster_reach 3 C"
    and m: "map (\<lambda>rf. map (\<lambda>m. (CommandIndex m, ApplyCommand m)) (applyCh rf)) (nodes C) =
      [[(0, Some 10)], [], [(0, Some 20)]]"
    by (rule outcome_reach [OF diverge_run_outcome]) simp
  moreover from m have "applyCh (nodes C ! 0) \<noteq> []" by auto
  ultimately show ?thesis using that by blast
qed

section \<open>Properties\<close>

lemma reach_node_inv: "cluster_reach n C \<Longrightarrow> i < n \<Longrightarrow> node_inv n i (nodes C ! i)"
  using reach_cluster_inv cluster_inv_node by blast







text \<open>
  C24: what a peer has sent on its apply channel is gapless and in order: the indices are
  \<open>0, 1, 2, ...\<close> up to the last one applied. So no index is applied twice and none is skipped
  between two restarts.
\<close>

theorem applied_in_order:
  assumes "cluster_reach n C" and "i < n"
  shows "map CommandIndex (applyCh (nodes C ! i)) = [0..lastApplied (nodes C ! i)]"
  using reach_node_inv [OF assms] by (simp add: node_inv_def)

theorem applied_in_order_witness:
  "\<exists>C :: nat cluster. cluster_reach 3 C \<and> applyCh (nodes C ! 0) \<noteq> [] \<and>
     map CommandIndex (applyCh (nodes C ! 0)) = [0..lastApplied (nodes C ! 0)]"
proof -
  obtain C :: "nat cluster" where "cluster_reach 3 C" and "applyCh (nodes C ! 0) \<noteq> []"
    by (rule applied_somewhere)
  then show ?thesis using applied_in_order [of 3 C 0] by auto
qed

text \<open>
  C34: the code as written does not keep election safety: a state of three peers is reachable in which
  two of them report to be the leader of the same term.
\<close>

theorem two_leaders_in_one_term:
  "\<exists>C :: nat cluster. cluster_reach 3 C \<and>
     GetState (nodes C ! 0) = (1, True) \<and> GetState (nodes C ! 2) = (1, True)"
proof -
  obtain C :: "nat cluster" where "cluster_reach 3 C" and m: "map GetState (nodes C) = [(1, True), (1, False), (1, True)]"
    by (rule outcome_reach [OF split_run_outcome]) simp
  moreover from m have "GetState (nodes C ! 0) = (1, True)" "GetState (nodes C ! 2) = (1, True)"
    by auto
  ultimately show ?thesis by blast
qed


end
