(* ===== verification/ElectionSafety.thy ===== *)
theory ElectionSafety
  imports Moves
begin

text \<open>
  Election safety: at most one leader in a term. \<^verbatim>\<open>Task5/raft/raft.go\<close> does not guarantee it (a
  peer can lose its vote within a term), so the theorem is about the runs in which two things that
  Raft asks for hold at every step: a peer gives up a vote within a term only if the vote is its own
  and it is no longer in the race, and a candidate asks for votes once in a term. The proof keeps a
  record of the votes granted and of the votes counted.
\<close>

section \<open>What Raft asks for\<close>

definition vote_kept :: "'c raft \<Rightarrow> 'c raft \<Rightarrow> bool" where
  "vote_kept rf rf' \<longleftrightarrow> currentTerm rf' \<noteq> currentTerm rf \<or> votedFor rf = -1 \<or>
     votedFor rf' = votedFor rf \<or> votedFor rf = int (me rf) \<and> state rf' = Follower"

definition round_key :: "vote_round \<Rightarrow> nat \<times> int" where
  "round_key r = (round_owner r, rv_Term (round_args r))"

definition one_round_per_term :: "'c cluster \<Rightarrow> bool" where
  "one_round_per_term C \<longleftrightarrow> distinct (map round_key (rounds C))"

definition careful_next :: "'c cluster \<Rightarrow> 'c cluster \<Rightarrow> bool" where
  "careful_next C C' \<longleftrightarrow> cluster_next C C' \<and> one_round_per_term C' \<and>
     (\<forall>i < length (nodes C). vote_kept (nodes C ! i) (nodes C' ! i))"

definition careful_reach :: "nat \<Rightarrow> 'c cluster \<Rightarrow> bool" where
  "careful_reach n = reach (\<lambda>C. C = init_cluster n) careful_next"

text \<open>A sequence of events in which every step is checked; \<open>None\<close>: a step is not careful.\<close>

fun careful_run :: "'c event list \<Rightarrow> 'c cluster \<Rightarrow> 'c cluster option" where
  "careful_run [] C = Some C"
| "careful_run (ev # evs) C =
     (case cluster_step ev C of
        Some (Inr C') \<Rightarrow>
          if one_round_per_term C' \<and> list_all2 vote_kept (nodes C) (nodes C') then careful_run evs C'
          else None
      | _ \<Rightarrow> None)"

lemma careful_run_reach:
  assumes "careful_run evs C = Some C'" and "careful_reach n C"
  shows "careful_reach n C'"
  using assms
proof (induction evs arbitrary: C)
  case (Cons ev evs)
  from Cons.prems(1) obtain D where D: "cluster_step ev C = Some (Inr D)" "one_round_per_term D"
    "list_all2 vote_kept (nodes C) (nodes D)" "careful_run evs D = Some C'"
    by (auto split: option.splits sum.splits if_splits)
  then have "careful_next C D"
    by (auto simp: careful_next_def cluster_next_def list_all2_conv_all_nth)
  then have "careful_reach n D"
    using Cons.prems(2) unfolding careful_reach_def by (rule reach.reach_step [rotated])
  with D(4) show ?case by (rule Cons.IH)
qed simp

section \<open>Moves that count no vote\<close>

text \<open>
  All moves but the handling of a vote reply: a candidate after the move was one before with the same
  count, or has just entered a new term; a leader after it was one before.
\<close>

definition quiet :: "'c raft \<Rightarrow> 'c raft \<Rightarrow> bool" where
  "quiet rf rf' \<longleftrightarrow> me rf' = me rf \<and> currentTerm rf \<le> currentTerm rf' \<and>
     (state rf' = Leader \<longrightarrow> state rf = Leader \<and> currentTerm rf' = currentTerm rf) \<and>
     (state rf' = Candidate \<longrightarrow>
        state rf = Candidate \<and> currentTerm rf' = currentTerm rf \<and> voteGranted rf' = voteGranted rf \<or>
        currentTerm rf' = currentTerm rf + 1 \<and> voteGranted rf' = 1 \<and> votedFor rf' = int (me rf))"

lemma quiet_refl [simp]: "quiet rf rf"
  by (simp add: quiet_def)

lemma quiet_Start: "quiet rf (fst (Start rf c))"
  by (simp add: quiet_def Start_def Let_def)

lemma quiet_top: "quiet rf (fst (heartBeat_top rf))"
  by (simp add: quiet_def heartBeat_top_def Let_def)

lemma quiet_follower: "heartBeat_follower rf sg = Some rf' \<Longrightarrow> quiet rf rf'"
  by (cases sg) (auto simp: quiet_def split: if_splits)

lemma quiet_candidate: "heartBeat_candidate rf sg = Some rf' \<Longrightarrow> quiet rf rf'"
  by (cases sg) (auto simp: quiet_def Let_def split: if_splits)

lemma RequestVote_count:
  "\<not> currentTerm rf < rv_Term args \<Longrightarrow> voteGranted (fst (RequestVote rf args)) = voteGranted rf"
  by (simp add: RequestVote_def Let_def)

lemma quiet_RequestVote: "quiet rf (fst (RequestVote rf args))"
  by (simp add: quiet_def RequestVote_term RequestVote_state RequestVote_count)

lemma AppendEntries_count:
  assumes "AppendEntries rf args = Inr (rf', reply)" and "-1 \<le> lastApplied rf"
    and "\<not> currentTerm rf < ae_Term args"
  shows "voteGranted rf' = voteGranted rf"
  using assms(1,2)
proof (cases rule: AppendEntries_cases)
  case (accepted lg)
  with assms(3) show ?thesis by (simp add: ae_accepted_def ae_adopt_def Let_def)
next
  case (refused ci ct)
  with assms(3) show ?thesis by (simp add: ae_adopt_def)
qed

lemma quiet_AppendEntries:
  assumes "AppendEntries rf args = Inr (rf', reply)" and "node_inv n i rf" and "node_inv n i rf'"
  shows "quiet rf rf'"
proof -
  have la: "-1 \<le> lastApplied rf" using assms(2) by (simp add: node_inv_def)
  from AppendEntries_role [OF assms(1) la] AppendEntries_count [OF assms(1) la] assms(2,3)
  show ?thesis by (auto simp: quiet_def node_inv_def)
qed

lemma quiet_handleAppendReply:
  assumes "handleAppendReply rf j args reply = Inr (rf', again)" and "node_inv n i rf" and "node_inv n i rf'"
  shows "quiet rf rf'"
proof -
  have "-1 \<le> lastApplied rf" "me rf' = me rf" using assms(2,3) by (simp_all add: node_inv_def)
  with handleAppendReply_role [OF assms(1)] show ?thesis by (auto simp: quiet_def)
qed

lemma quiet_restart:
  assumes "node_inv n i rf"
  shows "quiet rf (Make (peers rf) i (restart_persister (persister rf)))"
proof -
  have d: "durable rf" "me rf = i" using assms by (simp_all add: node_inv_def)
  show ?thesis using d(2) by (simp add: quiet_def restart_fields(1) [OF d(1)])
qed

section \<open>The record of votes\<close>

text \<open>The votes under way: the round and the voter of every vote request and vote reply.\<close>

fun vote_keys :: "'c rpc list \<Rightarrow> (nat \<times> nat) list" where
  "vote_keys [] = []"
| "vote_keys (VoteReq b i j args # ms) = (b, j) # vote_keys ms"
| "vote_keys (VoteRep b i j reply # ms) = (b, j) # vote_keys ms"
| "vote_keys (m # ms) = vote_keys ms"

lemma vote_keys_append [simp]: "vote_keys (xs @ ys) = vote_keys xs @ vote_keys ys"
  by (induction xs rule: vote_keys.induct) auto

lemma set_vote_keys:
  "(b, j) \<in> set (vote_keys ms) \<longleftrightarrow>
     (\<exists>i args. VoteReq b i j args \<in> set ms) \<or> (\<exists>i reply. VoteRep b i j reply \<in> set ms)"
  by (induction ms rule: vote_keys.induct) auto

lemma remove_at_split:
  assumes "k < length xs"
  obtains ys zs where "xs = ys @ (xs ! k) # zs" and "remove_at k xs = ys @ zs"
  using assms id_take_nth_drop [of k xs] by (auto simp: remove_at_def)

text \<open>
  \<open>G p t\<close> is the other peer that \<open>p\<close> has voted for in term \<open>t\<close>, \<open>W b\<close> the voters whose votes
  round \<open>b\<close> has counted.
\<close>

definition granted_ok :: "nat \<Rightarrow> 'c raft list \<Rightarrow> (nat \<Rightarrow> int \<Rightarrow> nat option) \<Rightarrow> bool" where
  "granted_ok n rs G \<longleftrightarrow> (\<forall>p t c. G p t = Some c \<longrightarrow>
     p < n \<and> c \<noteq> p \<and> t \<le> currentTerm (rs ! p) \<and>
     (t = currentTerm (rs ! p) \<longrightarrow> votedFor (rs ! p) = int c \<and> state (rs ! p) = Follower))"

definition own_votes :: "nat \<Rightarrow> 'c raft list \<Rightarrow> bool" where
  "own_votes n rs \<longleftrightarrow> (\<forall>i < n. state (rs ! i) \<noteq> Follower \<longrightarrow> votedFor (rs ! i) = int i)"

definition rounds_ok ::
  "nat \<Rightarrow> vote_round list \<Rightarrow> (nat \<Rightarrow> int \<Rightarrow> nat option) \<Rightarrow> (nat \<Rightarrow> nat set) \<Rightarrow> bool" where
  "rounds_ok n rds G W \<longleftrightarrow> (\<forall>b < length rds. round_owner (rds ! b) < n \<and>
     CandidateID (round_args (rds ! b)) = int (round_owner (rds ! b)) \<and>
     W b \<subseteq> {p. G p (rv_Term (round_args (rds ! b))) = Some (round_owner (rds ! b))})"

fun vote_msg_ok :: "nat \<Rightarrow> vote_round list \<Rightarrow> (nat \<Rightarrow> int \<Rightarrow> nat option) \<Rightarrow> 'c rpc \<Rightarrow> bool" where
  "vote_msg_ok n rds G (VoteReq b i j args) \<longleftrightarrow>
     b < length rds \<and> i = round_owner (rds ! b) \<and> args = round_args (rds ! b) \<and> j < n \<and> j \<noteq> i"
| "vote_msg_ok n rds G (VoteRep b i j reply) \<longleftrightarrow>
     b < length rds \<and> i = round_owner (rds ! b) \<and>
     (VoteGranted reply \<longrightarrow> G j (rv_Term (round_args (rds ! b))) = Some i)"
| "vote_msg_ok n rds G m \<longleftrightarrow> True"

definition msgs_ok ::
  "nat \<Rightarrow> 'c cluster \<Rightarrow> (nat \<Rightarrow> int \<Rightarrow> nat option) \<Rightarrow> (nat \<Rightarrow> nat set) \<Rightarrow> bool" where
  "msgs_ok n C G W \<longleftrightarrow> distinct (vote_keys (rpcs C)) \<and>
     (\<forall>(b, j) \<in> set (vote_keys (rpcs C)). j \<notin> W b) \<and>
     (\<forall>m \<in> set (rpcs C). vote_msg_ok n (rounds C) G m)"

text \<open>The rounds of a peer in a term.\<close>

definition rounds_of :: "vote_round list \<Rightarrow> nat \<Rightarrow> int \<Rightarrow> nat set" where
  "rounds_of rds i t = {b. b < length rds \<and> round_key (rds ! b) = (i, t)}"

definition backers :: "(nat \<Rightarrow> int \<Rightarrow> nat option) \<Rightarrow> nat \<Rightarrow> int \<Rightarrow> nat set" where
  "backers G i t = {p. p = i \<or> G p t = Some i}"

definition counts_ok ::
  "nat \<Rightarrow> 'c cluster \<Rightarrow> (nat \<Rightarrow> int \<Rightarrow> nat option) \<Rightarrow> (nat \<Rightarrow> nat set) \<Rightarrow> bool" where
  "counts_ok n C G W \<longleftrightarrow> (\<forall>i < n.
     (state (nodes C ! i) = Candidate \<longrightarrow> voteGranted (nodes C ! i) \<le>
        1 + int (card (\<Union>b \<in> rounds_of (rounds C) i (currentTerm (nodes C ! i)). W b))) \<and>
     (state (nodes C ! i) = Leader \<longrightarrow> majority n (backers G i (currentTerm (nodes C ! i)))))"

definition vote_record ::
  "nat \<Rightarrow> 'c cluster \<Rightarrow> (nat \<Rightarrow> int \<Rightarrow> nat option) \<Rightarrow> (nat \<Rightarrow> nat set) \<Rightarrow> bool" where
  "vote_record n C G W \<longleftrightarrow> granted_ok n (nodes C) G \<and> own_votes n (nodes C) \<and>
     rounds_ok n (rounds C) G W \<and> msgs_ok n C G W \<and> counts_ok n C G W"

definition election_inv :: "nat \<Rightarrow> 'c cluster \<Rightarrow> bool" where
  "election_inv n C \<longleftrightarrow> cluster_inv n C \<and> one_round_per_term C \<and> (\<exists>G W. vote_record n C G W)"

section \<open>Two leaders of a term are the same\<close>

lemma one_leader:
  assumes rec: "vote_record n C G W" and ij: "i < n" "j < n"
    and lead: "state (nodes C ! i) = Leader" "state (nodes C ! j) = Leader"
    and t: "currentTerm (nodes C ! i) = currentTerm (nodes C ! j)"
  shows "i = j"
proof (rule ccontr)
  assume neq: "i \<noteq> j"
  let ?t = "currentTerm (nodes C ! i)"
  have "majority n (backers G i ?t)" "majority n (backers G j ?t)"
    using rec ij lead t by (auto simp: vote_record_def counts_ok_def)
  then obtain p where p: "p \<in> backers G i ?t" "p \<in> backers G j ?t"
    using votes.quorum_meet by blast
  have "G i ?t = None" "G j ?t = None"
    using rec lead t unfolding vote_record_def granted_ok_def
    by (metis not_None_eq role.distinct(3,5))+
  with p neq show False by (auto simp: backers_def)
qed

section \<open>Keeping the record\<close>

lemma distinct_vote_keys_filter:
  "set (vote_keys (filter P ms)) \<subseteq> set (vote_keys ms)"
  "distinct (vote_keys ms) \<Longrightarrow> distinct (vote_keys (filter P ms))"
  by (induction ms rule: vote_keys.induct) auto

lemma vote_keys_remove_at:
  assumes "k < length ms"
  shows "set (vote_keys (remove_at k ms)) \<subseteq> set (vote_keys ms)"
    and "distinct (vote_keys ms) \<Longrightarrow> distinct (vote_keys (remove_at k ms))"
proof -
  obtain ys zs where "ms = ys @ (ms ! k) # zs" "remove_at k ms = ys @ zs"
    using assms by (rule remove_at_split)
  moreover from this have "vote_keys ms = vote_keys ys @ vote_keys [ms ! k] @ vote_keys zs"
    by (metis append.left_neutral append_Cons vote_keys_append)
  ultimately show "set (vote_keys (remove_at k ms)) \<subseteq> set (vote_keys ms)"
    and "distinct (vote_keys ms) \<Longrightarrow> distinct (vote_keys (remove_at k ms))"
    by auto
qed

lemma vote_keys_no_vote: "vote_keys [m] = [] \<Longrightarrow> vote_msg_ok n rds G m"
  by (cases m) auto

lemma granted_ok_quiet:
  assumes G: "granted_ok n rs G" and i: "i < n" "length rs = n" "me (rs ! i) = i"
    and q: "quiet (rs ! i) rf'" and kept: "vote_kept (rs ! i) rf'"
  shows "granted_ok n (rs[i := rf']) G"
  unfolding granted_ok_def
proof (intro allI impI)
  fix p t c
  assume g: "G p t = Some c"
  then have g': "p < n" "c \<noteq> p" "t \<le> currentTerm (rs ! p)"
    "t = currentTerm (rs ! p) \<longrightarrow> votedFor (rs ! p) = int c \<and> state (rs ! p) = Follower"
    using G unfolding granted_ok_def by blast+
  show "p < n \<and> c \<noteq> p \<and> t \<le> currentTerm (rs[i := rf'] ! p) \<and>
    (t = currentTerm (rs[i := rf'] ! p) \<longrightarrow>
      votedFor (rs[i := rf'] ! p) = int c \<and> state (rs[i := rf'] ! p) = Follower)"
  proof (cases "p = i")
    case True
    with g' i q kept show ?thesis by (cases "state rf'") (auto simp: quiet_def vote_kept_def)
  next
    case False
    with g' show ?thesis by simp
  qed
qed

lemma own_votes_quiet:
  assumes "own_votes n rs" and "i < n" "length rs = n" "me (rs ! i) = i"
    and "quiet (rs ! i) rf'" and "vote_kept (rs ! i) rf'"
  shows "own_votes n (rs[i := rf'])"
  unfolding own_votes_def
proof (intro allI impI)
  fix k
  assume "k < n" "state (rs[i := rf'] ! k) \<noteq> Follower"
  then show "votedFor (rs[i := rf'] ! k) = int k"
    using assms by (cases "k = i"; cases "state rf'")
      (auto simp: own_votes_def quiet_def vote_kept_def)
qed

lemma counts_ok_quiet:
  assumes "counts_ok n C G W" and "i < n" "length (nodes C) = n" and "quiet (nodes C ! i) rf'"
    and "nodes C' = (nodes C)[i := rf']" "rounds C' = rounds C"
  shows "counts_ok n C' G W"
  unfolding counts_ok_def
proof (intro allI impI)
  fix k
  assume k: "k < n"
  show "(state (nodes C' ! k) = Candidate \<longrightarrow> voteGranted (nodes C' ! k) \<le>
        1 + int (card (\<Union>b \<in> rounds_of (rounds C') k (currentTerm (nodes C' ! k)). W b))) \<and>
     (state (nodes C' ! k) = Leader \<longrightarrow> majority n (backers G k (currentTerm (nodes C' ! k))))"
    using assms k by (cases "k = i") (auto simp: counts_ok_def quiet_def)
qed

text \<open>A peer moves without counting a vote, and the vote messages at most get fewer.\<close>

lemma record_quiet:
  assumes rec: "vote_record n C G W" and inv: "cluster_inv n C" and i: "i < n"
    and q: "quiet (nodes C ! i) rf'" and kept: "vote_kept (nodes C ! i) rf'"
    and C': "nodes C' = (nodes C)[i := rf']" "rounds C' = rounds C"
    and ms: "distinct (vote_keys (rpcs C'))" "set (vote_keys (rpcs C')) \<subseteq> set (vote_keys (rpcs C))"
      "\<forall>m \<in> set (rpcs C'). m \<in> set (rpcs C) \<or> vote_keys [m] = []"
  shows "vote_record n C' G W"
proof -
  have len: "length (nodes C) = n" "me (nodes C ! i) = i"
    using inv i by (auto simp: cluster_inv_def node_inv_def)
  have "vote_msg_ok n (rounds C) G m" if "m \<in> set (rpcs C')" for m
    using rec ms(3) that vote_keys_no_vote unfolding vote_record_def msgs_ok_def by blast
  with rec ms C'(2) have "msgs_ok n C' G W"
    by (auto simp: vote_record_def msgs_ok_def)
  moreover have "granted_ok n (nodes C') G" "own_votes n (nodes C')"
    using rec granted_ok_quiet [OF _ i len q kept] own_votes_quiet [OF _ i len q kept]
    by (auto simp: C' vote_record_def)
  moreover have "counts_ok n C' G W"
    using rec counts_ok_quiet [OF _ i len(1) q C'] by (simp add: vote_record_def)
  ultimately show ?thesis using rec C'(2) by (simp add: vote_record_def)
qed

section \<open>Granting a vote\<close>

definition extends :: "(nat \<Rightarrow> int \<Rightarrow> nat option) \<Rightarrow> (nat \<Rightarrow> int \<Rightarrow> nat option) \<Rightarrow> bool" where
  "extends G G' \<longleftrightarrow> (\<forall>p t c. G p t = Some c \<longrightarrow> G' p t = Some c)"

lemma extends_msg: "extends G G' \<Longrightarrow> vote_msg_ok n rds G m \<Longrightarrow> vote_msg_ok n rds G' m"
  by (cases m) (auto simp: extends_def)

lemma backers_sub: "granted_ok n rs G \<Longrightarrow> i < n \<Longrightarrow> backers G i t \<subseteq> {0..<n}"
  by (auto simp: backers_def granted_ok_def)

lemma majority_mono: "majority n A \<Longrightarrow> A \<subseteq> B \<Longrightarrow> B \<subseteq> {0..<n} \<Longrightarrow> majority n B"
  using card_mono [of B A] finite_subset [of B "{0..<n}"] by (auto simp: majority_def)

lemma record_extends:
  assumes rec: "vote_record n C G W" and ext: "extends G G'" and G': "granted_ok n (nodes C) G'"
  shows "vote_record n C G' W"
proof -
  have "rounds_ok n (rounds C) G' W"
    using rec ext unfolding vote_record_def rounds_ok_def extends_def by blast
  moreover have "msgs_ok n C G' W"
    using rec by (auto simp: vote_record_def msgs_ok_def intro: extends_msg [OF ext])
  moreover have "majority n (backers G' i t)" if "i < n" "majority n (backers G i t)" for i t
    using that(2) ext backers_sub [OF G' that(1)]
    by (elim majority_mono) (auto simp: backers_def extends_def)
  then have "counts_ok n C G' W"
    using rec by (auto simp: vote_record_def counts_ok_def)
  ultimately show ?thesis using rec G' by (simp add: vote_record_def)
qed

text \<open>After a granted request the vote can be entered into the record.\<close>

lemma record_grant:
  assumes rec: "vote_record n C G W" and j: "j < n" "i \<noteq> j" "length (nodes C) = n"
    and vf: "votedFor (nodes C ! j) = int i" "state (nodes C ! j) = Follower"
  defines "G' \<equiv> G(j := (G j)(currentTerm (nodes C ! j) := Some i))"
  shows "vote_record n C G' W" and "extends G G'"
proof -
  have G: "granted_ok n (nodes C) G" using rec by (simp add: vote_record_def)
  have "G j (currentTerm (nodes C ! j)) = Some c \<Longrightarrow> c = i" for c
    using G vf(1) unfolding granted_ok_def by (metis of_nat_eq_iff)
  then show ext: "extends G G'" by (auto simp: extends_def G'_def)
  have "granted_ok n (nodes C) G'"
    using G j vf by (auto simp: granted_ok_def G'_def)
  with rec ext show "vote_record n C G' W" by (rule record_extends)
qed

section \<open>Counting a vote\<close>

lemma finite_W:
  assumes "vote_record n C G W" and "b < length (rounds C)"
  shows "W b \<subseteq> {0..<n}" and "round_owner (rounds C ! b) \<notin> W b" and "finite (W b)"
proof -
  let ?o = "round_owner (rounds C ! b)" and ?t = "rv_Term (round_args (rounds C ! b))"
  have "W b \<subseteq> {p. G p ?t = Some ?o}"
    using assms by (auto simp: vote_record_def rounds_ok_def)
  moreover have "p < n \<and> p \<noteq> ?o" if "G p ?t = Some ?o" for p
    using assms(1) that by (auto simp: vote_record_def granted_ok_def)
  ultimately show "W b \<subseteq> {0..<n}" "?o \<notin> W b" by auto
  then show "finite (W b)" by (blast intro: finite_subset)
qed

lemma rounds_of_unique:
  assumes "one_round_per_term C" and "b < length (rounds C)" and "round_key (rounds C ! b) = (i, t)"
  shows "rounds_of (rounds C) i t = {b}"
proof -
  have "c = b" if "c < length (rounds C)" "round_key (rounds C ! c) = (i, t)" for c
    using assms that nth_eq_iff_index_eq [of "map round_key (rounds C)" c b]
    by (simp add: one_round_per_term_def)
  with assms(2,3) show ?thesis unfolding rounds_of_def by blast
qed

lemma rounds_of_update:
  assumes "b < length rds"
  shows "rounds_of (rds[b := (rds ! b)\<lparr>round_nLeader := k\<rparr>]) i t = rounds_of rds i t"
  using assms by (auto simp: rounds_of_def round_key_def nth_list_update)

lemma counted_sub:
  assumes "vote_record n C G W" and "b < length (rounds C)" and "round_key (rounds C ! b) = (i, t)"
  shows "W b \<subseteq> {p. G p t = Some i}"
  using assms unfolding vote_record_def rounds_ok_def round_key_def by fastforce

lemma rounds_ok_counted:
  assumes "rounds_ok n rds G W" and "b < length rds"
    and "G j (rv_Term (round_args (rds ! b))) = Some (round_owner (rds ! b))"
  shows "rounds_ok n (rds[b := (rds ! b)\<lparr>round_nLeader := k\<rparr>]) G (W(b := insert j (W b)))"
  using assms by (simp add: rounds_ok_def nth_list_update)

lemma vote_msg_ok_nLeader:
  "b < length rds \<Longrightarrow>
   vote_msg_ok n (rds[b := (rds ! b)\<lparr>round_nLeader := k\<rparr>]) G m = vote_msg_ok n rds G m"
  by (cases m) (simp_all add: nth_list_update)

text \<open>A candidate that has no vote of its own in the record goes on in the same term.\<close>

lemma granted_ok_same_term:
  assumes G: "granted_ok n rs G" and i: "i < length rs" "G i (currentTerm (rs ! i)) = None"
    and rf': "currentTerm rf' = currentTerm (rs ! i)"
  shows "granted_ok n (rs[i := rf']) G"
  unfolding granted_ok_def
proof (intro allI impI)
  fix p t c
  assume g: "G p t = Some c"
  with G have "p < n \<and> c \<noteq> p \<and> t \<le> currentTerm (rs ! p) \<and>
     (t = currentTerm (rs ! p) \<longrightarrow> votedFor (rs ! p) = int c \<and> state (rs ! p) = Follower)"
    unfolding granted_ok_def by blast
  with g i rf' show "p < n \<and> c \<noteq> p \<and> t \<le> currentTerm (rs[i := rf'] ! p) \<and>
    (t = currentTerm (rs[i := rf'] ! p) \<longrightarrow>
      votedFor (rs[i := rf'] ! p) = int c \<and> state (rs[i := rf'] ! p) = Follower)"
    by (cases "p = i") auto
qed

lemma counts_after:
  assumes rec: "vote_record n C G W" and one: "one_round_per_term C"
    and b: "b < length (rounds C)" "round_key (rounds C ! b) = (i, currentTerm (nodes C ! i))"
    and j: "G j (currentTerm (nodes C ! i)) = Some i" "j \<notin> W b"
    and i: "i < n" and cand: "state (nodes C ! i) = Candidate"
    and rf': "currentTerm rf' = currentTerm (nodes C ! i)"
      "voteGranted rf' = voteGranted (nodes C ! i) + 1"
      "state rf' = Candidate \<or> state rf' = Leader \<and> int n < 2 * voteGranted rf'"
    and C': "nodes C' = (nodes C)[i := rf']" "rounds C' = (rounds C)[b := (rounds C ! b)\<lparr>round_nLeader := k\<rparr>]"
    and len: "length (nodes C) = n"
  shows "counts_ok n C' G (W(b := insert j (W b)))"
proof -
  let ?W = "W(b := insert j (W b))" and ?t = "currentTerm (nodes C ! i)"
  have own: "round_owner (rounds C ! b) = i" "rv_Term (round_args (rounds C ! b)) = ?t"
    using b(2) by (simp_all add: round_key_def)
  have G: "granted_ok n (nodes C) G" using rec by (simp add: vote_record_def)
  have cnt: "voteGranted (nodes C ! i) \<le> 1 + int (card (W b))"
    using rec i cand rounds_of_unique [OF one b] by (auto simp: vote_record_def counts_ok_def)
  have fin: "finite (W b)" using finite_W [OF rec b(1)] by simp
  have cnt': "voteGranted rf' \<le> 1 + int (card (insert j (W b)))"
    using cnt j(2) fin rf'(2) by simp
  have "insert i (insert j (W b)) \<subseteq> backers G i ?t"
    using j(1) counted_sub [OF rec b] by (auto simp: backers_def)
  moreover have "i \<notin> insert j (W b)"
    using finite_W(2) [OF rec b(1)] own(1) G j(1) by (auto simp: granted_ok_def)
  ultimately have lead: "majority n (backers G i ?t)" if "int n < 2 * voteGranted rf'"
    using that cnt' fin backers_sub [OF G i, of ?t] card_mono [of "backers G i ?t" "insert i (insert j (W b))"]
    by (auto simp: majority_def finite_subset)
  have other: "(\<Union>c \<in> rounds_of (rounds C) m t. ?W c) = (\<Union>c \<in> rounds_of (rounds C) m t. W c)"
    if "m \<noteq> i" for m t
    using that own(1) by (auto simp: rounds_of_def round_key_def)
  have me: "(\<Union>c \<in> rounds_of (rounds C) i ?t. ?W c) = insert j (W b)"
    using rounds_of_unique [OF one b] by simp
  show ?thesis
    unfolding counts_ok_def
  proof (intro allI impI)
    fix m
    assume m: "m < n"
    show "(state (nodes C' ! m) = Candidate \<longrightarrow> voteGranted (nodes C' ! m) \<le>
          1 + int (card (\<Union>c \<in> rounds_of (rounds C') m (currentTerm (nodes C' ! m)). ?W c))) \<and>
       (state (nodes C' ! m) = Leader \<longrightarrow> majority n (backers G m (currentTerm (nodes C' ! m))))"
    proof (cases "m = i")
      case True
      then show ?thesis
        using cnt' lead rf' len i me unfolding C' rounds_of_update [OF b(1)] by auto
    next
      case False
      then show ?thesis
        using rec m unfolding C' rounds_of_update [OF b(1)] other [OF False]
        by (simp add: vote_record_def counts_ok_def)
    qed
  qed
qed

lemma msgs_ok_counted:
  assumes rec: "vote_record n C G W" and b: "b < length (rounds C)"
    and C': "rounds C' = (rounds C)[b := (rounds C ! b)\<lparr>round_nLeader := k\<rparr>]"
    and ms: "distinct (vote_keys (rpcs C'))" "set (rpcs C') \<subseteq> set (rpcs C)"
      "(b, j) \<notin> set (vote_keys (rpcs C'))" "set (vote_keys (rpcs C')) \<subseteq> set (vote_keys (rpcs C))"
  shows "msgs_ok n C' G (W(b := insert j (W b)))"
proof -
  have "vote_msg_ok n (rounds C') G m" if "m \<in> set (rpcs C')" for m
    using rec ms(2) that by (auto simp: vote_record_def msgs_ok_def C' vote_msg_ok_nLeader [OF b])
  moreover have "c \<notin> (W(b := insert j (W b))) a" if "(a, c) \<in> set (vote_keys (rpcs C'))" for a c
  proof -
    have "(a, c) \<in> set (vote_keys (rpcs C))" "(a, c) \<noteq> (b, j)" using that ms(3,4) by auto
    then show ?thesis using rec by (auto simp: vote_record_def msgs_ok_def)
  qed
  ultimately show ?thesis using ms(1) by (auto simp: msgs_ok_def)
qed

text \<open>A reply is counted: the voter joins the votes counted for its round.\<close>

lemma record_count:
  assumes rec: "vote_record n C G W" and inv: "cluster_inv n C" and one: "one_round_per_term C"
    and b: "b < length (rounds C)" "round_key (rounds C ! b) = (i, currentTerm (nodes C ! i))"
    and j: "G j (currentTerm (nodes C ! i)) = Some i" "j \<notin> W b"
    and i: "i < n" and cand: "state (nodes C ! i) = Candidate"
    and rf': "currentTerm rf' = currentTerm (nodes C ! i)" "votedFor rf' = votedFor (nodes C ! i)"
      "voteGranted rf' = voteGranted (nodes C ! i) + 1"
      "state rf' = Candidate \<or> state rf' = Leader \<and> int n < 2 * voteGranted rf'"
    and C': "nodes C' = (nodes C)[i := rf']" "rounds C' = (rounds C)[b := (rounds C ! b)\<lparr>round_nLeader := k\<rparr>]"
    and ms: "distinct (vote_keys (rpcs C'))" "set (rpcs C') \<subseteq> set (rpcs C)"
      "(b, j) \<notin> set (vote_keys (rpcs C'))" "set (vote_keys (rpcs C')) \<subseteq> set (vote_keys (rpcs C))"
  shows "vote_record n C' G (W(b := insert j (W b)))"
proof -
  let ?W = "W(b := insert j (W b))" and ?t = "currentTerm (nodes C ! i)"
  have len: "length (nodes C) = n" using inv by (simp add: cluster_inv_def)
  have own: "round_owner (rounds C ! b) = i" "rv_Term (round_args (rounds C ! b)) = ?t"
    using b(2) by (simp_all add: round_key_def)
  have G: "granted_ok n (nodes C) G" using rec by (simp add: vote_record_def)
  have "G i ?t = None" using G cand unfolding granted_ok_def by (metis not_None_eq role.distinct(1))
  with rf'(1) len i have "granted_ok n (nodes C') G"
    unfolding C' by (intro granted_ok_same_term [OF G]) simp_all
  moreover have "own_votes n (nodes C')"
    using rec cand rf'(2) len i by (simp add: vote_record_def own_votes_def C' nth_list_update)
  moreover have "rounds_ok n (rounds C') G ?W"
    using rec j(1) own b(1) unfolding C'
    by (intro rounds_ok_counted) (simp_all add: vote_record_def)
  moreover have "msgs_ok n C' G ?W"
    by (rule msgs_ok_counted [OF rec b(1) C'(2) ms])
  moreover have "counts_ok n C' G ?W"
    by (rule counts_after [OF rec one b j i cand rf'(1,3,4) C' len])
  ultimately show ?thesis by (simp add: vote_record_def)
qed

section \<open>Starting a round\<close>

lemma vote_keys_round: "vote_keys (map (\<lambda>j. VoteReq b i j args) js) = map (Pair b) js"
  by (induction js) auto

lemma record_round:
  assumes rec: "vote_record n C G W" and i: "i < n" "round_owner rd = i"
    "CandidateID (round_args rd) = int i"
    and js: "distinct js" "\<forall>j \<in> set js. j < n \<and> j \<noteq> i"
    and C': "nodes C' = nodes C" "rounds C' = rounds C @ [rd]"
      "rpcs C' = rpcs C @ map (\<lambda>j. VoteReq (length (rounds C)) i j (round_args rd)) js"
  shows "vote_record n C' G (W(length (rounds C) := {}))"
proof -
  let ?b = "length (rounds C)"
  have old: "b < ?b" if "(b, j) \<in> set (vote_keys (rpcs C))" for b j
    using rec that by (fastforce simp: vote_record_def msgs_ok_def set_vote_keys)
  have r: "rounds_ok n (rounds C') G (W(?b := {}))"
    using rec i by (auto simp: vote_record_def rounds_ok_def C' nth_append)
  have "vote_msg_ok n (rounds C') G m" if "vote_msg_ok n (rounds C) G m" for m
    using that by (cases m) (auto simp: C' nth_append)
  then have "\<forall>m \<in> set (rpcs C'). vote_msg_ok n (rounds C') G m"
    using rec i js by (auto simp: vote_record_def msgs_ok_def C'(2,3))
  moreover have "distinct (vote_keys (rpcs C'))"
    using rec js(1) old by (auto simp: vote_record_def msgs_ok_def C' vote_keys_round distinct_map inj_on_def)
  moreover have "\<forall>(b, j) \<in> set (vote_keys (rpcs C')). j \<notin> (W(?b := {})) b"
    using rec by (auto simp: vote_record_def msgs_ok_def C' vote_keys_round split: if_splits)
  ultimately have m: "msgs_ok n C' G (W(?b := {}))" by (simp add: msgs_ok_def)
  have "(\<Union>b \<in> rounds_of (rounds C') k t. (W(?b := {})) b) = (\<Union>b \<in> rounds_of (rounds C) k t. W b)" for k t
    by (auto simp: rounds_of_def C' nth_append less_Suc_eq)
  then have "counts_ok n C' G (W(?b := {}))"
    using rec by (simp add: vote_record_def counts_ok_def C'(1))
  with rec r m show ?thesis by (simp add: vote_record_def C'(1))
qed

section \<open>Every careful step keeps the record\<close>

lemma handleVoteReply_cases:
  assumes "handleVoteReply rf args reply k = (rf', k')"
  obtains (counted) "VoteGranted reply" "currentTerm rf = rv_Term args" "state rf = Candidate"
      "currentTerm rf' = currentTerm rf" "votedFor rf' = votedFor rf"
      "voteGranted rf' = voteGranted rf + 1"
      "state rf' = Candidate \<or> state rf' = Leader \<and> int (peers rf) < 2 * voteGranted rf'"
    | (quiet) "quiet rf rf'" "k' = k"
proof (cases "VoteGranted reply \<and> rvr_Term reply \<le> currentTerm rf \<and> currentTerm rf = rv_Term args \<and>
    state rf = Candidate")
  case True
  with assms show ?thesis
    by (intro that(1)) (auto simp: handleVoteReply_def Let_def split: if_splits)
next
  case False
  with assms show ?thesis
    by (intro that(2)) (auto simp: handleVoteReply_def Let_def quiet_def split: if_splits)
qed

lemma record_reply:
  assumes rec: "vote_record n C G W" and m: "vote_keys [m] = [(b, j)]"
    and new: "(b, j) \<notin> set (vote_keys (rpcs C))" "j \<notin> W b" "vote_msg_ok n (rounds C) G m"
    and C': "nodes C' = nodes C" "rounds C' = rounds C" "rpcs C' = rpcs C @ [m]"
  shows "vote_record n C' G W"
  using assms by (auto simp: vote_record_def msgs_ok_def counts_ok_def)

lemma vote_key_taken:
  assumes "k < length ms" and "distinct (vote_keys ms)" and "vote_keys [ms ! k] = [(b, j)]"
  shows "(b, j) \<notin> set (vote_keys (remove_at k ms))" and "(b, j) \<in> set (vote_keys ms)"
proof -
  obtain ys zs where "ms = ys @ (ms ! k) # zs" "remove_at k ms = ys @ zs"
    using assms(1) by (rule remove_at_split)
  moreover from this have "vote_keys ms = vote_keys ys @ vote_keys [ms ! k] @ vote_keys zs"
    by (metis append.left_neutral append_Cons vote_keys_append)
  ultimately show "(b, j) \<notin> set (vote_keys (remove_at k ms))" "(b, j) \<in> set (vote_keys ms)"
    using assms(2,3) by auto
qed

text \<open>A vote request is handled.\<close>

lemma record_VoteReq:
  assumes rec: "vote_record n C G W" and inv: "cluster_inv n C"
    and k: "k < length (rpcs C)" "rpcs C ! k = VoteReq b i j args"
    and del: "deliver (C\<lparr>rpcs := remove_at k (rpcs C)\<rparr>) (rpcs C ! k) = Inr C'"
    and kept: "\<forall>i < n. vote_kept (nodes C ! i) (nodes C' ! i)"
  shows "\<exists>G W. vote_record n C' G W"
proof -
  let ?rf = "fst (RequestVote (nodes C ! j) args)" and ?reply = "snd (RequestVote (nodes C ! j) args)"
  let ?t = "rv_Term args"
  let ?C1 = "C\<lparr>rpcs := remove_at k (rpcs C), nodes := (nodes C)[j := ?rf]\<rparr>"
  have msg: "b < length (rounds C)" "i = round_owner (rounds C ! b)" "args = round_args (rounds C ! b)"
    "j < n" "j \<noteq> i" and d: "distinct (vote_keys (rpcs C))"
    using rec k nth_mem [OF k(1)] by (auto simp: vote_record_def msgs_ok_def)
  have cid: "CandidateID args = int i" "i < n"
    using rec msg by (auto simp: vote_record_def rounds_ok_def)
  have len: "length (nodes C) = n" "me (nodes C ! j) = j"
    using inv msg(4) by (auto simp: cluster_inv_def node_inv_def)
  have C': "nodes C' = nodes ?C1" "rounds C' = rounds ?C1" "rpcs C' = rpcs ?C1 @ [VoteRep b i j ?reply]"
    using del k by (auto simp: split_def Let_def)
  have key: "vote_keys [rpcs C ! k] = [(b, j)]" using k(2) by simp
  note taken = vote_key_taken [OF k(1) d key]
  have rec1: "vote_record n ?C1 G W"
    using kept msg(4) len(1) vote_keys_remove_at [OF k(1)] d
    by (intro record_quiet [OF rec inv msg(4) quiet_RequestVote [of _ args]])
      (auto simp: C' dest: set_remove_at)
  have "\<exists>G'. vote_record n ?C1 G' W \<and> (VoteGranted ?reply \<longrightarrow> G' j ?t = Some i)"
  proof (cases "VoteGranted ?reply")
    case True
    then have g: "currentTerm (nodes C ! j) \<le> ?t" "votedFor ?rf = int i"
      "vote_at (nodes C ! j) ?t \<in> {-1, int i}"
      by (auto simp: RequestVote_granted_iff RequestVote_votedFor cid(1))
    have "state (nodes C ! j) = Follower" if "currentTerm (nodes C ! j) = ?t"
      using rec g(3) that msg(4,5) by (auto simp: vote_record_def own_votes_def vote_at_def)
    then have "state ?rf = Follower" "currentTerm ?rf = ?t"
      using g(1) by (auto simp: RequestVote_state RequestVote_term)
    with record_grant(1) [OF rec1, of j i] msg(4,5) g(2) len show ?thesis by fastforce
  qed (use rec1 in blast)
  then obtain G' where G': "vote_record n ?C1 G' W" "VoteGranted ?reply \<longrightarrow> G' j ?t = Some i" by blast
  have "j \<notin> W b" using rec taken(2) by (auto simp: vote_record_def msgs_ok_def)
  then have "vote_record n C' G' W"
    using taken(1) msg G'(2) by (intro record_reply [OF G'(1) _ _ _ _ C']) simp_all
  then show ?thesis by blast
qed

text \<open>A vote reply is handled.\<close>

lemma record_VoteRep:
  assumes rec: "vote_record n C G W" and inv: "cluster_inv n C" and one: "one_round_per_term C"
    and k: "k < length (rpcs C)" "rpcs C ! k = VoteRep b i j reply"
    and del: "deliver (C\<lparr>rpcs := remove_at k (rpcs C)\<rparr>) (rpcs C ! k) = Inr C'"
    and kept: "\<forall>i < n. vote_kept (nodes C ! i) (nodes C' ! i)"
  shows "\<exists>G W. vote_record n C' G W"
proof -
  let ?rd = "rounds C ! b"
  obtain rf' n' where h: "handleVoteReply (nodes C ! i) (round_args ?rd) reply (round_nLeader ?rd) = (rf', n')"
    by fastforce
  have msg: "b < length (rounds C)" "i = round_owner ?rd"
    "VoteGranted reply \<longrightarrow> G j (rv_Term (round_args ?rd)) = Some i" and d: "distinct (vote_keys (rpcs C))"
    using rec k nth_mem [OF k(1)] by (auto simp: vote_record_def msgs_ok_def)
  have i: "i < n" using rec msg(1,2) by (auto simp: vote_record_def rounds_ok_def)
  have peers: "peers (nodes C ! i) = n" "length (nodes C) = n"
    using inv i by (auto simp: cluster_inv_def node_inv_def)
  have C': "nodes C' = (nodes C)[i := rf']" "rpcs C' = remove_at k (rpcs C)"
    "rounds C' = (rounds C)[b := ?rd\<lparr>round_nLeader := n'\<rparr>]"
    using del k h by (auto simp: Let_def)
  have key: "vote_keys [rpcs C ! k] = [(b, j)]" using k(2) by simp
  note taken = vote_key_taken [OF k(1) d key]
  have j: "j \<notin> W b" using rec taken(2) by (auto simp: vote_record_def msgs_ok_def)
  note gone = vote_keys_remove_at [OF k(1)]
  from h show ?thesis
  proof (cases rule: handleVoteReply_cases)
    case counted
    have "vote_record n C' G (W(b := insert j (W b)))"
      by (rule record_count [OF rec inv one msg(1) _ _ j i counted(3,4,5,6) _ C'(1,3)])
        (use counted msg peers d gone taken in \<open>auto simp: round_key_def C'(2) dest: set_remove_at\<close>)
    then show ?thesis by blast
  next
    case quiet
    have "rounds C' = rounds C" using quiet(2) by (simp add: C'(3))
    then have "vote_record n C' G W"
      using kept i peers(2) d gone
      by (intro record_quiet [OF rec inv i quiet(1) _ C'(1)]) (auto simp: C'(1,2) dest: set_remove_at)
    then show ?thesis by blast
  qed
qed

text \<open>The other events: one peer moves quietly and no vote message is added.\<close>

lemma record_other:
  assumes "vote_record n C G W" and "cluster_inv n C" and "i < n"
    and "quiet (nodes C ! i) rf'" and "\<forall>i < n. vote_kept (nodes C ! i) (nodes C' ! i)"
    and "nodes C' = (nodes C)[i := rf']" "rounds C' = rounds C"
    and "vote_keys (rpcs C') = vote_keys (rpcs C)"
      "\<forall>m \<in> set (rpcs C'). m \<in> set (rpcs C) \<or> vote_keys [m] = []"
  shows "\<exists>G W. vote_record n C' G W"
proof -
  have "length (nodes C) = n" using assms(2) by (simp add: cluster_inv_def)
  then have "vote_kept (nodes C ! i) rf'" using assms(3,5,6) by auto
  then have "vote_record n C' G W"
    using assms by (intro record_quiet [of n C G W i rf' C']) (auto simp: vote_record_def msgs_ok_def)
  then show ?thesis by blast
qed

text \<open>An event that leaves the peers alone and adds no vote message.\<close>

lemma record_fewer:
  assumes "vote_record n C G W" and "nodes C' = nodes C" "rounds C' = rounds C"
    and "distinct (vote_keys (rpcs C'))" "set (vote_keys (rpcs C')) \<subseteq> set (vote_keys (rpcs C))"
    and "\<forall>m \<in> set (rpcs C'). m \<in> set (rpcs C) \<or> vote_keys [m] = []"
  shows "\<exists>G W. vote_record n C' G W"
proof -
  have "vote_msg_ok n (rounds C) G m" if "m \<in> set (rpcs C')" for m
    using assms(1,6) that vote_keys_no_vote unfolding vote_record_def msgs_ok_def by blast
  then have "msgs_ok n C' G W"
    using assms by (auto simp: vote_record_def msgs_ok_def)
  then show ?thesis using assms(1-3) by (auto simp: vote_record_def counts_ok_def)
qed

lemma record_append_msg:
  assumes rec: "vote_record n C G W" and inv: "cluster_inv n C"
    and k: "k < length (rpcs C)" "vote_keys [rpcs C ! k] = []"
    and del: "deliver (C\<lparr>rpcs := remove_at k (rpcs C)\<rparr>) (rpcs C ! k) = Inr C'"
    and inv': "cluster_inv n C'" and kept: "\<forall>i < n. vote_kept (nodes C ! i) (nodes C' ! i)"
  shows "\<exists>G W. vote_record n C' G W"
proof -
  have d: "distinct (vote_keys (rpcs C))" using rec by (simp add: vote_record_def msgs_ok_def)
  note gone = vote_keys_remove_at(1) [OF k(1)] vote_keys_remove_at(2) [OF k(1) d]
  have len: "length (nodes C) = n" "rpc_ok n (rpcs C ! k)" using inv k(1) by (simp_all add: cluster_inv_def)
  have *: "\<exists>G W. vote_record n C' G W"
    if i: "i < n" and rf: "quiet (nodes C ! i) rf" "nodes C' = (nodes C)[i := rf]" "rounds C' = rounds C"
      and ms: "vote_keys (rpcs C') = vote_keys (remove_at k (rpcs C))"
        "\<forall>m \<in> set (rpcs C'). m \<in> set (remove_at k (rpcs C)) \<or> vote_keys [m] = []" for i rf
  proof -
    have "vote_kept (nodes C ! i) rf" using kept i len(1) rf(2) by auto
    then have "vote_record n C' G W"
      using ms gone by (intro record_quiet [OF rec inv i rf(1) _ rf(2,3)]) (auto dest: set_remove_at)
    then show ?thesis by blast
  qed
  show ?thesis
  proof (cases "rpcs C ! k")
    case (AppReq i j args)
    then obtain rf reply where AE: "AppendEntries (nodes C ! j) args = Inr (rf, reply)"
      and C': "C' = (set_node (C\<lparr>rpcs := remove_at k (rpcs C)\<rparr>) j rf)
        \<lparr>rpcs := remove_at k (rpcs C) @ [AppRep i j args reply]\<rparr>"
      using del by auto
    show ?thesis
    proof (cases "j < n")
      case True
      have "node_inv n j (nodes C ! j)" "node_inv n j (nodes C' ! j)"
        using inv inv' True by (simp_all add: cluster_inv_def)
      then have "quiet (nodes C ! j) rf" using AE True len(1) by (intro quiet_AppendEntries [OF AE]) (simp_all add: C')
      then show ?thesis by (rule * [OF True]) (auto simp: C')
    next
      case False
      then show ?thesis using gone len(1)
        by (intro record_fewer [OF rec]) (auto simp: C' list_update_beyond dest: set_remove_at)
    qed
  next
    case (AppRep i j args reply)
    then obtain rf again where hr: "handleAppendReply (nodes C ! i) j args reply = Inr (rf, again)"
      and C': "nodes C' = (nodes C)[i := rf]" "rounds C' = rounds C" "rpcs C' = remove_at k (rpcs C)"
      using del by (auto split: if_splits)
    have i: "i < n" using len(2) AppRep by simp
    then have "node_inv n i (nodes C ! i)" "node_inv n i (nodes C' ! i)"
      using inv inv' by (simp_all add: cluster_inv_def)
    then have "quiet (nodes C ! i) rf" using i len(1) by (intro quiet_handleAppendReply [OF hr]) (simp_all add: C')
    then show ?thesis by (rule * [OF i]) (auto simp: C')
  qed (use k(2) in simp_all)
qed

lemma record_task:
  assumes rec: "vote_record n C G W" and inv: "cluster_inv n C" and t: "task_owner t < n"
    and run: "run_task C t = Inr C'"
  shows "\<exists>G W. vote_record n C' G W"
proof (cases t)
  case (StartVote i)
  have i: "i < n" "me (nodes C ! i) = i" "peers (nodes C ! i) = n"
    using t inv StartVote by (auto simp: cluster_inv_def node_inv_def)
  show ?thesis
  proof (cases "startRequestVote_args (nodes C ! i)")
    case None
    with run StartVote rec show ?thesis by auto
  next
    case (Some args)
    let ?rd = "\<lparr>round_owner = i, round_args = args, round_nLeader = 0\<rparr>"
    have "CandidateID args = int i"
      using Some i(2) by (auto simp: startRequestVote_args_def Let_def split: if_splits)
    then have "vote_record n C' G (W(length (rounds C) := {}))"
      using run StartVote Some i
      by (intro record_round [OF rec i(1), of ?rd "startRequestVote_targets (nodes C ! i)"])
        (auto simp: startRequestVote_targets_def)
    then show ?thesis by blast
  qed
next
  case (SendAppend i j)
  have d: "distinct (vote_keys (rpcs C))" using rec by (simp add: vote_record_def msgs_ok_def)
  show ?thesis
    using run SendAppend d by (intro record_fewer [OF rec]) (auto split: option.splits)
qed

lemma record_step:
  assumes rec: "vote_record n C G W" and inv: "cluster_inv n C" and one: "one_round_per_term C"
    and step: "cluster_step ev C = Some (Inr C')"
    and kept: "\<forall>i < n. vote_kept (nodes C ! i) (nodes C' ! i)"
  shows "\<exists>G W. vote_record n C' G W"
proof -
  have len: "length (nodes C) = n" using inv by (simp add: cluster_inv_def)
  have inv': "cluster_inv n C'" using inv step by (rule cluster_inv_step)
  have d: "distinct (vote_keys (rpcs C))" using rec by (simp add: vote_record_def msgs_ok_def)
  note other = record_other [OF rec inv _ _ kept]
  show ?thesis
  proof (cases ev)
    case (EvStart i c)
    with step len show ?thesis
      by (intro other [OF _ quiet_Start [of _ c]]) (auto split: if_splits)
  next
    case (EvHeartBeat i)
    with step len show ?thesis
      by (intro other [OF _ quiet_top]) (auto simp: split_def Let_def split: if_splits)
  next
    case (EvSelect i sg)
    with step len obtain rf where i: "i < n" and C': "C' = (set_node C i rf)\<lparr>hbs := (hbs C)[i := HTop]\<rparr>"
      and rf: "heartBeat_follower (nodes C ! i) sg = Some rf \<or> heartBeat_candidate (nodes C ! i) sg = Some rf"
      by (auto split: if_splits hb_pc.splits)
    have "quiet (nodes C ! i) rf" using rf quiet_follower quiet_candidate by blast
    then show ?thesis by (rule other [OF i]) (simp_all add: C')
  next
    case (EvLeaderRound i)
    with step d show ?thesis
      by (intro record_fewer [OF rec]) (auto split: if_splits option.splits)
  next
    case (EvTask k)
    with step have k: "k < length (tasks C)"
      "run_task (C\<lparr>tasks := remove_at k (tasks C)\<rparr>) (tasks C ! k) = Inr C'"
      by (auto split: if_splits)
    have "vote_record n (C\<lparr>tasks := remove_at k (tasks C)\<rparr>) G W"
      using rec by (simp add: vote_record_def msgs_ok_def counts_ok_def)
    moreover have "task_owner (tasks C ! k) < n" using inv k(1) by (simp add: cluster_inv_def)
    ultimately show ?thesis using record_task cluster_inv_remove(2) [OF inv] k(2) by blast
  next
    case (EvDeliver k)
    with step have k: "k < length (rpcs C)"
      "deliver (C\<lparr>rpcs := remove_at k (rpcs C)\<rparr>) (rpcs C ! k) = Inr C'"
      by (auto split: if_splits)
    show ?thesis
    proof (cases "rpcs C ! k")
      case (VoteReq b i j args)
      show ?thesis by (rule record_VoteReq [OF rec inv k(1) VoteReq k(2) kept])
    next
      case (VoteRep b i j reply)
      show ?thesis by (rule record_VoteRep [OF rec inv one k(1) VoteRep k(2) kept])
    qed (use record_append_msg [OF rec inv k(1) _ k(2) inv' kept] in simp_all)
  next
    case (EvLose k)
    with step have k: "k < length (rpcs C)" "C' = C\<lparr>rpcs := remove_at k (rpcs C)\<rparr>"
      by (auto split: if_splits)
    from vote_keys_remove_at [OF k(1)] d show ?thesis
      by (intro record_fewer [OF rec]) (auto simp: k(2) dest: set_remove_at)
  next
    case (EvRestart i)
    with step len have i: "i < n" and C': "C' = restart C i" by (auto split: if_splits)
    have q: "quiet (nodes C ! i) (nodes C' ! i)"
      using quiet_restart [OF cluster_inv_node [OF inv i]] i len by (simp add: C' restart_def)
    have "vote_record n C' G W"
      using kept i d distinct_vote_keys_filter len
      by (intro record_quiet [OF rec inv i q]) (auto simp: C' restart_def)
    then show ?thesis by blast
  qed
qed

section \<open>Election safety\<close>

lemma election_inv_init: "election_inv n (init_cluster n :: 'c cluster)"
proof -
  have st: "state (nodes (init_cluster n :: 'c cluster) ! i) = Follower" if "i < n" for i
    using that by (simp add: init_cluster_def)
  then have "vote_record n (init_cluster n :: 'c cluster) (\<lambda>_ _. None) (\<lambda>_. {})"
    unfolding vote_record_def granted_ok_def own_votes_def counts_ok_def
    by (auto simp: rounds_ok_def msgs_ok_def init_cluster_def)
  then show ?thesis
    using cluster_inv_init by (auto simp: election_inv_def one_round_per_term_def init_cluster_def)
qed

lemma election_inv_next:
  assumes "election_inv n C" and "careful_next C C'"
  shows "election_inv n C'"
proof -
  obtain G W where rec: "vote_record n C G W" and inv: "cluster_inv n C" "one_round_per_term C"
    using assms(1) by (auto simp: election_inv_def)
  obtain ev where ev: "cluster_step ev C = Some (Inr C')" and one: "one_round_per_term C'"
    and kept: "\<forall>i < length (nodes C). vote_kept (nodes C ! i) (nodes C' ! i)"
    using assms(2) by (auto simp: careful_next_def cluster_next_def)
  have "\<forall>i < n. vote_kept (nodes C ! i) (nodes C' ! i)"
    using kept inv(1) by (simp add: cluster_inv_def)
  from record_step [OF rec inv ev this] one cluster_inv_step [OF inv(1) ev]
  show ?thesis by (simp add: election_inv_def)
qed

interpretation careful: invariant_system "\<lambda>C. C = init_cluster n" careful_next "election_inv n" for n
  by unfold_locales (auto simp: election_inv_init intro: election_inv_next)


text \<open>Peer 0 is elected in term 1 with the vote of peer 1.\<close>

definition election_run :: "nat event list" where
  "election_run = [EvHeartBeat 0, EvSelect 0 SigTimer, EvHeartBeat 0, EvTask 0, EvDeliver 0, EvDeliver 1]"

lemma election_run_elects:
  "map_option (\<lambda>C. map (\<lambda>rf. (state rf, currentTerm rf)) (nodes C))
     (careful_run election_run (init_cluster 3)) = Some [(Leader, 1), (Follower, 1), (Follower, 0)]"
  by code_simp


end
