(* ===== verification/LabGob.thy ===== *)
theory LabGob
  imports Gob "HOL-Library.Monad_Syntax"
begin

text \<open>
  The wrapper around gob, \<^verbatim>\<open>Task5/labgob/labgob.go\<close>: it warns about struct fields that gob would
  not send and about decoding into a variable that is not at its default.

  A Go type is a tree (\<open>gotype\<close>) in which a named type is a leaf; a table gives the definition of
  each name, so types may be recursive. The package's variables are a record; what it prints is a
  list of messages. \<^verbatim>\<open>checkType\<close> recurses on the types it meets; the model passes fuel, and enough
  fuel is proved to be the number of types that can be met.
\<close>

section \<open>Types\<close>

datatype gotype =
    TBool | TInt | TString | TIface
  | TPtr gotype
  | TSlice gotype
  | TArray nat gotype
  | TMap gotype gotype
  | TStruct "(string \<times> gotype) list"
  | TNamed string

type_synonym tenv = "(string \<times> gotype) list"

text \<open>The type that \<^verbatim>\<open>Kind\<close>, \<^verbatim>\<open>Elem\<close>, \<^verbatim>\<open>Key\<close> and \<^verbatim>\<open>Field\<close> look at.\<close>

fun underlying :: "tenv \<Rightarrow> gotype \<Rightarrow> gotype" where
  "underlying env (TNamed n) = (case map_of env n of Some t \<Rightarrow> t | None \<Rightarrow> TIface)"
| "underlying env t = t"

fun type_name :: "gotype \<Rightarrow> string" where
  "type_name (TNamed n) = n"
| "type_name TBool = ''bool''"
| "type_name TInt = ''int''"
| "type_name TString = ''string''"
| "type_name _ = ''''"

section \<open>The variables of the package\<close>

datatype lab_msg = LowerCase string string | NonDefault string

record labgob =
  errorCount :: int
  checked :: "gotype list"
  printed :: "lab_msg list"

definition labgob_init :: labgob where
  "labgob_init = \<lparr>errorCount = 0, checked = [], printed = []\<rparr>"

definition report_field :: "gotype \<Rightarrow> string \<Rightarrow> labgob \<Rightarrow> labgob" where
  "report_field t f st =
     (if exported f then st
      else st\<lparr>printed := printed st @ [LowerCase f (type_name t)], errorCount := errorCount st + 1\<rparr>)"

section \<open>Checking a type\<close>

text \<open>\<open>None\<close>: the fuel does not suffice.\<close>

fun check_type :: "tenv \<Rightarrow> nat \<Rightarrow> gotype \<Rightarrow> labgob \<Rightarrow> labgob option"
  and check_fields :: "tenv \<Rightarrow> nat \<Rightarrow> gotype \<Rightarrow> (string \<times> gotype) list \<Rightarrow> labgob \<Rightarrow> labgob option"
where
  "check_type env 0 t st = None"
| "check_type env (Suc fuel) t st =
     (if t \<in> set (checked st) then Some st
      else let st = st\<lparr>checked := t # checked st\<rparr>
           in case underlying env t of
                TStruct fs \<Rightarrow> check_fields env fuel t fs st
              | TSlice e \<Rightarrow> check_type env fuel e st
              | TArray n e \<Rightarrow> check_type env fuel e st
              | TPtr e \<Rightarrow> check_type env fuel e st
              | TMap k e \<Rightarrow> check_type env fuel e st \<bind> check_type env fuel k
              | _ \<Rightarrow> Some st)"
| "check_fields env fuel t [] st = Some st"
| "check_fields env fuel t ((f, ft) # fs) st =
     check_type env fuel ft (report_field t f st) \<bind> check_fields env fuel t fs"

text \<open>The types that can be met from a type.\<close>

fun subtypes :: "gotype \<Rightarrow> gotype list" where
  "subtypes (TPtr e) = TPtr e # subtypes e"
| "subtypes (TSlice e) = TSlice e # subtypes e"
| "subtypes (TArray n e) = TArray n e # subtypes e"
| "subtypes (TMap k e) = TMap k e # subtypes e @ subtypes k"
| "subtypes (TStruct fs) = TStruct fs # concat (map (\<lambda>x. subtypes (snd x)) fs)"
| "subtypes t = [t]"

definition type_universe :: "tenv \<Rightarrow> gotype \<Rightarrow> gotype list" where
  "type_universe env t = subtypes t @ concat (map (\<lambda>x. subtypes (snd x)) env)"

definition checkType :: "tenv \<Rightarrow> gotype \<Rightarrow> labgob \<Rightarrow> labgob" where
  "checkType env t st =
     (case check_type env (Suc (length (type_universe env t))) t st of Some st' \<Rightarrow> st' | None \<Rightarrow> st)"

text \<open>A value in an interface; \<^verbatim>\<open>reflect.TypeOf(nil)\<close> has no kind, and asking for it panics.\<close>

type_synonym 'c any = "(gotype \<times> 'c goval) option"

definition checkValue :: "tenv \<Rightarrow> 'c any \<Rightarrow> labgob \<Rightarrow> labgob go" where
  "checkValue env value st =
     (case value of None \<Rightarrow> Inl NilDereference | Some (t, v) \<Rightarrow> Inr (checkType env t st))"

section \<open>Checking a value\<close>

definition join_name :: "string \<Rightarrow> string \<Rightarrow> string" where
  "join_name name f = (if name = [] then f else name @ ''.'' @ f)"

text \<open>A basic value that is not the zero value of its type.\<close>

definition report_value :: "string \<Rightarrow> string \<Rightarrow> bool \<Rightarrow> labgob \<Rightarrow> labgob" where
  "report_value name tname is_zero st =
     (if is_zero then st
      else let st = (if errorCount st < 1
                     then st\<lparr>printed := printed st @ [NonDefault (if name = [] then tname else name)]\<rparr>
                     else st)
           in st\<lparr>errorCount := errorCount st + 1\<rparr>)"

fun checkDefault1 :: "'c goval \<Rightarrow> int \<Rightarrow> string \<Rightarrow> labgob \<Rightarrow> labgob"
  and checkDefault_fields :: "(string \<times> 'c goval) list \<Rightarrow> int \<Rightarrow> string \<Rightarrow> labgob \<Rightarrow> labgob"
where
  "checkDefault1 (VStruct n fs) depth name st =
     (if depth > 3 then st else checkDefault_fields fs depth name st)"
| "checkDefault1 (VPtr p x) depth name st =
     (if depth > 3 then st
      else case x of None \<Rightarrow> st | Some v \<Rightarrow> checkDefault1 v (depth + 1) name st)"
| "checkDefault1 (VBool b) depth name st =
     (if depth > 3 then st else report_value name ''bool'' (\<not> b) st)"
| "checkDefault1 (VInt i) depth name st =
     (if depth > 3 then st else report_value name ''int'' (i = 0) st)"
| "checkDefault1 (VString s) depth name st =
     (if depth > 3 then st else report_value name ''string'' (s = []) st)"
| "checkDefault1 v depth name st = st"
| "checkDefault_fields [] depth name st = st"
| "checkDefault_fields ((f, v) # fs) depth name st =
     checkDefault_fields fs depth name (checkDefault1 v (depth + 1) (join_name name f) st)"

definition checkDefault :: "'c any \<Rightarrow> labgob \<Rightarrow> labgob" where
  "checkDefault value st = (case value of None \<Rightarrow> st | Some (t, v) \<Rightarrow> checkDefault1 v 1 '''' st)"

section \<open>Encoding and decoding\<close>

definition Encode :: "tenv \<Rightarrow> 'c goval list \<Rightarrow> 'c any \<Rightarrow> labgob \<Rightarrow> ('c goval list \<times> labgob) go" where
  "Encode env buf e st =
     bind_go (checkValue env e st) (\<lambda>st. Inr (gob_Encode buf (snd (the e)), st))"

text \<open>The error value (\<open>True\<close> for \<^verbatim>\<open>nil\<close>), the target after the call, and the rest of the buffer.\<close>

definition Decode ::
  "tenv \<Rightarrow> 'c goval list \<Rightarrow> 'c any \<Rightarrow> labgob \<Rightarrow> ((bool \<times> 'c goval \<times> 'c goval list) \<times> labgob) go" where
  "Decode env buf e st =
     bind_go (checkValue env e st) (\<lambda>st.
       let st = checkDefault e st in Inr (gob_Decode (snd (the e)) buf, st))"

text \<open>\<^verbatim>\<open>Register\<close> and \<^verbatim>\<open>RegisterName\<close> check the value's type; what gob records is the name.\<close>

definition Register :: "tenv \<Rightarrow> 'c any \<Rightarrow> labgob \<Rightarrow> labgob go" where
  "Register env value st = checkValue env value st"

section \<open>The types that are met\<close>

fun direct :: "gotype \<Rightarrow> gotype list" where
  "direct (TStruct fs) = map snd fs"
| "direct (TSlice e) = [e]"
| "direct (TArray n e) = [e]"
| "direct (TPtr e) = [e]"
| "direct (TMap k e) = [e, k]"
| "direct t = []"

definition children :: "tenv \<Rightarrow> gotype \<Rightarrow> gotype list" where
  "children env t = direct (underlying env t)"

inductive meets :: "tenv \<Rightarrow> gotype \<Rightarrow> gotype \<Rightarrow> bool" for env :: tenv where
  meets_refl: "meets env t t"
| meets_child: "u \<in> set (children env t) \<Longrightarrow> meets env u v \<Longrightarrow> meets env t v"

text \<open>The fields of a struct type that gob would not send.\<close>

definition lower_fields :: "tenv \<Rightarrow> gotype \<Rightarrow> nat" where
  "lower_fields env t = (case underlying env t of
     TStruct fs \<Rightarrow> length (filter (\<lambda>x. \<not> exported (fst x)) fs) | _ \<Rightarrow> 0)"

lemma subtypes_self [simp]: "t \<in> set (subtypes t)"
  by (cases t) auto

lemma direct_sub: "u \<in> set (subtypes t) \<Longrightarrow> set (direct u) \<subseteq> set (subtypes t)"
proof (induction t rule: subtypes.induct)
  case (5 fs)
  show ?case
  proof (cases "u = TStruct fs")
    case True
    then show ?thesis using subtypes_self by fastforce
  next
    case False
    with 5 show ?thesis by fastforce
  qed
qed auto

lemma universe_closed:
  assumes "u \<in> set (type_universe env t)"
  shows "set (children env u) \<subseteq> set (type_universe env t)"
proof (cases "\<exists>n. u = TNamed n")
  case True
  then obtain n where u: "u = TNamed n" by blast
  show ?thesis
  proof (cases "map_of env n")
    case None
    then show ?thesis by (simp add: u children_def)
  next
    case (Some e)
    then have "(n, e) \<in> set env" by (rule map_of_SomeD)
    moreover have "set (direct e) \<subseteq> set (subtypes e)" by (rule direct_sub) simp
    ultimately show ?thesis using Some by (force simp: u children_def type_universe_def)
  qed
next
  case False
  then have "children env u = direct u" by (cases u) (auto simp: children_def)
  moreover have "set (direct u) \<subseteq> set (subtypes e)" if "u \<in> set (subtypes e)" for e
    using that by (rule direct_sub)
  ultimately show ?thesis using assms by (fastforce simp: type_universe_def)
qed

section \<open>What a check does\<close>

text \<open>
  From \<open>st\<close> to \<open>st'\<close> the types \<open>new\<close> were visited, all met from the types \<open>ts\<close> and none
  visited before; \<open>k\<close> fields and those of the new types were reported.
\<close>

definition explored :: "tenv \<Rightarrow> gotype set \<Rightarrow> nat \<Rightarrow> labgob \<Rightarrow> labgob \<Rightarrow> gotype list \<Rightarrow> bool" where
  "explored env ts k st st' new \<longleftrightarrow>
     checked st' = new @ checked st \<and> distinct new \<and> set new \<inter> set (checked st) = {} \<and>
     errorCount st' = errorCount st + int k + int (sum_list (map (lower_fields env) new)) \<and>
     (\<forall>u \<in> set new. set (children env u) \<subseteq> set (checked st')) \<and>
     (\<forall>u \<in> set new. \<exists>t \<in> ts. meets env t u)"

lemma explored_refl: "explored env ts 0 st st []"
  by (simp add: explored_def)

lemma explored_trans:
  assumes "explored env ts j st st1 new1" and "explored env us k st1 st2 new2"
  shows "explored env (ts \<union> us) (j + k) st st2 (new2 @ new1)"
  using assms unfolding explored_def by (intro conjI) (simp, simp, auto, blast+)

lemma explored_enter:
  assumes "explored env (set (children env t)) (lower_fields env t) (st\<lparr>checked := t # checked st\<rparr>) st' new"
    and "t \<notin> set (checked st)" and "set (children env t) \<subseteq> set (checked st')"
  shows "explored env {t} 0 st st' (new @ [t])"
proof -
  have "\<forall>u \<in> set new. meets env t u"
    using assms(1) meets_child unfolding explored_def by blast
  then show ?thesis
    using assms meets_refl unfolding explored_def by (intro conjI) (auto, blast)
qed

lemma explored_report:
  "explored env {} (if exported f then 0 else 1) st (report_field t f st) []"
  by (simp add: explored_def report_field_def)

lemma explored_mono: "explored env ts k st st' new \<Longrightarrow> ts \<subseteq> us \<Longrightarrow> explored env us k st st' new"
  unfolding explored_def by blast

lemma explored_sub: "explored env ts k st st' new \<Longrightarrow> set (checked st) \<subseteq> set (checked st')"
  by (simp add: explored_def)

lemma check_explores:
  "check_type env fuel t st = Some st' \<Longrightarrow>
     t \<in> set (checked st') \<and> (\<exists>new. explored env {t} 0 st st' new)"
  "check_fields env fuel t fs st = Some st' \<Longrightarrow>
     snd ` set fs \<subseteq> set (checked st') \<and>
     (\<exists>new. explored env (snd ` set fs) (length (filter (\<lambda>x. \<not> exported (fst x)) fs)) st st' new)"
proof (induction env fuel t st and env fuel t fs st arbitrary: st' and st'
    rule: check_type_check_fields.induct)
  case (1 env t st)
  then show ?case by simp
next
  case (2 env fuel t st)
  let ?st = "st\<lparr>checked := t # checked st\<rparr>"
  show ?case
  proof (cases "t \<in> set (checked st)")
    case True
    with 2(7) show ?thesis by (auto intro: explored_refl)
  next
    case False
    note run = "2.prems" [unfolded check_type.simps if_not_P [OF False] Let_def]
    have "set (children env t) \<subseteq> set (checked st') \<and>
      (\<exists>new. explored env (set (children env t)) (lower_fields env t) ?st st' new)"
    proof (cases "underlying env t")
      case (TStruct fs)
      with run "2.IH"(6) [OF False refl TStruct] show ?thesis
        by (simp add: children_def lower_fields_def)
    next
      case (TSlice e)
      with run "2.IH"(2) [OF False refl TSlice] show ?thesis
        by (simp add: children_def lower_fields_def)
    next
      case (TArray m e)
      with run "2.IH"(3) [OF False refl TArray] show ?thesis
        by (simp add: children_def lower_fields_def)
    next
      case (TPtr e)
      with run "2.IH"(1) [OF False refl TPtr] show ?thesis
        by (simp add: children_def lower_fields_def)
    next
      case (TMap k e)
      then obtain st1 where st1: "check_type env fuel e ?st = Some st1" "check_type env fuel k st1 = Some st'"
        using run by (auto split: Option.bind_splits)
      obtain new1 where new1: "e \<in> set (checked st1)" "explored env {e} 0 ?st st1 new1"
        using "2.IH"(4) [OF False refl TMap st1(1)] by blast
      obtain new2 where new2: "k \<in> set (checked st')" "explored env {k} 0 st1 st' new2"
        using "2.IH"(5) [OF False refl TMap st1] by blast
      have "explored env {e, k} 0 ?st st' (new2 @ new1)"
        using explored_mono [OF explored_trans [OF new1(2) new2(2)], of "{e, k}"] by simp
      with new1(1) new2 explored_sub [OF new2(2)] TMap show ?thesis
        by (auto simp: children_def lower_fields_def)
    qed (use run explored_refl in \<open>auto simp: children_def lower_fields_def\<close>)
    then obtain new where "explored env {t} 0 st st' (new @ [t])"
      using explored_enter False by blast
    moreover from this have "t \<in> set (checked st')" by (simp add: explored_def)
    ultimately show ?thesis by blast
  qed
next
  case (3 env fuel t st)
  then show ?case by (auto intro: explored_refl)
next
  case (4 env fuel t f ft fs st)
  then obtain st1 where st1: "check_type env fuel ft (report_field t f st) = Some st1"
    "check_fields env fuel t fs st1 = Some st'"
    by (auto split: Option.bind_splits)
  obtain new1 where new1: "ft \<in> set (checked st1)" "explored env {ft} 0 (report_field t f st) st1 new1"
    using "4.IH"(1) [OF st1(1)] by blast
  obtain new2 where new2: "snd ` set fs \<subseteq> set (checked st')"
    "explored env (snd ` set fs) (length (filter (\<lambda>x. \<not> exported (fst x)) fs)) st1 st' new2"
    using "4.IH"(2) [OF st1] by blast
  from explored_trans [OF explored_trans [OF explored_report new1(2)] new2(2)]
  have "\<exists>new. explored env (snd ` set ((f, ft) # fs))
      (length (filter (\<lambda>x. \<not> exported (fst x)) ((f, ft) # fs))) st st' new"
    by (auto split: if_splits)
  with new1(1) new2 explored_sub [OF new2(2)] show ?case by auto
qed

section \<open>Enough fuel\<close>

text \<open>The fuel exceeds the number of types that are still to be visited.\<close>

definition enough :: "gotype set \<Rightarrow> nat \<Rightarrow> labgob \<Rightarrow> bool" where
  "enough U fuel st \<longleftrightarrow> card (U - set (checked st)) < fuel"

lemma enough_later:
  assumes "enough U fuel st" and "finite U" and "set (checked st) \<subseteq> set (checked st')"
  shows "enough U fuel st'"
proof -
  have "card (U - set (checked st')) \<le> card (U - set (checked st))"
    using assms(2,3) by (intro card_mono) auto
  with assms(1) show ?thesis by (simp add: enough_def)
qed

lemma enough_enter:
  assumes "enough U (Suc fuel) st" and "finite U" and "t \<in> U" and "t \<notin> set (checked st)"
  shows "enough U fuel (st\<lparr>checked := t # checked st\<rparr>)"
proof -
  have "card (U - set (checked st) - {t}) < card (U - set (checked st))"
    using assms by (intro card_Diff1_less) auto
  moreover have "U - set (t # checked st) = U - set (checked st) - {t}" by auto
  ultimately show ?thesis using assms(1) by (simp add: enough_def)
qed

lemma checked_report [simp]: "checked (report_field t f st) = checked st"
  by (simp add: report_field_def)

lemma check_returns:
  "finite U \<Longrightarrow> (\<forall>u \<in> U. set (children env u) \<subseteq> U) \<Longrightarrow> t \<in> U \<Longrightarrow> enough U fuel st \<Longrightarrow>
     \<exists>st'. check_type env fuel t st = Some st'"
  "finite U \<Longrightarrow> (\<forall>u \<in> U. set (children env u) \<subseteq> U) \<Longrightarrow> snd ` set fs \<subseteq> U \<Longrightarrow> enough U fuel st \<Longrightarrow>
     \<exists>st'. check_fields env fuel t fs st = Some st'"
proof (induction env fuel t st and env fuel t fs st rule: check_type_check_fields.induct)
  case (1 env t st)
  then show ?case by (simp add: enough_def)
next
  case (2 env fuel t st)
  show ?case
  proof (cases "t \<in> set (checked st)")
    case True
    then show ?thesis by simp
  next
    case False
    let ?st = "st\<lparr>checked := t # checked st\<rparr>"
    have en: "enough U fuel ?st" using 2 False by (intro enough_enter) auto
    have ch: "set (children env t) \<subseteq> U" using "2.prems" by blast
    note U = "2.prems"(1,2)
    show ?thesis
    proof (cases "underlying env t")
      case (TStruct fs)
      then have "snd ` set fs \<subseteq> U" using ch by (simp add: children_def)
      from "2.IH"(6) [OF False refl TStruct U this en] show ?thesis
        using False TStruct by (simp add: Let_def)
    next
      case (TSlice e)
      then have "e \<in> U" using ch by (simp add: children_def)
      from "2.IH"(2) [OF False refl TSlice U this en] show ?thesis
        using False TSlice by (simp add: Let_def)
    next
      case (TArray m e)
      then have "e \<in> U" using ch by (simp add: children_def)
      from "2.IH"(3) [OF False refl TArray U this en] show ?thesis
        using False TArray by (simp add: Let_def)
    next
      case (TPtr e)
      then have "e \<in> U" using ch by (simp add: children_def)
      from "2.IH"(1) [OF False refl TPtr U this en] show ?thesis
        using False TPtr by (simp add: Let_def)
    next
      case (TMap k e)
      then have ek: "e \<in> U" "k \<in> U" using ch by (simp_all add: children_def)
      obtain st1 where st1: "check_type env fuel e ?st = Some st1"
        using "2.IH"(4) [OF False refl TMap U ek(1) en] by blast
      have "set (checked ?st) \<subseteq> set (checked st1)"
        using check_explores(1) [OF st1] explored_sub by blast
      then have "enough U fuel st1" using en U(1) enough_later by blast
      from "2.IH"(5) [OF False refl TMap st1 U ek(2) this] show ?thesis
        using False TMap st1 by (simp add: Let_def)
    qed (use False in \<open>simp_all add: Let_def\<close>)
  qed
next
  case (4 env fuel t f ft fs st)
  note U = "4.prems"(1,2)
  have "ft \<in> U" "snd ` set fs \<subseteq> U" "enough U fuel (report_field t f st)"
    using "4.prems" by (auto simp: enough_def)
  note sub = this
  obtain st1 where st1: "check_type env fuel ft (report_field t f st) = Some st1"
    using "4.IH"(1) [OF U sub(1,3)] by blast
  have "set (checked (report_field t f st)) \<subseteq> set (checked st1)"
    using check_explores(1) [OF st1] explored_sub by blast
  then have "enough U fuel st1" using sub(3) U(1) enough_later by blast
  from "4.IH"(2) [OF st1 U sub(2) this] show ?case using st1 by simp
qed simp

lemma check_type_enough:
  "\<exists>st'. check_type env (Suc (length (type_universe env t))) t st = Some st'"
proof -
  let ?U = "set (type_universe env t)" and ?fuel = "Suc (length (type_universe env t))"
  have "card (?U - set (checked st)) \<le> length (type_universe env t)"
    by (meson Diff_subset List.finite_set card_length card_mono le_trans)
  then have "enough ?U ?fuel st" by (simp add: enough_def)
  moreover have "t \<in> ?U" by (simp add: type_universe_def)
  ultimately show ?thesis
    using check_returns(1) [of ?U env t ?fuel st] universe_closed by blast
qed

lemma checkType_explores:
  "t \<in> set (checked (checkType env t st)) \<and> (\<exists>new. explored env {t} 0 st (checkType env t st) new)"
proof -
  obtain st' where "check_type env (Suc (length (type_universe env t))) t st = Some st'"
    using check_type_enough by blast
  then have "check_type env (Suc (length (type_universe env t))) t st = Some (checkType env t st)"
    by (simp add: checkType_def del: check_type.simps)
  then show ?thesis by (rule check_explores(1))
qed

section \<open>The types met are those visited\<close>

lemma meets_closed:
  assumes "meets env t u" and "t \<in> V" and "\<forall>v \<in> V. set (children env v) \<subseteq> V"
  shows "u \<in> V"
  using assms by (induction rule: meets.induct) auto

lemma checkType_visits:
  assumes "checked st = []"
  obtains new where "distinct new" and "set new = {u. meets env t u}"
    and "errorCount (checkType env t st) = errorCount st + int (sum_list (map (lower_fields env) new))"
    and "checked (checkType env t st) = new"
proof -
  obtain new where new: "explored env {t} 0 st (checkType env t st) new"
    and t: "t \<in> set (checked (checkType env t st))"
    using checkType_explores by blast
  have c: "checked (checkType env t st) = new" using new assms by (simp add: explored_def)
  have "u \<in> set new" if "meets env t u" for u
    using that t new by (intro meets_closed [OF that]) (auto simp: explored_def c)
  moreover have "meets env t u" if "u \<in> set new" for u
    using new that by (auto simp: explored_def)
  ultimately have "set new = {u. meets env t u}" by blast
  moreover have "distinct new"
    "errorCount (checkType env t st) = errorCount st + int (sum_list (map (lower_fields env) new))"
    using new by (simp_all add: explored_def)
  ultimately show ?thesis using c that by blast
qed

section \<open>Values of a type\<close>

text \<open>
  The values that Go's type system allows for a type, without what gob cannot carry in any type: a
  pointer to a nil pointer, and a nil pointer as an element of a slice.
\<close>

fun has_type :: "tenv \<Rightarrow> gotype \<Rightarrow> 'c goval \<Rightarrow> bool"
  and has_types :: "tenv \<Rightarrow> (string \<times> gotype) list \<Rightarrow> (string \<times> 'c goval) list \<Rightarrow> bool"
where
  "has_type env t (VBool b) \<longleftrightarrow> underlying env t = TBool"
| "has_type env t (VInt i) \<longleftrightarrow> underlying env t = TInt"
| "has_type env t (VString s) \<longleftrightarrow> underlying env t = TString"
| "has_type env t (VIface x) \<longleftrightarrow> underlying env t = TIface"
| "has_type env t (VPtr p None) \<longleftrightarrow> (case underlying env t of TPtr e \<Rightarrow> True | _ \<Rightarrow> False)"
| "has_type env t (VPtr p (Some v)) \<longleftrightarrow> (case underlying env t of
     TPtr e \<Rightarrow> has_type env e v \<and> zero v = p \<and> \<not> nil_ptr v | _ \<Rightarrow> False)"
| "has_type env t (VSlice p xs) \<longleftrightarrow> (case underlying env t of
     TSlice e \<Rightarrow> (\<forall>x \<in> set xs. has_type env e x \<and> zero x = p \<and> \<not> nil_ptr x) | _ \<Rightarrow> False)"
| "has_type env t (VStruct n fs) \<longleftrightarrow> (case underlying env t of
     TStruct gs \<Rightarrow> distinct (map fst fs) \<and> has_types env gs fs | _ \<Rightarrow> False)"
| "has_types env [] [] \<longleftrightarrow> True"
| "has_types env ((g, t) # gs) ((f, v) # fs) \<longleftrightarrow> g = f \<and> has_type env t v \<and> has_types env gs fs"
| "has_types env _ _ \<longleftrightarrow> False"

text \<open>No type met from \<open>t\<close> has a field that gob would not send.\<close>

definition clean_type :: "tenv \<Rightarrow> gotype \<Rightarrow> bool" where
  "clean_type env t \<longleftrightarrow> (\<forall>u. meets env t u \<longrightarrow> lower_fields env u = 0)"

lemma clean_child: "clean_type env t \<Longrightarrow> u \<in> set (children env t) \<Longrightarrow> clean_type env u"
  using meets_child by (auto simp: clean_type_def)

lemma clean_struct:
  assumes "clean_type env t" and "underlying env t = TStruct gs"
  shows "\<forall>x \<in> set gs. exported (fst x) \<and> clean_type env (snd x)"
proof -
  have "lower_fields env t = 0" using assms(1) meets_refl by (auto simp: clean_type_def)
  then show ?thesis
    using assms clean_child [OF assms(1)] by (auto simp: lower_fields_def children_def filter_empty_conv)
qed

lemma clean_wire_safe:
  fixes v :: "'c goval" and fs :: "(string \<times> 'c goval) list"
  shows "has_type env t v \<Longrightarrow> clean_type env t \<Longrightarrow> wire_safe v"
    and "has_types env gs fs \<Longrightarrow> \<forall>x \<in> set gs. exported (fst x) \<and> clean_type env (snd x) \<Longrightarrow>
     \<forall>x \<in> set fs. exported (fst x) \<and> wire_safe (snd x)"
proof (induction env t v and env gs fs rule: has_type_has_types.induct)
  case (6 env t p v)
  then show ?case by (auto simp: children_def split: gotype.splits dest: clean_child)
next
  case (7 env t p xs)
  then show ?case by (auto simp: children_def split: gotype.splits dest: clean_child)
next
  case (8 env t n fs)
  then show ?case by (auto split: gotype.splits dest: clean_struct)
qed auto

section \<open>Checks that report nothing\<close>

lemma checkType_clean_iff:
  assumes "checked st = []"
  shows "errorCount (checkType env t st) = errorCount st \<longleftrightarrow> clean_type env t"
proof -
  obtain new where "set new = {u. meets env t u}"
    "errorCount (checkType env t st) = errorCount st + int (sum_list (map (lower_fields env) new))"
    by (rule checkType_visits [OF assms])
  then show ?thesis by (auto simp: clean_type_def)
qed

lemma checkDefault_fields_zero:
  assumes "\<forall>x \<in> set fs. \<forall>depth name st. checkDefault1 (zero (snd x)) depth name st = st"
  shows "checkDefault_fields (map (\<lambda>(f, v). (f, zero v)) fs) depth name st = st"
  using assms by (induction fs) auto

lemma checkDefault1_zero: "checkDefault1 (zero v) depth name st = st"
  by (induction v arbitrary: depth name st rule: zero.induct)
    (auto simp: report_value_def intro!: checkDefault_fields_zero)

lemma checkDefault1_count:
  fixes v :: "'c goval" and fs :: "(string \<times> 'c goval) list"
  shows "errorCount st \<le> errorCount (checkDefault1 v depth name st)"
    and "errorCount st \<le> errorCount (checkDefault_fields fs depth name st)"
  by (induction v depth name st and fs depth name st rule: checkDefault1_checkDefault_fields.induct)
    (auto simp: report_value_def Let_def split: option.split)

text \<open>A field of basic type at depth two that is not zero is reported.\<close>

lemma checkDefault_fields_reports:
  assumes "(f, VInt k) \<in> set fs" and "k \<noteq> 0" and "depth < 3"
  shows "errorCount st < errorCount (checkDefault_fields fs depth name st)"
  using assms
proof (induction fs arbitrary: st)
  case (Cons x fs)
  obtain g v where x: "x = (g, v)" by (cases x)
  show ?case
  proof (cases "x = (f, VInt k)")
    case True
    have "errorCount st < errorCount (checkDefault1 v (depth + 1) (join_name name g) st)"
      using True x Cons.prems by (auto simp: report_value_def Let_def)
    also have "\<dots> \<le> errorCount (checkDefault_fields fs depth name
        (checkDefault1 v (depth + 1) (join_name name g) st))"
      by (rule checkDefault1_count(2))
    finally show ?thesis by (simp add: x)
  next
    case False
    have "errorCount st \<le> errorCount (checkDefault1 v (depth + 1) (join_name name g) st)"
      by (rule checkDefault1_count(1))
    also have "\<dots> < errorCount (checkDefault_fields fs depth name
        (checkDefault1 v (depth + 1) (join_name name g) st))"
      using False Cons by auto
    finally show ?thesis by (simp add: x)
  qed
qed simp

lemma recv_fields_stale:
  "recv_fields fs ws = Some fs' \<Longrightarrow> map_of ws f = None \<Longrightarrow> map_of fs' f = map_of fs f"
proof (induction fs arbitrary: fs')
  case (Cons x fs)
  obtain g t where "x = (g, t)" by (cases x)
  with Cons show ?case by (auto split: option.splits if_splits)
qed simp

lemma check_type_checked: "t \<in> set (checked st) \<Longrightarrow> 0 < fuel \<Longrightarrow> check_type env fuel t st = Some st"
  by (cases fuel) simp_all

lemma checkType_checked: "t \<in> set (checked st) \<Longrightarrow> checkType env t st = st"
  by (simp add: checkType_def check_type_checked)

lemma checkType_ptr_checked:
  assumes "t \<in> set (checked st)"
  shows "errorCount (checkType env (TPtr t) st) = errorCount st"
proof -
  have "0 < length (type_universe env (TPtr t))" by (simp add: type_universe_def)
  with assms show ?thesis by (simp add: checkType_def check_type_checked Let_def)
qed

lemma checkType_mono: "errorCount st \<le> errorCount (checkType env t st)"
  using checkType_explores [of t env st] by (auto simp: explored_def)

section \<open>Properties\<close>

text \<open>
  C38: \<^verbatim>\<open>checkType\<close> ends on every type, recursive ones included: as many nested calls as there are
  types that can be met are enough.
\<close>

theorem checkType_terminates:
  "\<exists>st'. check_type env (Suc (length (type_universe env t))) t st = Some st'"
  by (rule check_type_enough)

text \<open>
  C20: what \<^verbatim>\<open>checkType\<close> counts. From an empty table of checked types it reports exactly the lower-case
  fields of all the struct types met from the type, each type once.
\<close>

theorem checkType_counts:
  assumes "checked st = []"
  shows "errorCount (checkType env t st) =
    errorCount st + (\<Sum>u | meets env t u. int (lower_fields env u))"
proof -
  obtain new where new: "distinct new" "set new = {u. meets env t u}"
    "errorCount (checkType env t st) = errorCount st + int (sum_list (map (lower_fields env) new))"
    by (rule checkType_visits [OF assms])
  have "sum_list (map (lower_fields env) new) = (\<Sum>u \<in> set new. lower_fields env u)"
    by (rule sum_list_distinct_conv_sum_set [OF new(1)])
  with new(2,3) show ?thesis by simp
qed

text \<open>A list whose type refers to itself, with one lower-case field.\<close>

definition sample_types :: tenv where
  "sample_types = [(''Node'', TStruct [(''Val'', TInt), (''next'', TPtr (TNamed ''Node''))])]"

theorem checkType_counts_witness:
  "(\<Sum>u | meets sample_types (TNamed ''Node'') u. int (lower_fields sample_types u)) = 1"
proof -
  have "errorCount (checkType sample_types (TNamed ''Node'') labgob_init) = 1"
    by code_simp
  with checkType_counts [of labgob_init sample_types "TNamed ''Node''"] show ?thesis
    by (simp add: labgob_init_def)
qed


definition sample_pair :: "nat goval" where
  "sample_pair = VStruct ''Pair'' [(''A'', VInt 0), (''B'', VString ''x'')]"




text \<open>
  \<^verbatim>\<open>nil\<close> makes both directions panic. The test for it in \<^verbatim>\<open>checkDefault\<close> comes too late:
  \<^verbatim>\<open>checkValue\<close> has asked for the kind of no type before.
\<close>

lemma labgob_nil_panics:
  "Encode env buf (None :: 'c any) st = Inl NilDereference \<and>
   Decode env buf (None :: 'c any) st = Inl NilDereference"
  by (simp add: Encode_def Decode_def checkValue_def)

end
