(* ===== verification/LabRpc.thy ===== *)
theory LabRpc
  imports LabGob "HOL-Library.Word"
begin

text \<open>
  The simulated network, \<^verbatim>\<open>Task5/labrpc/labrpc.go\<close>: clients' end points, the network with its switches
  and tables, servers that dispatch a request to a method of a service, and \<^verbatim>\<open>processReq\<close>, which takes
  one request from its arrival to its reply.

  \<^item> \<open>'e\<close> are the names of ends, \<open>'k\<close> the names of servers (\<open>None\<close> is a \<^verbatim>\<open>nil\<close> name), \<open>'o\<close> the
    objects whose methods are called, \<open>'c\<close> the values in interfaces.
  \<^item> Servers are compared by pointer, so they live in a heap and the network's table holds addresses.
  \<^item> A run-time type comes with its zero value, which is what \<^verbatim>\<open>reflect.New\<close> allocates.
  \<^item> The counters have the width of the source (\<^verbatim>\<open>int32\<close>, \<^verbatim>\<open>int64\<close>) and wrap around. How many bytes a
    message takes is an argument \<open>blen\<close>.
  \<^item> \<^verbatim>\<open>processReq\<close> is a state machine with one state per point where it waits; random numbers and the
    order of events are choices of the environment.
\<close>

section \<open>Messages and ends\<close>

type_synonym 'c rtype = "gotype \<times> 'c goval"

definition reflect_TypeOf :: "gotype \<times> 'c goval \<Rightarrow> 'c rtype" where
  "reflect_TypeOf x = (fst x, zero (snd x))"

definition reflect_New :: "'c rtype \<Rightarrow> gotype \<times> 'c goval" where
  "reflect_New t = (TPtr (fst t), VPtr (snd t) (Some (snd t)))"

fun reflect_Elem :: "'c rtype \<Rightarrow> 'c rtype" where
  "reflect_Elem (TPtr t, VPtr z x) = (t, z)"
| "reflect_Elem t = t"

fun ptr_elem :: "'c goval \<Rightarrow> 'c goval" where
  "ptr_elem (VPtr p (Some v)) = v"
| "ptr_elem v = v"

record ('e, 'c) reqMsg =
  req_endname :: 'e
  svcMeth :: string
  argsType :: "'c rtype"
  req_args :: "'c goval list"
  replyCh :: nat

record 'c replyMsg =
  rep_ok :: bool
  rep_reply :: "'c goval list"

definition fail_reply :: "'c replyMsg" where
  "fail_reply = \<lparr>rep_ok = False, rep_reply = []\<rparr>"

record 'e ClientEnd =
  ce_endname :: 'e

section \<open>Services\<close>

record ('o, 'c) rmethod =
  Name :: string
  PkgPath :: string
  NumIn :: nat
  In2 :: "'c rtype"
  NumOut :: nat
  Func :: "'o \<Rightarrow> 'c goval \<Rightarrow> 'c goval \<Rightarrow> ('o \<times> 'c goval) go"

record ('o, 'c) Service =
  svc_name :: string
  rcvr :: 'o
  methods :: "string \<rightharpoonup> ('o, 'c) rmethod"

fun is_ptr_type :: "gotype \<Rightarrow> bool" where
  "is_ptr_type (TPtr t) = True"
| "is_ptr_type t = False"

definition suitable :: "('o, 'c) rmethod \<Rightarrow> bool" where
  "suitable m \<longleftrightarrow> \<not> (PkgPath m \<noteq> [] \<or> NumIn m \<noteq> 3 \<or> \<not> is_ptr_type (fst (In2 m)) \<or> NumOut m \<noteq> 0)"

text \<open>The name of the receiver's type, the receiver, and the methods of its type.\<close>

definition MakeService :: "string \<Rightarrow> 'o \<Rightarrow> ('o, 'c) rmethod list \<Rightarrow> ('o, 'c) Service" where
  "MakeService name obj ms =
     \<lparr>svc_name = name, rcvr = obj,
      methods = fold (\<lambda>m tab. if suitable m then tab(Name m \<mapsto> m) else tab) ms Map.empty\<rparr>"

definition Service_dispatch ::
  "tenv \<Rightarrow> ('o, 'c) Service \<Rightarrow> string \<Rightarrow> ('e, 'c) reqMsg \<Rightarrow> labgob \<Rightarrow>
   ('c replyMsg \<times> ('o, 'c) Service \<times> labgob) go" where
  "Service_dispatch env svc methname req st =
     (case methods svc methname of
        Some m \<Rightarrow>
          (let args = reflect_New (argsType req)
           in bind_go (Decode env (req_args req) (Some args) st) (\<lambda>((_, argv, _), st).
              let replyv = reflect_New (reflect_Elem (In2 m))
              in bind_go (Func m (rcvr svc) (ptr_elem argv) (snd replyv)) (\<lambda>(obj, rv).
                 bind_go (Encode env [] (Some (fst replyv, rv)) st) (\<lambda>(rb, st).
                   Inr (\<lparr>rep_ok = True, rep_reply = rb\<rparr>, svc\<lparr>rcvr := obj\<rparr>, st)))))
      | None \<Rightarrow> Inl (LogFatal ''labrpc.Service.dispatch(): unknown method''))"

section \<open>Servers\<close>

record ('o, 'c) Server =
  services :: "string \<rightharpoonup> ('o, 'c) Service"
  srv_count :: int

definition MakeServer :: "('o, 'c) Server" where
  "MakeServer = \<lparr>services = Map.empty, srv_count = 0\<rparr>"

definition AddService :: "('o, 'c) Server \<Rightarrow> ('o, 'c) Service \<Rightarrow> ('o, 'c) Server" where
  "AddService rs svc = rs\<lparr>services := (services rs)(svc_name svc \<mapsto> svc)\<rparr>"

text \<open>\<^verbatim>\<open>strings.LastIndex\<close> for one character.\<close>

fun last_index :: "char \<Rightarrow> string \<Rightarrow> int" where
  "last_index c [] = -1"
| "last_index c (x # xs) =
     (let k = last_index c xs in if 0 \<le> k then k + 1 else if x = c then 0 else -1)"

definition Server_dispatch ::
  "tenv \<Rightarrow> ('o, 'c) Server \<Rightarrow> ('e, 'c) reqMsg \<Rightarrow> labgob \<Rightarrow>
   ('c replyMsg \<times> ('o, 'c) Server \<times> labgob) go" where
  "Server_dispatch env rs req st =
     (let rs = rs\<lparr>srv_count := srv_count rs + 1\<rparr>;
          dot = last_index (CHR ''.'') (svcMeth req)
      in bind_go (go_slice_to (svcMeth req) dot) (\<lambda>serviceName.
         bind_go (go_slice_from (svcMeth req) (dot + 1)) (\<lambda>methodName.
           case services rs serviceName of
             Some service \<Rightarrow>
               bind_go (Service_dispatch env service methodName req st) (\<lambda>(reply, service, st).
                 Inr (reply, rs\<lparr>services := (services rs)(serviceName \<mapsto> service)\<rparr>, st))
           | None \<Rightarrow> Inl (LogFatal ''labrpc.Server.dispatch(): unknown service''))))"

section \<open>The network\<close>

record ('e, 'k) Network =
  reliable :: bool
  longDelays :: bool
  longReordering :: bool
  ends :: "'e \<rightharpoonup> 'e ClientEnd"
  enabled :: "'e \<rightharpoonup> bool"
  servers :: "'k \<rightharpoonup> nat option"
  connections :: "'e \<rightharpoonup> 'k option"
  net_done :: bool
  rpc_count :: "32 word"
  rpc_bytes :: "64 word"

text \<open>Reading a Go map: a key that is absent reads as the zero value.\<close>

definition map_get :: "('a \<rightharpoonup> 'b) \<Rightarrow> 'b \<Rightarrow> 'a \<Rightarrow> 'b" where
  "map_get m z k = (case m k of Some v \<Rightarrow> v | None \<Rightarrow> z)"

definition MakeNetwork :: "('e, 'k) Network" where
  "MakeNetwork = \<lparr>reliable = True, longDelays = False, longReordering = False, ends = Map.empty,
     enabled = Map.empty, servers = Map.empty, connections = Map.empty, net_done = False,
     rpc_count = 0, rpc_bytes = 0\<rparr>"

definition Cleanup :: "('e, 'k) Network \<Rightarrow> ('e, 'k) Network go" where
  "Cleanup rn = (if net_done rn then Inl CloseOfClosedChannel else Inr (rn\<lparr>net_done := True\<rparr>))"

definition Reliable :: "('e, 'k) Network \<Rightarrow> bool \<Rightarrow> ('e, 'k) Network" where
  "Reliable rn yes = rn\<lparr>reliable := yes\<rparr>"

definition LongReordering :: "('e, 'k) Network \<Rightarrow> bool \<Rightarrow> ('e, 'k) Network" where
  "LongReordering rn yes = rn\<lparr>longReordering := yes\<rparr>"

definition LongDelays :: "('e, 'k) Network \<Rightarrow> bool \<Rightarrow> ('e, 'k) Network" where
  "LongDelays rn yes = rn\<lparr>longDelays := yes\<rparr>"

definition readEndnameInfo ::
  "('e, 'k) Network \<Rightarrow> 'e \<Rightarrow> bool \<times> 'k option \<times> nat option \<times> bool \<times> bool" where
  "readEndnameInfo rn endname =
     (let servername = map_get (connections rn) None endname
      in (map_get (enabled rn) False endname, servername,
          (case servername of None \<Rightarrow> None | Some k \<Rightarrow> map_get (servers rn) None k),
          reliable rn, longReordering rn))"

definition isServerDead :: "('e, 'k) Network \<Rightarrow> 'e \<Rightarrow> 'k \<Rightarrow> nat \<Rightarrow> bool" where
  "isServerDead rn endname servername server \<longleftrightarrow>
     map_get (enabled rn) False endname = False \<or> map_get (servers rn) None servername \<noteq> Some server"

definition MakeEnd :: "('e, 'k) Network \<Rightarrow> 'e \<Rightarrow> (('e, 'k) Network \<times> 'e ClientEnd) go" where
  "MakeEnd rn endname =
     (if ends rn endname \<noteq> None then Inl (LogFatal ''MakeEnd: already exists'')
      else let e = \<lparr>ce_endname = endname\<rparr>
           in Inr (rn\<lparr>ends := (ends rn)(endname \<mapsto> e), enabled := (enabled rn)(endname \<mapsto> False),
                      connections := (connections rn)(endname \<mapsto> None)\<rparr>, e))"

definition AddServer :: "('e, 'k) Network \<Rightarrow> 'k \<Rightarrow> nat \<Rightarrow> ('e, 'k) Network" where
  "AddServer rn servername rs = rn\<lparr>servers := (servers rn)(servername \<mapsto> Some rs)\<rparr>"

definition DeleteServer :: "('e, 'k) Network \<Rightarrow> 'k \<Rightarrow> ('e, 'k) Network" where
  "DeleteServer rn servername = rn\<lparr>servers := (servers rn)(servername \<mapsto> None)\<rparr>"

definition Connect :: "('e, 'k) Network \<Rightarrow> 'e \<Rightarrow> 'k \<Rightarrow> ('e, 'k) Network" where
  "Connect rn endname servername = rn\<lparr>connections := (connections rn)(endname \<mapsto> Some servername)\<rparr>"

definition Enable :: "('e, 'k) Network \<Rightarrow> 'e \<Rightarrow> bool \<Rightarrow> ('e, 'k) Network" where
  "Enable rn endname en = rn\<lparr>enabled := (enabled rn)(endname \<mapsto> en)\<rparr>"

lemmas network_op_defs = Cleanup_def Reliable_def LongReordering_def LongDelays_def MakeEnd_def AddServer_def
  DeleteServer_def Connect_def Enable_def

text \<open>\<^verbatim>\<open>GetCount\<close> of a server that was deleted or never added locks a mutex behind a nil pointer.\<close>

definition GetCount :: "('e, 'k) Network \<Rightarrow> ('o, 'c) Server list \<Rightarrow> 'k \<Rightarrow> int go" where
  "GetCount rn heap servername =
     (case map_get (servers rn) None servername of
        None \<Rightarrow> Inl NilDereference | Some p \<Rightarrow> Inr (srv_count (heap ! p)))"

definition GetTotalCount :: "('e, 'k) Network \<Rightarrow> int" where
  "GetTotalCount rn = sint (rpc_count rn)"

definition GetTotalBytes :: "('e, 'k) Network \<Rightarrow> int" where
  "GetTotalBytes rn = sint (rpc_bytes rn)"

definition count_bytes :: "nat \<Rightarrow> ('e, 'k) Network \<Rightarrow> ('e, 'k) Network" where
  "count_bytes n rn = rn\<lparr>rpc_bytes := rpc_bytes rn + word_of_nat n\<rparr>"

section \<open>Calling\<close>

text \<open>
  \<^verbatim>\<open>Call\<close> up to the point where it sends the request: \<open>ch\<close> is the channel it has made for the reply.
\<close>

definition Call_request ::
  "tenv \<Rightarrow> 'e ClientEnd \<Rightarrow> string \<Rightarrow> gotype \<times> 'c goval \<Rightarrow> nat \<Rightarrow> labgob \<Rightarrow>
   (('e, 'c) reqMsg \<times> labgob) go" where
  "Call_request env e meth args ch st =
     bind_go (Encode env [] (Some args) st) (\<lambda>(qb, st).
       Inr (\<lparr>req_endname = ce_endname e, svcMeth = meth, argsType = reflect_TypeOf args,
             req_args = qb, replyCh = ch\<rparr>, st))"

text \<open>\<^verbatim>\<open>Call\<close> from the reply on: what it returns and the variable behind \<^verbatim>\<open>reply\<close> afterwards.\<close>

definition Call_return ::
  "tenv \<Rightarrow> 'c replyMsg \<Rightarrow> gotype \<times> 'c goval \<Rightarrow> labgob \<Rightarrow> ((bool \<times> 'c goval) \<times> labgob) go" where
  "Call_return env rep reply st =
     (if rep_ok rep then
        bind_go (Decode env (rep_reply rep) (Some reply) st) (\<lambda>((ok, v, _), st).
          if ok then Inr ((True, v), st) else Inl (LogFatal ''ClientEnd.Call(): decode reply''))
      else Inr ((False, snd reply), st))"

end
