(* ===== verification/ProcessReq.thy ===== *)
theory ProcessReq
  imports LabRpc
begin

text \<open>
  One request from its arrival to its reply, \<^verbatim>\<open>processReq\<close> of \<^verbatim>\<open>Task5/labrpc/labrpc.go\<close>, and any number
  of them side by side with the operations that change the network.

  The state of a goroutine that runs \<^verbatim>\<open>processReq\<close> (\<open>proc\<close>) is the point where it waits. The world
  holds the network, the servers, these goroutines, the replies that were sent and, for the
  statements, a record of which request was handled with which result.
\<close>

section \<open>States of processReq\<close>

record 'k conn_info =
  ci_servername :: 'k
  ci_server :: nat
  ci_reliable :: bool
  ci_longreordering :: bool

datatype ('e, 'k, 'c) proc =
    Begin "('e, 'c) reqMsg"
  | Slept nat "('e, 'c) reqMsg" "'k conn_info"
  | Waiting "('e, 'c) reqMsg" "'k conn_info"
  | Returned "('e, 'c) reqMsg" "'k conn_info" "'c replyMsg"
  | Finish "('e, 'c) reqMsg" "'k conn_info" "'c replyMsg option"
  | Timer nat nat "'c replyMsg" bool
  | Orphan "('e, 'c) reqMsg" "'k conn_info"

text \<open>
  \<open>Slept\<close>: after the short delay; \<open>Waiting\<close>: the handler's goroutine runs; \<open>Returned\<close>: it offers its
  result; \<open>Finish\<close>: the wait is over, with a result or because the server is dead; \<open>Timer\<close>: a reply is
  on its way after some milliseconds, counted as bytes or not; \<open>Orphan\<close>: the handler's goroutine of a
  request that is not waited for any more. Random numbers are arguments.
\<close>

definition processReq_begin ::
  "('e, 'k) Network \<Rightarrow> ('e, 'c) reqMsg \<Rightarrow> nat \<Rightarrow> ('e, 'k, 'c) proc" where
  "processReq_begin rn req r =
     (let (en, servername, server, rel, lr) = readEndnameInfo rn (req_endname req)
      in case (en, servername, server) of
           (True, Some k, Some p) \<Rightarrow>
             Slept (if rel = False then r mod 27 else 0) req
               \<lparr>ci_servername = k, ci_server = p, ci_reliable = rel, ci_longreordering = lr\<rparr>
         | _ \<Rightarrow> Timer (if longDelays rn then r mod 7000 else r mod 100) (replyCh req) fail_reply False)"

definition processReq_drop :: "('e, 'c) reqMsg \<Rightarrow> 'k conn_info \<Rightarrow> nat \<Rightarrow> ('e, 'k, 'c) proc" where
  "processReq_drop req ci r =
     (if ci_reliable ci = False \<and> r mod 1000 < 100 then Timer 0 (replyCh req) fail_reply False
      else Waiting req ci)"

definition processReq_poll ::
  "('e, 'k) Network \<Rightarrow> ('e, 'c) reqMsg \<Rightarrow> 'k conn_info \<Rightarrow> bool" where
  "processReq_poll rn req ci = isServerDead rn (req_endname req) (ci_servername ci) (ci_server ci)"

definition processReq_finish ::
  "('e, 'k) Network \<Rightarrow> ('e, 'c) reqMsg \<Rightarrow> 'k conn_info \<Rightarrow> 'c replyMsg option \<Rightarrow>
   nat \<Rightarrow> nat \<Rightarrow> nat \<Rightarrow> nat \<Rightarrow> ('e, 'k, 'c) proc" where
  "processReq_finish rn req ci rep r1 r2 r3 r4 =
     (let serverDead = isServerDead rn (req_endname req) (ci_servername ci) (ci_server ci)
      in case rep of
           None \<Rightarrow> Timer 0 (replyCh req) fail_reply False
         | Some reply \<Rightarrow>
             if serverDead then Timer 0 (replyCh req) fail_reply False
             else if ci_reliable ci = False \<and> r1 mod 1000 < 100
             then Timer 0 (replyCh req) fail_reply False
             else if ci_longreordering ci \<and> r2 mod 900 < 600
             then Timer (200 + r3 mod (1 + r4 mod 2000)) (replyCh req) reply True
             else Timer 0 (replyCh req) reply True)"

section \<open>The world\<close>

record ('e, 'k, 'o, 'c) world =
  net :: "('e, 'k) Network"
  heap :: "('o, 'c) Server list"
  procs :: "('e, 'k, 'c) proc list"
  sent :: "(nat \<times> 'c replyMsg) list"
  handled :: "(nat \<times> 'c replyMsg) list"
  next_ch :: nat
  serving :: bool
  lab :: labgob

text \<open>The handler's goroutine.\<close>

definition execute ::
  "tenv \<Rightarrow> ('e, 'c) reqMsg \<Rightarrow> nat \<Rightarrow> ('e, 'k, 'o, 'c) world \<Rightarrow>
   ('c replyMsg \<times> ('e, 'k, 'o, 'c) world) go" where
  "execute env req p w =
     bind_go (go_index (heap w) (int p)) (\<lambda>srv.
     bind_go (Server_dispatch env srv req (lab w)) (\<lambda>(reply, srv, st).
       Inr (reply, w\<lparr>heap := (heap w)[p := srv], lab := st,
                     handled := handled w @ [(replyCh req, reply)]\<rparr>)))"

text \<open>A goroutine runs to its next wait: what becomes of it, and of the world.\<close>

fun proc_run ::
  "tenv \<Rightarrow> ('c goval list \<Rightarrow> nat) \<Rightarrow> nat \<times> nat \<times> nat \<times> nat \<Rightarrow> ('e, 'k, 'c) proc \<Rightarrow>
   ('e, 'k, 'o, 'c) world \<Rightarrow> (('e, 'k, 'c) proc list \<times> ('e, 'k, 'o, 'c) world) go" where
  "proc_run env blen (r1, r2, r3, r4) (Begin req) w = Inr ([processReq_begin (net w) req r1], w)"
| "proc_run env blen (r1, r2, r3, r4) (Slept ms req ci) w = Inr ([processReq_drop req ci r1], w)"
| "proc_run env blen rs (Waiting req ci) w =
     bind_go (execute env req (ci_server ci) w) (\<lambda>(reply, w). Inr ([Returned req ci reply], w))"
| "proc_run env blen rs (Returned req ci reply) w = Inr ([Finish req ci (Some reply)], w)"
| "proc_run env blen (r1, r2, r3, r4) (Finish req ci rep) w =
     Inr ([processReq_finish (net w) req ci rep r1 r2 r3 r4], w)"
| "proc_run env blen rs (Timer ms ch reply counted) w =
     Inr ([], w\<lparr>net := (if counted then count_bytes (blen (rep_reply reply)) (net w) else net w),
               sent := sent w @ [(ch, reply)]\<rparr>)"
| "proc_run env blen rs (Orphan req ci) w =
     bind_go (execute env req (ci_server ci) w) (\<lambda>(reply, w). Inr ([], w))"

text \<open>A tenth of a second passes for a goroutine that waits for a handler.\<close>

fun proc_poll :: "('e, 'k) Network \<Rightarrow> ('e, 'k, 'c) proc \<Rightarrow> ('e, 'k, 'c) proc list option" where
  "proc_poll rn (Waiting req ci) =
     Some (if processReq_poll rn req ci then [Finish req ci None, Orphan req ci] else [Waiting req ci])"
| "proc_poll rn (Returned req ci reply) =
     Some (if processReq_poll rn req ci then [Finish req ci None] else [Returned req ci reply])"
| "proc_poll rn p = None"

datatype ('e, 'k) admin =
    SetReliable bool | SetLongReordering bool | SetLongDelays bool
  | DoMakeEnd 'e | DoConnect 'e 'k | DoEnable 'e bool | DoDeleteServer 'k | DoCleanup

fun do_admin :: "('e, 'k) admin \<Rightarrow> ('e, 'k) Network \<Rightarrow> ('e, 'k) Network go" where
  "do_admin (SetReliable b) rn = Inr (Reliable rn b)"
| "do_admin (SetLongReordering b) rn = Inr (LongReordering rn b)"
| "do_admin (SetLongDelays b) rn = Inr (LongDelays rn b)"
| "do_admin (DoMakeEnd e) rn = bind_go (MakeEnd rn e) (\<lambda>(rn, _). Inr rn)"
| "do_admin (DoConnect e k) rn = Inr (Connect rn e k)"
| "do_admin (DoEnable e b) rn = Inr (Enable rn e b)"
| "do_admin (DoDeleteServer k) rn = Inr (DeleteServer rn k)"
| "do_admin DoCleanup rn = Cleanup rn"

datatype ('e, 'k, 'o, 'c) net_event =
    NCall 'e string "gotype \<times> 'c goval"
  | NCallDone 'e string "gotype \<times> 'c goval"
  | NStop
  | NRun nat "nat \<times> nat \<times> nat \<times> nat"
  | NPoll nat
  | NAdmin "('e, 'k) admin"
  | NAddServer 'k "('o, 'c) Server"

definition replace_at :: "nat \<Rightarrow> 'a list \<Rightarrow> 'a list \<Rightarrow> 'a list" where
  "replace_at i ys xs = take i xs @ ys @ drop (Suc i) xs"

text \<open>
  One event; \<open>None\<close>: it cannot happen. \<open>NCall\<close> is \<^verbatim>\<open>Call\<close> sending its request and the network's goroutine
  taking it: it counts the request and starts \<^verbatim>\<open>processReq\<close>. After \<^verbatim>\<open>Cleanup\<close> the goroutine may end (\<open>NStop\<close>)
  and a call may give up instead of sending its request (\<open>NCallDone\<close>).
\<close>

fun net_step ::
  "tenv \<Rightarrow> ('c goval list \<Rightarrow> nat) \<Rightarrow> ('e, 'k, 'o, 'c) net_event \<Rightarrow> ('e, 'k, 'o, 'c) world \<Rightarrow>
   ('e, 'k, 'o, 'c) world go option" where
  "net_step env blen (NCall e meth args) w =
     (if \<not> serving w then None
      else Some (bind_go (Call_request env \<lparr>ce_endname = e\<rparr> meth args (next_ch w) (lab w)) (\<lambda>(req, st).
        let rn = count_bytes (blen (req_args req)) ((net w)\<lparr>rpc_count := rpc_count (net w) + 1\<rparr>)
        in Inr (w\<lparr>net := rn, procs := procs w @ [Begin req], next_ch := next_ch w + 1, lab := st\<rparr>))))"
| "net_step env blen (NCallDone e meth args) w =
     (if net_done (net w) then
        Some (bind_go (Call_request env \<lparr>ce_endname = e\<rparr> meth args (next_ch w) (lab w)) (\<lambda>(req, st).
          Inr (w\<lparr>lab := st\<rparr>)))
      else None)"
| "net_step env blen NStop w =
     (if net_done (net w) \<and> serving w then Some (Inr (w\<lparr>serving := False\<rparr>)) else None)"
| "net_step env blen (NRun i rs) w =
     (if i < length (procs w) then
        Some (bind_go (proc_run env blen rs (procs w ! i) w) (\<lambda>(ps, w).
          Inr (w\<lparr>procs := replace_at i ps (procs w)\<rparr>)))
      else None)"
| "net_step env blen (NPoll i) w =
     (if i < length (procs w) then
        map_option (\<lambda>ps. Inr (w\<lparr>procs := replace_at i ps (procs w)\<rparr>)) (proc_poll (net w) (procs w ! i))
      else None)"
| "net_step env blen (NAdmin a) w = Some (bind_go (do_admin a (net w)) (\<lambda>rn. Inr (w\<lparr>net := rn\<rparr>)))"
| "net_step env blen (NAddServer k srv) w =
     Some (Inr (w\<lparr>heap := heap w @ [srv], net := AddServer (net w) k (length (heap w))\<rparr>))"

definition init_world :: "labgob \<Rightarrow> ('e, 'k, 'o, 'c) world" where
  "init_world st = \<lparr>net = MakeNetwork, heap = [], procs = [], sent = [], handled = [], next_ch = 0,
     serving = True, lab = st\<rparr>"

definition net_next ::
  "tenv \<Rightarrow> ('c goval list \<Rightarrow> nat) \<Rightarrow> ('e, 'k, 'o, 'c) world \<Rightarrow> ('e, 'k, 'o, 'c) world \<Rightarrow> bool" where
  "net_next env blen w w' \<longleftrightarrow> (\<exists>ev. net_step env blen ev w = Some (Inr w'))"

definition net_reach ::
  "tenv \<Rightarrow> ('c goval list \<Rightarrow> nat) \<Rightarrow> ('e, 'k, 'o, 'c) world \<Rightarrow> bool" where
  "net_reach env blen = reach (\<lambda>w. \<exists>st. w = init_world st) (net_next env blen)"

text \<open>A sequence of events.\<close>

fun net_run ::
  "tenv \<Rightarrow> ('c goval list \<Rightarrow> nat) \<Rightarrow> ('e, 'k, 'o, 'c) net_event list \<Rightarrow> ('e, 'k, 'o, 'c) world \<Rightarrow>
   ('e, 'k, 'o, 'c) world go option" where
  "net_run env blen [] w = Some (Inr w)"
| "net_run env blen (ev # evs) w =
     (case net_step env blen ev w of Some (Inr w') \<Rightarrow> net_run env blen evs w' | r \<Rightarrow> r)"

lemma net_run_reach:
  assumes "net_run env blen evs w = Some (Inr w')" and "net_reach env blen w"
  shows "net_reach env blen w'"
  using assms
proof (induction evs arbitrary: w)
  case (Cons ev evs)
  then obtain w1 where w1: "net_step env blen ev w = Some (Inr w1)" "net_run env blen evs w1 = Some (Inr w')"
    by (auto split: option.splits sum.splits)
  then have "net_next env blen w w1" by (auto simp: net_next_def)
  then have "net_reach env blen w1"
    using Cons.prems(2) unfolding net_reach_def by (rule reach.reach_step [rotated])
  with w1(2) show ?case by (rule Cons.IH)
qed simp

text \<open>What a run of a goroutine and a look at the clock are made of.\<close>

lemma net_step_runE:
  assumes "net_step env blen (NRun i rs) w = Some (Inr w')"
  obtains ps w1 where "i < length (procs w)" and "proc_run env blen rs (procs w ! i) w = Inr (ps, w1)"
    and "w' = w1\<lparr>procs := replace_at i ps (procs w1)\<rparr>"
  using assms by (auto split: if_splits)

lemma net_step_pollE:
  assumes "net_step env blen (NPoll i) w = Some (Inr w')"
  obtains ps where "i < length (procs w)" and "proc_poll (net w) (procs w ! i) = Some ps"
    and "w' = w\<lparr>procs := replace_at i ps (procs w)\<rparr>"
  using assms by (auto split: if_splits)

section \<open>Accounts\<close>

text \<open>The channel a goroutine still has to reply on, and the request whose handler it may still run.\<close>

fun awaits :: "('e, 'k, 'c) proc \<Rightarrow> nat option" where
  "awaits (Begin req) = Some (replyCh req)"
| "awaits (Slept ms req ci) = Some (replyCh req)"
| "awaits (Waiting req ci) = Some (replyCh req)"
| "awaits (Returned req ci reply) = Some (replyCh req)"
| "awaits (Finish req ci rep) = Some (replyCh req)"
| "awaits (Timer ms ch reply counted) = Some ch"
| "awaits (Orphan req ci) = None"

fun may_run :: "('e, 'k, 'c) proc \<Rightarrow> nat option" where
  "may_run (Begin req) = Some (replyCh req)"
| "may_run (Slept ms req ci) = Some (replyCh req)"
| "may_run (Waiting req ci) = Some (replyCh req)"
| "may_run (Orphan req ci) = Some (replyCh req)"
| "may_run p = None"

definition tally :: "('a \<Rightarrow> nat option) \<Rightarrow> nat \<Rightarrow> 'a list \<Rightarrow> nat" where
  "tally f ch xs = length (filter (\<lambda>x. f x = Some ch) xs)"

abbreviation "on_channel \<equiv> (\<lambda>x. Some (fst x))"

lemma tally_simps [simp]:
  "tally f ch [] = 0"
  "tally f ch (x # xs) = (if f x = Some ch then 1 else 0) + tally f ch xs"
  "tally f ch (xs @ ys) = tally f ch xs + tally f ch ys"
  by (simp_all add: tally_def)

lemma tally_replace:
  assumes "i < length xs"
  shows "tally f ch (replace_at i ys xs) + (if f (xs ! i) = Some ch then 1 else 0) =
    tally f ch xs + tally f ch ys"
proof -
  have "tally f ch xs = tally f ch (take i xs @ xs ! i # drop (Suc i) xs)"
    using assms by (simp add: id_take_nth_drop [symmetric])
  then show ?thesis by (simp add: replace_at_def)
qed

lemma set_replace_at: "x \<in> set (replace_at i ys xs) \<Longrightarrow> x \<in> set xs \<or> x \<in> set ys"
  by (auto simp: replace_at_def dest: in_set_takeD in_set_dropD)

text \<open>A positive result that a goroutine carries is the result of the request's handler.\<close>

fun proc_ok :: "(nat \<times> 'c replyMsg) list \<Rightarrow> nat \<Rightarrow> ('e, 'k, 'c) proc \<Rightarrow> bool" where
  "proc_ok H n (Begin req) \<longleftrightarrow> True"
| "proc_ok H n (Slept ms req ci) \<longleftrightarrow> ci_server ci < n"
| "proc_ok H n (Waiting req ci) \<longleftrightarrow> ci_server ci < n"
| "proc_ok H n (Returned req ci reply) \<longleftrightarrow> ci_server ci < n \<and> (replyCh req, reply) \<in> set H"
| "proc_ok H n (Finish req ci rep) \<longleftrightarrow>
     ci_server ci < n \<and> (case rep of None \<Rightarrow> True | Some reply \<Rightarrow> (replyCh req, reply) \<in> set H)"
| "proc_ok H n (Timer ms ch reply counted) \<longleftrightarrow> \<not> rep_ok reply \<or> (ch, reply) \<in> set H"
| "proc_ok H n (Orphan req ci) \<longleftrightarrow> ci_server ci < n"

lemma proc_ok_mono: "proc_ok H n p \<Longrightarrow> set H \<subseteq> set H' \<Longrightarrow> n \<le> n' \<Longrightarrow> proc_ok H' n' p"
  by (cases p) (auto split: option.splits)

definition servers_ok :: "('e, 'k) Network \<Rightarrow> nat \<Rightarrow> bool" where
  "servers_ok rn n \<longleftrightarrow> (\<forall>k p. servers rn k = Some (Some p) \<longrightarrow> p < n)"

definition world_inv :: "('e, 'k, 'o, 'c) world \<Rightarrow> bool" where
  "world_inv w \<longleftrightarrow>
     (\<forall>ch. tally awaits ch (procs w) + tally on_channel ch (sent w) = (if ch < next_ch w then 1 else 0)) \<and>
     (\<forall>ch. tally may_run ch (procs w) + tally on_channel ch (handled w) \<le> (if ch < next_ch w then 1 else 0)) \<and>
     (\<forall>p \<in> set (procs w). proc_ok (handled w) (length (heap w)) p) \<and>
     (\<forall>x \<in> set (sent w). rep_ok (snd x) \<longrightarrow> x \<in> set (handled w)) \<and>
     servers_ok (net w) (length (heap w))"

section \<open>Every event keeps the accounts\<close>

lemma rep_ok_fail [simp]: "\<not> rep_ok fail_reply"
  by (simp add: fail_reply_def)

lemma processReq_begin_awaits: "awaits (processReq_begin rn req r) = Some (replyCh req)"
  by (auto simp: processReq_begin_def readEndnameInfo_def Let_def split: option.splits bool.splits)

lemma processReq_begin_facts:
  assumes "servers_ok rn n"
  shows "awaits (processReq_begin rn req r) = Some (replyCh req)"
    and "may_run (processReq_begin rn req r) \<in> {None, Some (replyCh req)}"
    and "proc_ok H n (processReq_begin rn req r)"
  using assms
  by (auto simp: processReq_begin_def readEndnameInfo_def Let_def servers_ok_def map_get_def
      split: option.splits bool.splits)

lemma processReq_drop_facts:
  "awaits (processReq_drop req ci r) = Some (replyCh req)"
  "may_run (processReq_drop req ci r) \<in> {None, Some (replyCh req)}"
  "ci_server ci < n \<Longrightarrow> proc_ok H n (processReq_drop req ci r)"
  by (auto simp: processReq_drop_def)

lemma processReq_finish_facts:
  "awaits (processReq_finish rn req ci rep r1 r2 r3 r4) = Some (replyCh req)"
  "may_run (processReq_finish rn req ci rep r1 r2 r3 r4) = None"
  "proc_ok H n (Finish req ci rep) \<Longrightarrow> proc_ok H n (processReq_finish rn req ci rep r1 r2 r3 r4)"
  by (auto simp: processReq_finish_def Let_def split: option.splits)

lemma execute_facts:
  assumes "execute env req p w = Inr (reply, w')"
  shows "procs w' = procs w" "sent w' = sent w" "next_ch w' = next_ch w" "net w' = net w"
    "length (heap w') = length (heap w)" "handled w' = handled w @ [(replyCh req, reply)]"
  using assms by (auto simp: execute_def)

lemma servers_count_bytes [simp]: "servers_ok (count_bytes n rn) m = servers_ok rn m"
  by (simp add: servers_ok_def count_bytes_def)

text \<open>What one run of a goroutine does to the accounts.\<close>

definition fair_trade ::
  "('e, 'k, 'c) proc \<Rightarrow> ('e, 'k, 'c) proc list \<Rightarrow> ('e, 'k, 'o, 'c) world \<Rightarrow> ('e, 'k, 'o, 'c) world \<Rightarrow> bool" where
  "fair_trade p ps w w' \<longleftrightarrow> procs w' = procs w \<and> next_ch w' = next_ch w \<and>
     length (heap w') = length (heap w) \<and> set (handled w) \<subseteq> set (handled w') \<and>
     servers_ok (net w') (length (heap w)) \<and>
     (\<forall>ch. tally awaits ch ps + tally on_channel ch (sent w') =
        (if awaits p = Some ch then 1 else 0) + tally on_channel ch (sent w)) \<and>
     (\<forall>ch. tally may_run ch ps + tally on_channel ch (handled w') \<le>
        (if may_run p = Some ch then 1 else 0) + tally on_channel ch (handled w)) \<and>
     (\<forall>q \<in> set ps. proc_ok (handled w') (length (heap w)) q) \<and>
     (\<forall>x \<in> set (sent w'). rep_ok (snd x) \<longrightarrow> x \<in> set (handled w'))"

lemma proc_run_trades:
  assumes inv: "world_inv w" and p: "p \<in> set (procs w)"
    and run: "proc_run env blen rs p w = Inr (ps, w')"
  shows "fair_trade p ps w w'"
proof -
  have ok: "proc_ok (handled w) (length (heap w)) p" "servers_ok (net w) (length (heap w))"
    "\<forall>x \<in> set (sent w). rep_ok (snd x) \<longrightarrow> x \<in> set (handled w)"
    using inv p by (auto simp: world_inv_def)
  obtain r1 r2 r3 r4 where rs: "rs = (r1, r2, r3, r4)" by (cases rs)
  show ?thesis
  proof (cases p)
    case (Begin req)
    then have "ps = [processReq_begin (net w) req r1]" "w' = w" using run rs by auto
    then show ?thesis
      using processReq_begin_facts [OF ok(2), where req = req and r = r1] ok Begin
      by (auto simp: fair_trade_def)
  next
    case (Slept ms req ci)
    then have "ps = [processReq_drop req ci r1]" "w' = w" using run rs by auto
    then show ?thesis
      using processReq_drop_facts [where req = req and ci = ci and r = r1] ok Slept
      by (auto simp: fair_trade_def)
  next
    case (Waiting req ci)
    then obtain reply where ex: "execute env req (ci_server ci) w = Inr (reply, w')"
      and ps: "ps = [Returned req ci reply]"
      using run by auto
    from execute_facts [OF ex] ps ok Waiting show ?thesis by (auto simp: fair_trade_def)
  next
    case (Returned req ci reply)
    then have "ps = [Finish req ci (Some reply)]" "w' = w" using run by auto
    then show ?thesis using ok Returned by (simp add: fair_trade_def)
  next
    case (Finish req ci rep)
    then have "ps = [processReq_finish (net w) req ci rep r1 r2 r3 r4]" "w' = w" using run rs by auto
    then show ?thesis
      using processReq_finish_facts [where req = req and ci = ci and rep = rep] ok Finish
      by (simp add: fair_trade_def)
  next
    case (Timer ms ch reply counted)
    then show ?thesis using run ok by (auto simp: fair_trade_def)
  next
    case (Orphan req ci)
    then obtain reply where ex: "execute env req (ci_server ci) w = Inr (reply, w')" and ps: "ps = []"
      using run by auto
    from execute_facts [OF ex] ps ok Orphan show ?thesis by (auto simp: fair_trade_def)
  qed
qed

lemma proc_poll_trades:
  assumes inv: "world_inv w" and p: "p \<in> set (procs w)" and poll: "proc_poll (net w) p = Some ps"
  shows "fair_trade p ps w w"
proof -
  have "proc_ok (handled w) (length (heap w)) p" "servers_ok (net w) (length (heap w))"
    "\<forall>x \<in> set (sent w). rep_ok (snd x) \<longrightarrow> x \<in> set (handled w)"
    using inv p by (auto simp: world_inv_def)
  with poll show ?thesis by (cases p) (auto simp: fair_trade_def split: if_splits)
qed

lemma world_inv_trade:
  assumes inv: "world_inv w" and i: "i < length (procs w)" and tr: "fair_trade (procs w ! i) ps w w'"
  shows "world_inv (w'\<lparr>procs := replace_at i ps (procs w')\<rparr>)"
proof -
  let ?p = "procs w ! i"
  have "tally awaits ch (replace_at i ps (procs w)) + tally on_channel ch (sent w') =
    (if ch < next_ch w then 1 else 0)" for ch
  proof -
    have "tally awaits ch (procs w) + tally on_channel ch (sent w) = (if ch < next_ch w then 1 else 0)"
      using inv unfolding world_inv_def by blast
    moreover have "tally awaits ch ps + tally on_channel ch (sent w') =
        (if awaits ?p = Some ch then 1 else 0) + tally on_channel ch (sent w)"
      using tr unfolding fair_trade_def by blast
    ultimately show ?thesis using tally_replace [OF i, of awaits ch ps] by linarith
  qed
  moreover have "tally may_run ch (replace_at i ps (procs w)) + tally on_channel ch (handled w') \<le>
    (if ch < next_ch w then 1 else 0)" for ch
  proof -
    have "tally may_run ch (procs w) + tally on_channel ch (handled w) \<le> (if ch < next_ch w then 1 else 0)"
      using inv unfolding world_inv_def by blast
    moreover have "tally may_run ch ps + tally on_channel ch (handled w') \<le>
        (if may_run ?p = Some ch then 1 else 0) + tally on_channel ch (handled w)"
      using tr unfolding fair_trade_def by blast
    ultimately show ?thesis using tally_replace [OF i, of may_run ch ps] by linarith
  qed
  moreover have "proc_ok (handled w') (length (heap w)) q" if "q \<in> set (replace_at i ps (procs w))" for q
    using set_replace_at [OF that] inv tr proc_ok_mono unfolding world_inv_def fair_trade_def by blast
  ultimately show ?thesis using tr by (simp add: world_inv_def fair_trade_def)
qed

text \<open>Operations on the network's tables.\<close>

lemma servers_ok_admin: "do_admin a rn = Inr rn' \<Longrightarrow> servers_ok rn n \<Longrightarrow> servers_ok rn' n"
  by (cases a) (auto simp: servers_ok_def network_op_defs Let_def split: if_splits)

lemma servers_ok_AddServer: "servers_ok rn n \<Longrightarrow> servers_ok (AddServer rn k n) (Suc n)"
  by (force simp: servers_ok_def AddServer_def less_Suc_eq)

lemma servers_ok_counted:
  "servers_ok (rn\<lparr>rpc_count := c\<rparr>) n = servers_ok rn n"
  by (simp add: servers_ok_def)

lemma world_inv_init: "world_inv (init_world st)"
  by (simp add: world_inv_def init_world_def servers_ok_def MakeNetwork_def)

lemma world_inv_call:
  assumes "world_inv w" and "replyCh req = next_ch w" and "servers_ok rn (length (heap w))"
  shows "world_inv (w\<lparr>net := rn, procs := procs w @ [Begin req], next_ch := next_ch w + 1, lab := st\<rparr>)"
proof -
  have old: "tally awaits ch (procs w) + tally on_channel ch (sent w) = (if ch < next_ch w then 1 else 0)"
    "tally may_run ch (procs w) + tally on_channel ch (handled w) \<le> (if ch < next_ch w then 1 else 0)" for ch
    using assms(1) unfolding world_inv_def by blast+
  have "tally awaits ch (procs w @ [Begin req]) + tally on_channel ch (sent w) =
      (if ch < next_ch w + 1 then 1 else 0)"
    "tally may_run ch (procs w @ [Begin req]) + tally on_channel ch (handled w) \<le>
      (if ch < next_ch w + 1 then 1 else 0)" for ch
    using old [of ch] assms(2) by (cases "ch < next_ch w"; simp)+
  with assms show ?thesis by (simp add: world_inv_def)
qed

lemma world_inv_step:
  assumes inv: "world_inv w" and step: "net_step env blen ev w = Some (Inr w')"
  shows "world_inv w'"
proof (cases ev)
  case (NCall e meth args)
  with step obtain req st where "Call_request env \<lparr>ce_endname = e\<rparr> meth args (next_ch w) (lab w) = Inr (req, st)"
    and w': "w' = w\<lparr>net := count_bytes (blen (req_args req)) ((net w)\<lparr>rpc_count := rpc_count (net w) + 1\<rparr>),
      procs := procs w @ [Begin req], next_ch := next_ch w + 1, lab := st\<rparr>"
    by (auto simp: Let_def split: if_splits)
  then have "replyCh req = next_ch w" by (auto simp: Call_request_def)
  moreover have "servers_ok (net w) (length (heap w))" using inv by (simp add: world_inv_def)
  ultimately show ?thesis
    unfolding w' by (intro world_inv_call [OF inv]) (simp_all add: servers_ok_counted)
next
  case (NCallDone e meth args)
  with step inv show ?thesis by (auto simp: world_inv_def split: if_splits)
next
  case NStop
  with step inv show ?thesis by (auto simp: world_inv_def split: if_splits)
next
  case (NRun i rs)
  with step obtain ps w1 where i: "i < length (procs w)"
    and run: "proc_run env blen rs (procs w ! i) w = Inr (ps, w1)"
    and w': "w' = w1\<lparr>procs := replace_at i ps (procs w1)\<rparr>"
    by (auto elim: net_step_runE simp del: net_step.simps)
  from proc_run_trades [OF inv nth_mem [OF i] run] show ?thesis
    unfolding w' by (rule world_inv_trade [OF inv i])
next
  case (NPoll i)
  with step obtain ps where i: "i < length (procs w)" and poll: "proc_poll (net w) (procs w ! i) = Some ps"
    and w': "w' = w\<lparr>procs := replace_at i ps (procs w)\<rparr>"
    by (auto elim: net_step_pollE simp del: net_step.simps)
  from proc_poll_trades [OF inv nth_mem [OF i] poll] show ?thesis
    unfolding w' by (rule world_inv_trade [OF inv i])
next
  case (NAdmin a)
  with step obtain rn where "do_admin a (net w) = Inr rn" "w' = w\<lparr>net := rn\<rparr>" by auto
  with inv servers_ok_admin show ?thesis by (auto simp: world_inv_def)
next
  case (NAddServer k srv)
  with step have w': "w' = w\<lparr>heap := heap w @ [srv], net := AddServer (net w) k (length (heap w))\<rparr>" by simp
  have "proc_ok (handled w) (Suc (length (heap w))) p" if "p \<in> set (procs w)" for p
    using inv that proc_ok_mono [of "handled w" "length (heap w)" p "handled w" "Suc (length (heap w))"]
    by (simp add: world_inv_def)
  with inv show ?thesis by (simp add: w' world_inv_def servers_ok_AddServer)
qed

interpretation rpc_world: invariant_system "\<lambda>w. \<exists>st. w = init_world st" "net_next env blen" world_inv
  for env blen
  by unfold_locales (auto simp: world_inv_init net_next_def intro: world_inv_step)

lemma reach_world_inv: "net_reach env blen w \<Longrightarrow> world_inv w"
  unfolding net_reach_def by (rule rpc_world.reach_inv)

lemma net_run_last:
  assumes "procs w = ps @ [p]"
  shows "net_step env blen (NRun (length ps) rs) w =
    Some (bind_go (proc_run env blen rs p w) (\<lambda>(qs, w'). Inr (w'\<lparr>procs := replace_at (length ps) qs (procs w')\<rparr>)))"
  using assms by simp

lemma replace_last [simp]: "replace_at (length ps) qs (ps @ [p]) = ps @ qs"
  by (simp add: replace_at_def)

section \<open>The contract of a call\<close>

text \<open>
  What a client of the network relies on: a call gets at most one reply, its request is executed at
  most once, and a positive reply is the result of an execution.
\<close>

locale rpc_contract =
  fixes reachable :: "'w \<Rightarrow> bool"
    and replies :: "'w \<Rightarrow> (nat \<times> 'r) list"
    and results :: "'w \<Rightarrow> (nat \<times> 'r) list"
    and positive :: "'r \<Rightarrow> bool"
  assumes replied_once: "reachable w \<Longrightarrow> distinct (map fst (replies w))"
    and executed_once: "reachable w \<Longrightarrow> distinct (map fst (results w))"
    and positive_executed:
      "reachable w \<Longrightarrow> (ch, r) \<in> set (replies w) \<Longrightarrow> positive r \<Longrightarrow> (ch, r) \<in> set (results w)"
begin

lemma the_reply: "reachable w \<Longrightarrow> (ch, r) \<in> set (replies w) \<Longrightarrow> (ch, r') \<in> set (replies w) \<Longrightarrow> r' = r"
  using replied_once by (metis eq_key_imp_eq_value)

lemma the_result: "reachable w \<Longrightarrow> (ch, r) \<in> set (results w) \<Longrightarrow> (ch, r') \<in> set (results w) \<Longrightarrow> r' = r"
  using executed_once by (metis eq_key_imp_eq_value)

lemma positive_reply:
  assumes "reachable w" and "(ch, r) \<in> set (replies w)" and "positive r"
  shows "(ch, r') \<in> set (results w) \<longleftrightarrow> r' = r"
  using assms positive_executed the_result by blast

end

lemma tally_zero: "tally on_channel ch xs = 0 \<longleftrightarrow> ch \<notin> fst ` set xs"
  by (induction xs) auto

lemma distinct_tally: "(\<And>ch. tally on_channel ch xs \<le> 1) \<Longrightarrow> distinct (map fst xs)"
proof (induction xs)
  case (Cons x xs)
  have t: "(if fst x = ch then 1 else 0) + tally on_channel ch xs \<le> 1" for ch
    using Cons.prems [of ch] by simp
  have "tally on_channel (fst x) xs = 0" using t [of "fst x"] by simp
  moreover have "tally on_channel ch xs \<le> 1" for ch using t [of ch] by linarith
  ultimately show ?case using Cons.IH by (simp add: tally_zero)
qed simp

lemma world_inv_once:
  assumes "world_inv w"
  shows "distinct (map fst (sent w))" and "distinct (map fst (handled w))"
proof -
  have "tally awaits ch (procs w) + tally on_channel ch (sent w) = (if ch < next_ch w then 1 else 0)"
    "tally may_run ch (procs w) + tally on_channel ch (handled w) \<le> (if ch < next_ch w then 1 else 0)" for ch
    using assms unfolding world_inv_def by blast+
  note inv = this
  have "tally on_channel ch (sent w) \<le> 1" for ch using inv(1) [of ch] by (cases "ch < next_ch w"; simp)
  then show "distinct (map fst (sent w))" by (rule distinct_tally)
  have "tally on_channel ch (handled w) \<le> 1" for ch using inv(2) [of ch] by (cases "ch < next_ch w"; simp)
  then show "distinct (map fst (handled w))" by (rule distinct_tally)
qed

interpretation calls: rpc_contract "net_reach env blen" sent handled rep_ok for env blen
  by unfold_locales (auto dest!: reach_world_inv intro: world_inv_once simp: world_inv_def)

section \<open>Requests of a deleted server\<close>

text \<open>
  The request, the server's name and the server that a goroutine works with, once it has them.
\<close>

fun bound_to :: "('e, 'k, 'c) proc \<Rightarrow> (nat \<times> 'k \<times> nat) option" where
  "bound_to (Slept ms req ci) = Some (replyCh req, ci_servername ci, ci_server ci)"
| "bound_to (Waiting req ci) = Some (replyCh req, ci_servername ci, ci_server ci)"
| "bound_to (Returned req ci reply) = Some (replyCh req, ci_servername ci, ci_server ci)"
| "bound_to (Finish req ci rep) = Some (replyCh req, ci_servername ci, ci_server ci)"
| "bound_to p = None"

fun hopeless :: "'k \<Rightarrow> nat \<Rightarrow> ('e, 'k, 'c) proc \<Rightarrow> bool" where
  "hopeless k p (Begin req) \<longleftrightarrow> False"
| "hopeless k p (Timer ms ch reply counted) \<longleftrightarrow> \<not> rep_ok reply"
| "hopeless k p (Orphan req ci) \<longleftrightarrow> True"
| "hopeless k p q \<longleftrightarrow> (\<exists>ch. bound_to q = Some (ch, k, p))"

definition unregistered :: "'k \<Rightarrow> nat \<Rightarrow> ('e, 'k, 'o, 'c) world \<Rightarrow> bool" where
  "unregistered k p w \<longleftrightarrow> p < length (heap w) \<and> map_get (servers (net w)) None k \<noteq> Some p"

definition abandoned :: "nat \<Rightarrow> 'k \<Rightarrow> nat \<Rightarrow> ('e, 'k, 'o, 'c) world \<Rightarrow> bool" where
  "abandoned ch k p w \<longleftrightarrow> ch < next_ch w \<and> unregistered k p w \<and>
     (\<forall>q \<in> set (procs w). awaits q = Some ch \<longrightarrow> hopeless k p q) \<and>
     (\<forall>r. (ch, r) \<in> set (sent w) \<longrightarrow> \<not> rep_ok r)"

lemma map_get_upd: "map_get (m(a \<mapsto> b)) z k = (if k = a then b else map_get m z k)"
  by (simp add: map_get_def)

lemma unregistered_admin: "do_admin a rn = Inr rn' \<Longrightarrow> map_get (servers rn) None k \<noteq> Some p \<Longrightarrow>
    map_get (servers rn') None k \<noteq> Some p"
  by (cases a) (auto simp: network_op_defs map_get_upd Let_def split: if_splits)

lemma hopeless_finish: "map_get (servers rn) None (ci_servername ci) \<noteq> Some (ci_server ci) \<Longrightarrow>
    hopeless k p (processReq_finish rn req ci rep r1 r2 r3 r4)"
  by (auto simp: processReq_finish_def isServerDead_def split: option.splits)

lemma abandoned_run:
  assumes "unregistered k p w" and "awaits q = Some ch \<longrightarrow> hopeless k p q"
    and "proc_run env blen rs q w = Inr (qs, w')"
  shows "unregistered k p w'" and "procs w' = procs w" and "next_ch w' = next_ch w"
    and "\<And>q'. q' \<in> set qs \<Longrightarrow> awaits q' = Some ch \<Longrightarrow> hopeless k p q'"
    and "\<And>r. (ch, r) \<in> set (sent w') \<Longrightarrow> (ch, r) \<in> set (sent w) \<or> \<not> rep_ok r"
proof -
  obtain r1 r2 r3 r4 where rs: "rs = (r1, r2, r3, r4)" by (cases rs)
  have "unregistered k p w' \<and> procs w' = procs w \<and> next_ch w' = next_ch w \<and>
    (\<forall>q' \<in> set qs. awaits q' = Some ch \<longrightarrow> hopeless k p q') \<and>
    (\<forall>r. (ch, r) \<in> set (sent w') \<longrightarrow> (ch, r) \<in> set (sent w) \<or> \<not> rep_ok r)"
    using assms(3)
  proof (cases q)
    case (Begin req)
    then show ?thesis using assms rs processReq_begin_awaits [of "net w" req r1] by auto
  next
    case (Slept ms req ci)
    then show ?thesis using assms rs by (auto simp: processReq_drop_def)
  next
    case (Waiting req ci)
    with assms obtain reply where ex: "execute env req (ci_server ci) w = Inr (reply, w')"
      and "qs = [Returned req ci reply]"
      by auto
    with execute_facts [OF ex] assms(1,2) Waiting show ?thesis by (auto simp: unregistered_def)
  next
    case (Finish req ci rep)
    then show ?thesis
      using assms rs hopeless_finish [of "net w" ci k p req rep r1 r2 r3 r4]
        processReq_finish_facts(1) [of "net w" req ci rep r1 r2 r3 r4]
      by (auto simp: unregistered_def)
  next
    case (Timer ms c reply counted)
    then show ?thesis using assms rs by (auto simp: unregistered_def count_bytes_def split: if_splits)
  next
    case (Orphan req ci)
    with assms obtain reply where ex: "execute env req (ci_server ci) w = Inr (reply, w')" and "qs = []"
      by auto
    with execute_facts [OF ex] assms(1) show ?thesis by (auto simp: unregistered_def)
  qed (use assms in auto)
  then show "unregistered k p w'" and "procs w' = procs w" and "next_ch w' = next_ch w"
    and "\<And>q'. q' \<in> set qs \<Longrightarrow> awaits q' = Some ch \<Longrightarrow> hopeless k p q'"
    and "\<And>r. (ch, r) \<in> set (sent w') \<Longrightarrow> (ch, r) \<in> set (sent w) \<or> \<not> rep_ok r"
    by blast+
qed

lemma abandoned_step:
  assumes ab: "abandoned ch k p w" and step: "net_step env blen ev w = Some (Inr w')"
  shows "abandoned ch k p w'"
proof (cases ev)
  case (NRun i rs)
  with step obtain ps w1 where i: "i < length (procs w)"
    and run: "proc_run env blen rs (procs w ! i) w = Inr (ps, w1)"
    and w': "w' = w1\<lparr>procs := replace_at i ps (procs w1)\<rparr>"
    by (auto elim: net_step_runE simp del: net_step.simps)
  have un: "unregistered k p w" and hop: "awaits (procs w ! i) = Some ch \<longrightarrow> hopeless k p (procs w ! i)"
    using ab i by (auto simp: abandoned_def)
  note r = abandoned_run [OF un hop run]
  have "awaits q = Some ch \<longrightarrow> hopeless k p q" if "q \<in> set (replace_at i ps (procs w))" for q
    using set_replace_at [OF that] ab r(4) by (auto simp: abandoned_def)
  moreover have "\<not> rep_ok x" if "(ch, x) \<in> set (sent w1)" for x
    using r(5) [OF that] ab by (auto simp: abandoned_def)
  ultimately show ?thesis
    using ab r(1,2,3) unfolding w' abandoned_def unregistered_def by simp
next
  case (NPoll i)
  with step obtain ps where i: "i < length (procs w)" and poll: "proc_poll (net w) (procs w ! i) = Some ps"
    and w': "w' = w\<lparr>procs := replace_at i ps (procs w)\<rparr>"
    by (auto elim: net_step_pollE simp del: net_step.simps)
  have hop: "awaits (procs w ! i) = Some ch \<Longrightarrow> hopeless k p (procs w ! i)"
    using ab i by (auto simp: abandoned_def)
  have "awaits q = Some ch \<Longrightarrow> hopeless k p q" if "q \<in> set ps" for q
    using poll hop that by (cases "procs w ! i") (auto split: if_splits)
  then show ?thesis
    using ab unfolding w' abandoned_def unregistered_def by (auto dest!: set_replace_at)
next
  case (NCall e meth args)
  with step ab show ?thesis
    by (auto simp: abandoned_def unregistered_def count_bytes_def Call_request_def Let_def split: if_splits)
next
  case (NAdmin a)
  with step ab show ?thesis by (auto simp: abandoned_def unregistered_def dest: unregistered_admin)
qed (use step ab in \<open>auto simp: abandoned_def unregistered_def AddServer_def map_get_upd split: if_splits\<close>)

lemma abandoned_net_run:
  "net_run env blen evs w = Some (Inr w') \<Longrightarrow> abandoned ch k p w \<Longrightarrow> abandoned ch k p w'"
  by (induction evs arbitrary: w)
    (auto split: option.splits sum.splits dest: abandoned_step)

text \<open>The first step of a goroutine that is bound to a server which is not registered any more.\<close>

lemma tally_elem: "x \<in> set xs \<Longrightarrow> f x = Some ch \<Longrightarrow> 0 < tally f ch xs"
  by (induction xs) auto

lemma bound_awaits: "bound_to q = Some (ch, k, p) \<Longrightarrow> awaits q = Some ch"
  by (cases q) auto

lemma tally_one: "tally f ch xs \<le> 1 \<Longrightarrow> x \<in> set xs \<Longrightarrow> y \<in> set xs \<Longrightarrow> f x = Some ch \<Longrightarrow> f y = Some ch \<Longrightarrow> x = y"
proof (induction xs)
  case (Cons a xs)
  then show ?case using tally_elem [of x xs f ch] tally_elem [of y xs f ch] by (auto split: if_splits)
qed simp

lemma abandoned_start:
  assumes inv: "world_inv w" and q: "q \<in> set (procs w)" and b: "bound_to q = Some (ch, k, p)"
    and dead: "map_get (servers (net w)) None k \<noteq> Some p"
  shows "abandoned ch k p w"
proof -
  have eq: "tally awaits ch (procs w) + tally on_channel ch (sent w) = (if ch < next_ch w then 1 else 0)"
    using inv unfolding world_inv_def by blast
  have pos: "0 < tally awaits ch (procs w)" using q bound_awaits [OF b] by (rule tally_elem)
  then have lt: "ch < next_ch w" and one: "tally awaits ch (procs w) = 1" and none: "tally on_channel ch (sent w) = 0"
    using eq by (auto split: if_splits)
  have "proc_ok (handled w) (length (heap w)) q" using inv q by (simp add: world_inv_def)
  then have "p < length (heap w)" and "hopeless k p q" using b by (cases q; auto)+
  moreover have "q' = q" if "q' \<in> set (procs w)" "awaits q' = Some ch" for q'
    using tally_one [of awaits ch "procs w" q' q] one that q bound_awaits [OF b] by simp
  ultimately show ?thesis
    using lt none dead by (auto simp: abandoned_def unregistered_def tally_zero image_iff)
qed

section \<open>Properties\<close>

text \<open>A service with one method, which counts its calls and returns its argument.\<close>

definition sample_method :: "(nat, nat) rmethod" where
  "sample_method = \<lparr>Name = ''Echo'', PkgPath = [], NumIn = 3, In2 = (TPtr TInt, VPtr (VInt 0) None),
     NumOut = 0, Func = (\<lambda>n a r. Inr (n + 1, VPtr (VInt 0) (Some a)))\<rparr>"

definition sample_server :: "(nat, nat) Server" where
  "sample_server = AddService MakeServer (MakeService ''Sample'' 0 [sample_method])"

definition sample_run :: "(nat, nat, nat, nat) net_event list" where
  "sample_run = [NAddServer 0 sample_server, NAdmin (DoMakeEnd 7), NAdmin (DoConnect 7 0),
     NAdmin (DoEnable 7 True), NCall 7 ''Sample.Echo'' (TInt, VInt 5),
     NRun 0 (0, 0, 0, 0), NRun 0 (0, 0, 0, 0), NRun 0 (0, 0, 0, 0), NRun 0 (0, 0, 0, 0),
     NRun 0 (0, 0, 0, 0), NRun 0 (0, 0, 0, 0)]"

definition sample_reply :: "nat replyMsg" where
  "sample_reply = \<lparr>rep_ok = True, rep_reply = [VInt 5]\<rparr>"

lemma map_option_sum_eq:
  assumes "map_option (map_sum id f) x = Some (Inr y)"
  obtains a where "x = Some (Inr a)" "f a = y"
proof -
  from assms obtain z where "x = Some z" "map_sum id f z = Inr y" by auto
  with that show thesis by (cases z) auto
qed

lemma sample_run_result:
  "map_option (map_sum id (\<lambda>w. (procs w, sent w, handled w, next_ch w)))
     (net_run [] length sample_run (init_world labgob_init)) =
   Some (Inr ([], [(0, sample_reply)], [(0, sample_reply)], 1))"
  by code_simp

lemma sample_world:
  obtains w :: "(nat, nat, nat, nat) world"
  where "net_reach [] length w" "procs w = []" "sent w = [(0, sample_reply)]"
    "handled w = [(0, sample_reply)]" "next_ch w = 1"
proof -
  obtain w :: "(nat, nat, nat, nat) world"
    where "net_run [] length sample_run (init_world labgob_init) = Some (Inr w)"
      and "procs w = []" "sent w = [(0, sample_reply)]" "handled w = [(0, sample_reply)]" "next_ch w = 1"
    using sample_run_result by (elim map_option_sum_eq) auto
  moreover have "net_reach [] length (init_world labgob_init)"
    by (auto simp: net_reach_def intro: reach.reach_init)
  ultimately show ?thesis using that net_run_reach by blast
qed

text \<open>
  C10: every request gets exactly one reply. In every reachable state, for every request sent so far
  either one goroutine still owes the reply and none was sent, or one reply was sent and no goroutine
  owes another.
\<close>

theorem exactly_one_reply:
  assumes "net_reach env blen w" and "ch < next_ch w"
  shows "tally awaits ch (procs w) + tally on_channel ch (sent w) = 1"
  using reach_world_inv [OF assms(1)] assms(2) unfolding world_inv_def by simp

theorem exactly_one_reply_witness:
  "\<exists>w :: (nat, nat, nat, nat) world. net_reach [] length w \<and>
     tally awaits 0 (procs w) + tally on_channel 0 (sent w) = 1 \<and> sent w \<noteq> []"
proof -
  obtain w :: "(nat, nat, nat, nat) world"
    where w: "net_reach [] length w" "next_ch w = 1" "sent w = [(0, sample_reply)]"
    by (rule sample_world)
  with exactly_one_reply [OF w(1), of 0] show ?thesis by auto
qed

text \<open>
  C6: at most once, and no invented results. A positive reply to a call is its only reply and the
  result of the only execution of its request.
\<close>

theorem positive_reply_is_the_result:
  assumes "net_reach env blen w" and "(ch, r) \<in> set (sent w)" and "rep_ok r"
  shows "{r'. (ch, r') \<in> set (sent w)} = {r} \<and> {r'. (ch, r') \<in> set (handled w)} = {r}"
  using assms calls.the_reply calls.positive_reply by blast

theorem positive_reply_is_the_result_witness:
  "\<exists>w :: (nat, nat, nat, nat) world. net_reach [] length w \<and>
     {r'. (0, r') \<in> set (handled w)} = {sample_reply}"
proof -
  obtain w :: "(nat, nat, nat, nat) world"
    where w: "net_reach [] length w" "sent w = [(0, sample_reply)]"
    by (rule sample_world)
  with positive_reply_is_the_result [OF w(1), of 0 sample_reply] show ?thesis
    by (auto simp: sample_reply_def)
qed

text \<open>
  A call on a network that neither loses nor delays messages, from an enabled end that is connected to a
  registered server, is answered with the result of its handler, whatever random numbers are drawn.
\<close>

lemma reliable_call_answered:
  assumes "serving w" and "reliable (net w)" and "\<not> longReordering (net w)"
    and "enabled (net w) e = Some True" and "connections (net w) e = Some (Some k)"
    and "servers (net w) k = Some (Some p)" and "p < length (heap w)"
    and "Call_request env \<lparr>ce_endname = e\<rparr> meth args (next_ch w) (lab w) = Inr (req, st)"
    and "Server_dispatch env (heap w ! p) req st = Inr (reply, srv, st')"
  shows "\<exists>w'. net_run env blen (NCall e meth args # map (NRun (length (procs w))) [r1, r2, r3, r4, r5, r6]) w =
      Some (Inr w') \<and> sent w' = sent w @ [(next_ch w, reply)] \<and> procs w' = procs w \<and>
      handled w' = handled w @ [(next_ch w, reply)] \<and> heap w' = (heap w)[p := srv]"
proof -
  let ?n = "count_bytes (blen (req_args req)) ((net w)\<lparr>rpc_count := rpc_count (net w) + 1\<rparr>)"
  let ?ci = "\<lparr>ci_servername = k, ci_server = p, ci_reliable = True, ci_longreordering = False\<rparr>"
  let ?w = "\<lambda>q. w\<lparr>net := ?n, procs := procs w @ [q], next_ch := next_ch w + 1, lab := st\<rparr>"
  let ?v = "\<lambda>qs. w\<lparr>net := ?n, procs := procs w @ qs, next_ch := next_ch w + 1, lab := st',
    heap := (heap w)[p := srv], handled := handled w @ [(next_ch w, reply)]\<rparr>"
  have req: "req_endname req = e" "replyCh req = next_ch w"
    using assms(8) by (auto simp: Call_request_def)
  have call: "net_step env blen (NCall e meth args) w = Some (Inr (?w (Begin req)))"
    using assms(1,8) by simp
  have s1: "net_step env blen (NRun (length (procs w)) r1) (?w (Begin req)) = Some (Inr (?w (Slept 0 req ?ci)))"
    using assms(2-6) req
    by (cases r1) (simp add: net_run_last processReq_begin_def readEndnameInfo_def map_get_def
        count_bytes_def del: net_step.simps)
  have s2: "net_step env blen (NRun (length (procs w)) r2) (?w (Slept 0 req ?ci)) = Some (Inr (?w (Waiting req ?ci)))"
    by (cases r2) (simp add: net_run_last processReq_drop_def del: net_step.simps)
  have s3: "net_step env blen (NRun (length (procs w)) r3) (?w (Waiting req ?ci)) =
      Some (Inr (?v [Returned req ?ci reply]))"
    using assms(7,9) req by (simp add: net_run_last execute_def del: net_step.simps)
  have s4: "net_step env blen (NRun (length (procs w)) r4) (?v [Returned req ?ci reply]) =
      Some (Inr (?v [Finish req ?ci (Some reply)]))"
    by (simp add: net_run_last del: net_step.simps)
  have s5: "net_step env blen (NRun (length (procs w)) r5) (?v [Finish req ?ci (Some reply)]) =
      Some (Inr (?v [Timer 0 (next_ch w) reply True]))"
    using assms(2-6) req
    by (cases r5) (simp add: net_run_last processReq_finish_def isServerDead_def map_get_def
        count_bytes_def del: net_step.simps)
  have s6: "net_step env blen (NRun (length (procs w)) r6) (?v [Timer 0 (next_ch w) reply True]) =
      Some (Inr ((?v [])\<lparr>net := count_bytes (blen (rep_reply reply)) ?n, sent := sent w @ [(next_ch w, reply)]\<rparr>))"
    by (simp add: net_run_last del: net_step.simps)
  have "net_run env blen (NCall e meth args # map (NRun (length (procs w))) [r1, r2, r3, r4, r5, r6]) w =
      Some (Inr ((?v [])\<lparr>net := count_bytes (blen (rep_reply reply)) ?n, sent := sent w @ [(next_ch w, reply)]\<rparr>))"
    by (simp only: list.map net_run.simps call s1 s2 s3 s4 s5 s6 option.case sum.case)
  then show ?thesis by - (rule exI, rule conjI, assumption, simp)
qed

definition sample_request :: "(nat, nat) reqMsg" where
  "sample_request = \<lparr>req_endname = 7, svcMeth = ''Sample.Echo'', argsType = (TInt, VInt 0),
     req_args = [VInt 5], replyCh = 0\<rparr>"

definition sample_lab :: labgob where
  "sample_lab = \<lparr>errorCount = 0, checked = [TInt], printed = []\<rparr>"

lemma sample_idle_call:
  "Call_request [] \<lparr>ce_endname = 7\<rparr> ''Sample.Echo'' (TInt, VInt 5) 0 labgob_init = Inr (sample_request, sample_lab)"
  by code_simp


definition sample_deletion :: "(nat, nat, nat, nat) net_event list" where
  "sample_deletion = [NRun 0 (0, 0, 0, 0), NRun 0 (0, 0, 0, 0), NRun 0 (0, 0, 0, 0), NRun 0 (0, 0, 0, 0)]"

lemma sample_deletion_bound:
  "map_option (map_sum id (\<lambda>w. map bound_to (procs w)))
     (net_run [] length (take 7 sample_run) (init_world labgob_init)) = Some (Inr [Some (0, 0, 0)])"
  by code_simp

lemma sample_deletion_result:
  "map_option (map_sum id (\<lambda>w. (sent w, handled w)))
     (net_run [] length (take 7 sample_run @ NAdmin (DoDeleteServer 0) # sample_deletion) (init_world labgob_init)) =
   Some (Inr ([(0, fail_reply)], [(0, sample_reply)]))"
  by code_simp

lemma net_run_append:
  "net_run env blen (xs @ ys) w =
     (case net_run env blen xs w of Some (Inr w') \<Rightarrow> net_run env blen ys w' | r \<Rightarrow> r)"
  by (induction xs arbitrary: w) (auto split: option.splits sum.splits)


fun delay_ok :: "('e, 'k, 'c) proc \<Rightarrow> bool" where
  "delay_ok (Slept ms req ci) \<longleftrightarrow> ms < 27"
| "delay_ok (Timer ms ch reply counted) \<longleftrightarrow>
     (if counted then ms = 0 \<or> 200 \<le> ms \<and> ms \<le> 2199 else ms < 7000 \<and> \<not> rep_ok reply)"
| "delay_ok p \<longleftrightarrow> True"

lemma delay_ok_begin: "delay_ok (processReq_begin rn req r)"
  by (auto simp: processReq_begin_def readEndnameInfo_def Let_def less_trans [OF mod_less_divisor]
      split: option.splits bool.splits)

lemma delay_ok_finish: "delay_ok (processReq_finish rn req ci rep r1 r2 r3 r4)"
proof -
  have "r3 mod (1 + r4 mod 2000) < 1 + r4 mod 2000" "r4 mod 2000 < 2000" by simp_all
  then have "r3 mod (1 + r4 mod 2000) \<le> 1999" by linarith
  then show ?thesis by (auto simp: processReq_finish_def Let_def split: option.splits)
qed

lemma delay_ok_run:
  assumes "proc_run env blen rs p w = Inr (ps, w')" and "q \<in> set ps"
  shows "delay_ok q"
  using assms by (cases rs; cases p) (auto simp: delay_ok_begin delay_ok_finish processReq_drop_def)

lemma delay_ok_poll: "proc_poll rn p = Some ps \<Longrightarrow> q \<in> set ps \<Longrightarrow> delay_ok q"
  by (cases p) (auto split: if_splits)

lemma proc_run_procs: "proc_run env blen rs p w = Inr (ps, w') \<Longrightarrow> procs w' = procs w"
  by (cases rs; cases p) (auto simp: execute_def)

lemma delay_ok_step:
  assumes old: "\<forall>p \<in> set (procs w). delay_ok p" and step: "net_step env blen ev w = Some (Inr w')"
  shows "\<forall>p \<in> set (procs w'). delay_ok p"
proof (cases ev)
  case (NRun i rs)
  with step obtain ps w1 where run: "proc_run env blen rs (procs w ! i) w = Inr (ps, w1)"
    and w': "w' = w1\<lparr>procs := replace_at i ps (procs w1)\<rparr>"
    by (auto elim: net_step_runE simp del: net_step.simps)
  with old proc_run_procs [OF run] delay_ok_run [OF run] show ?thesis by (auto dest!: set_replace_at)
next
  case (NPoll i)
  with step old show ?thesis by (auto split: if_splits dest!: set_replace_at dest: delay_ok_poll)
qed (use step old in \<open>auto simp: Let_def split: if_splits\<close>)

interpretation delays: invariant_system "\<lambda>w. \<exists>st. w = init_world st" "net_next env blen"
  "\<lambda>w. \<forall>p \<in> set (procs w). delay_ok p" for env blen
  by unfold_locales (auto simp: init_world_def net_next_def dest: delay_ok_step)

text \<open>
  The delays that the network adds are bounded. In every reachable state the short delay before a
  request is below 27 ms, a reply that comes from a handler is sent at once or after 200 to 2199 ms, and a
  failing reply after less than 7000 ms.
\<close>

lemma network_delays_bounded:
  assumes "net_reach env blen w" and "p \<in> set (procs w)"
  shows "delay_ok p"
  using assms delays.reach_inv unfolding net_reach_def by blast

lemma sample_delay:
  "map_option (map_sum id (\<lambda>w. procs w))
     (net_run [] length
       [NAdmin (SetLongDelays True), NAdmin (DoMakeEnd 7), NCall 7 ''Sample.Echo'' (TInt, VInt 5), NRun 0 (13999, 0, 0, 0)]
       (init_world labgob_init :: (nat, nat, nat, nat) world)) =
   Some (Inr [Timer 6999 0 fail_reply False])"
  by (simp add: init_world_def MakeNetwork_def LongDelays_def MakeEnd_def sample_idle_call sample_request_def
      count_bytes_def replace_at_def processReq_begin_def readEndnameInfo_def map_get_def Let_def)

lemma network_delays_bounded_witness:
  "\<exists>w :: (nat, nat, nat, nat) world. net_reach [] length w \<and> procs w = [Timer 6999 0 fail_reply False] \<and>
     delay_ok (Timer 6999 0 fail_reply False :: (nat, nat, nat) proc)"
proof -
  obtain w :: "(nat, nat, nat, nat) world"
    where w: "net_run [] length
       [NAdmin (SetLongDelays True), NAdmin (DoMakeEnd 7), NCall 7 ''Sample.Echo'' (TInt, VInt 5), NRun 0 (13999, 0, 0, 0)]
       (init_world labgob_init) = Some (Inr w)"
      and p: "procs w = [Timer 6999 0 fail_reply False]"
    using sample_delay by (elim map_option_sum_eq) auto
  have "net_reach [] length (init_world labgob_init)" by (auto simp: net_reach_def intro: reach.reach_init)
  then have r: "net_reach [] length w" using w net_run_reach by blast
  moreover have "delay_ok (hd (procs w))" by (rule network_delays_bounded [OF r]) (simp add: p)
  ultimately show ?thesis using p by auto
qed

lemma count_step:
  assumes "rpc_count (net w) = word_of_nat (next_ch w)" and "net_step env blen ev w = Some (Inr w')"
  shows "rpc_count (net w') = word_of_nat (next_ch w')"
proof (cases ev)
  case (NRun i rs)
  with assms(2) obtain ps w1 where run: "proc_run env blen rs (procs w ! i) w = Inr (ps, w1)"
    and w': "w' = w1\<lparr>procs := replace_at i ps (procs w1)\<rparr>"
    by (auto elim: net_step_runE simp del: net_step.simps)
  from run have "rpc_count (net w1) = rpc_count (net w) \<and> next_ch w1 = next_ch w"
    by (cases rs; cases "procs w ! i") (auto simp: execute_def count_bytes_def split: if_splits)
  with w' assms(1) show ?thesis by simp
next
  case (NAdmin a)
  with assms show ?thesis
    by (cases a) (auto simp: network_op_defs Let_def split: if_splits)
qed (use assms in \<open>auto simp: Let_def count_bytes_def AddServer_def split: if_splits\<close>)

interpretation counter: invariant_system "\<lambda>w. \<exists>st. w = init_world st" "net_next env blen"
  "\<lambda>w. rpc_count (net w) = word_of_nat (next_ch w)" for env blen
  by unfold_locales (auto simp: init_world_def MakeNetwork_def net_next_def intro: count_step)

lemma sint_word_of_nat: "sint (word_of_nat n :: 32 word) = (int n + 2 ^ 31) mod 2 ^ 32 - 2 ^ 31"
  by (simp add: signed_of_nat signed_take_bit_eq_take_bit_shift take_bit_eq_mod)

text \<open>
  C37: \<^verbatim>\<open>GetTotalCount\<close> returns the number of requests that the network has accepted as long as it is below
  \<open>2\<^sup>3\<^sup>1\<close>; beyond that the 32-bit counter wraps around to negative values.
\<close>

theorem GetTotalCount_wraps:
  assumes "net_reach env blen w"
  shows "GetTotalCount (net w) = (int (next_ch w) + 2 ^ 31) mod 2 ^ 32 - 2 ^ 31 \<and>
    (GetTotalCount (net w) = int (next_ch w) \<longleftrightarrow> next_ch w < 2 ^ 31)"
proof -
  have "GetTotalCount (net w) = (int (next_ch w) + 2 ^ 31) mod 2 ^ 32 - 2 ^ 31"
    using counter.reach_inv [OF assms [unfolded net_reach_def]]
    by (simp add: GetTotalCount_def sint_word_of_nat)
  moreover have "(int n + 2 ^ 31) mod 2 ^ 32 - 2 ^ 31 = int n \<longleftrightarrow> n < 2 ^ 31" for n
  proof
    assume "(int n + 2 ^ 31) mod 2 ^ 32 - 2 ^ 31 = int n"
    moreover have "(int n + 2 ^ 31) mod 2 ^ 32 < 2 * 2 ^ 31" by simp
    ultimately have "int n < 2 ^ 31" by linarith
    then show "n < 2 ^ 31" by simp
  qed (simp add: mod_pos_pos_trivial)
  ultimately show ?thesis by simp
qed

theorem GetTotalCount_wraps_witness:
  "\<exists>w :: (nat, nat, nat, nat) world. net_reach [] length w \<and> next_ch w = 1 \<and> GetTotalCount (net w) = 1"
proof -
  obtain w :: "(nat, nat, nat, nat) world" where w: "net_reach [] length w" "next_ch w = 1"
    by (rule sample_world)
  with GetTotalCount_wraps [OF w(1)] show ?thesis by auto
qed

end
