(* ===== verification/RaftRpc.thy ===== *)
theory RaftRpc
  imports LabRpc Replication
begin

text \<open>
  Raft's messages on the wire: the argument and reply structs of \<^verbatim>\<open>Task5/raft/raft.go\<close> as values that
  \<^verbatim>\<open>labgob\<close> carries, the methods of \<^verbatim>\<open>*Raft\<close> that \<^verbatim>\<open>labrpc.MakeService\<close> looks at, the server that
  \<^verbatim>\<open>start1\<close> of \<^verbatim>\<open>config.go\<close> builds from a peer, and \<^verbatim>\<open>sendRequestVote\<close> and \<^verbatim>\<open>sendAppendEntries\<close>.

  The interface \<open>rpc_method\<close> says what a handler and its messages must have; its lemma shows that a call
  through encoding, dispatch and decoding is a call of the handler.
\<close>

section \<open>Messages\<close>

definition ptr_to :: "'c goval \<Rightarrow> 'c goval" where
  "ptr_to v = VPtr (zero v) (Some v)"

definition rv_args_val :: "RequestVoteArgs \<Rightarrow> 'c goval" where
  "rv_args_val a = VStruct ''RequestVoteArgs''
     [(''Term'', VInt (rv_Term a)), (''CandidateID'', VInt (CandidateID a)),
      (''LastLogIndex'', VInt (LastLogIndex a)), (''LastLogTerm'', VInt (LastLogTerm a))]"

fun rv_args_of :: "'c goval \<Rightarrow> RequestVoteArgs" where
  "rv_args_of (VStruct _ [(_, VInt t), (_, VInt c), (_, VInt i), (_, VInt u)]) =
     \<lparr>rv_Term = t, CandidateID = c, LastLogIndex = i, LastLogTerm = u\<rparr>"
| "rv_args_of _ = \<lparr>rv_Term = 0, CandidateID = 0, LastLogIndex = 0, LastLogTerm = 0\<rparr>"

definition rv_reply_val :: "RequestVoteReply \<Rightarrow> 'c goval" where
  "rv_reply_val r = VStruct ''RequestVoteReply''
     [(''Term'', VInt (rvr_Term r)), (''VoteGranted'', VBool (VoteGranted r))]"

definition ae_args_val :: "'c AppendEntriesArgs \<Rightarrow> 'c goval" where
  "ae_args_val a = VStruct ''AppendEntriesArgs''
     [(''Term'', VInt (ae_Term a)), (''LeaderID'', VInt (LeaderID a)),
      (''PrevLogIndex'', VInt (PrevLogIndex a)), (''PrevLogTerm'', VInt (PrevLogTerm a)),
      (''Entries'', log_val (Entries a)), (''LeaderCommit'', VInt (LeaderCommit a))]"

fun ae_args_of :: "'c goval \<Rightarrow> 'c AppendEntriesArgs" where
  "ae_args_of (VStruct _ [(_, VInt t), (_, VInt l), (_, VInt i), (_, VInt u), (_, es), (_, VInt c)]) =
     \<lparr>ae_Term = t, LeaderID = l, PrevLogIndex = i, PrevLogTerm = u, Entries = log_of es, LeaderCommit = c\<rparr>"
| "ae_args_of _ = \<lparr>ae_Term = 0, LeaderID = 0, PrevLogIndex = 0, PrevLogTerm = 0, Entries = [], LeaderCommit = 0\<rparr>"

definition ae_reply_val :: "AppendEntriesReply \<Rightarrow> 'c goval" where
  "ae_reply_val r = VStruct ''AppendEntriesReply''
     [(''Term'', VInt (aer_Term r)), (''Success'', VBool (Success r)),
      (''ConflictIndex'', VInt (ConflictIndex r)), (''ConflictTerm'', VInt (ConflictTerm r))]"

text \<open>The declarations of the types.\<close>

definition raft_types :: tenv where
  "raft_types =
     [(''LogEntry'', TStruct [(''Command'', TIface), (''Term'', TInt)]),
      (''RequestVoteArgs'', TStruct [(''Term'', TInt), (''CandidateID'', TInt), (''LastLogIndex'', TInt),
         (''LastLogTerm'', TInt)]),
      (''RequestVoteReply'', TStruct [(''Term'', TInt), (''VoteGranted'', TBool)]),
      (''AppendEntriesArgs'', TStruct [(''Term'', TInt), (''LeaderID'', TInt), (''PrevLogIndex'', TInt),
         (''PrevLogTerm'', TInt), (''Entries'', TSlice (TNamed ''LogEntry'')), (''LeaderCommit'', TInt)]),
      (''AppendEntriesReply'', TStruct [(''Term'', TInt), (''Success'', TBool), (''ConflictIndex'', TInt),
         (''ConflictTerm'', TInt)])]"

section \<open>The methods of a peer\<close>

text \<open>
  A handler as \<^verbatim>\<open>reflect\<close> calls it, with pointers to the arguments and to a fresh reply. The methods of
  \<^verbatim>\<open>*Raft\<close> that are exported are those below, in the order \<^verbatim>\<open>reflect\<close> lists them. Only the numbers of
  parameters and results matter of those that are not handlers: they are not suitable and never called.
\<close>

definition handler_method ::
  "string \<Rightarrow> string \<Rightarrow> 'c goval \<Rightarrow> ('c goval \<Rightarrow> 'a) \<Rightarrow> ('r \<Rightarrow> 'c goval) \<Rightarrow> ('c raft \<Rightarrow> 'a \<Rightarrow> ('c raft \<times> 'r) go) \<Rightarrow>
   ('c raft, 'c) rmethod" where
  "handler_method name reply_type zero_reply args_of reply_val h =
     \<lparr>Name = name, PkgPath = [], NumIn = 3, In2 = (TPtr (TNamed reply_type), VPtr zero_reply None), NumOut = 0,
      Func = (\<lambda>rf args reply. bind_go (h rf (args_of (ptr_elem args))) (\<lambda>(rf, r). Inr (rf, ptr_to (reply_val r))))\<rparr>"

definition other_method :: "string \<Rightarrow> nat \<Rightarrow> nat \<Rightarrow> ('c raft, 'c) rmethod" where
  "other_method name ins outs =
     \<lparr>Name = name, PkgPath = [], NumIn = ins, In2 = (TIface, VIface None), NumOut = outs,
      Func = (\<lambda>rf _ reply. Inr (rf, reply))\<rparr>"

definition raft_methods :: "('c raft, 'c) rmethod list" where
  "raft_methods =
     [handler_method ''AppendEntries'' ''AppendEntriesReply''
        (ae_reply_val \<lparr>aer_Term = 0, Success = False, ConflictIndex = 0, ConflictTerm = 0\<rparr>)
        ae_args_of ae_reply_val AppendEntries,
      other_method ''GetState'' 1 2,
      other_method ''Kill'' 1 0,
      handler_method ''RequestVote'' ''RequestVoteReply'' (rv_reply_val \<lparr>rvr_Term = 0, VoteGranted = False\<rparr>)
        rv_args_of rv_reply_val (\<lambda>rf args. Inr (RequestVote rf args)),
      other_method ''Start'' 2 3]"

definition raft_server :: "'c raft \<Rightarrow> ('c raft, 'c) Server" where
  "raft_server rf = AddService MakeServer (MakeService ''Raft'' rf raft_methods)"

section \<open>A call\<close>

text \<open>A call whose request reaches the server and whose reply comes back.\<close>

definition call_through ::
  "tenv \<Rightarrow> ('o, 'c) Server \<Rightarrow> 'e ClientEnd \<Rightarrow> string \<Rightarrow> gotype \<times> 'c goval \<Rightarrow> gotype \<times> 'c goval \<Rightarrow> nat \<Rightarrow> labgob \<Rightarrow>
   ((bool \<times> 'c goval) \<times> ('o, 'c) Server \<times> labgob) go" where
  "call_through env srv e meth args reply ch st =
     bind_go (Call_request env e meth args ch st) (\<lambda>(req, st).
     bind_go (Server_dispatch env srv req st) (\<lambda>(rep, srv, st).
     bind_go (Call_return env rep reply st) (\<lambda>(res, st). Inr (res, srv, st))))"

definition sendRequestVote ::
  "('c raft, 'c) Server \<Rightarrow> 'e ClientEnd \<Rightarrow> RequestVoteArgs \<Rightarrow> RequestVoteReply \<Rightarrow> nat \<Rightarrow> labgob \<Rightarrow>
   ((bool \<times> 'c goval) \<times> ('c raft, 'c) Server \<times> labgob) go" where
  "sendRequestVote srv e args reply =
     call_through raft_types srv e ''Raft.RequestVote''
       (TPtr (TNamed ''RequestVoteArgs''), ptr_to (rv_args_val args))
       (TPtr (TNamed ''RequestVoteReply''), ptr_to (rv_reply_val reply))"

definition sendAppendEntries ::
  "('c raft, 'c) Server \<Rightarrow> 'e ClientEnd \<Rightarrow> 'c AppendEntriesArgs \<Rightarrow> AppendEntriesReply \<Rightarrow> nat \<Rightarrow> labgob \<Rightarrow>
   ((bool \<times> 'c goval) \<times> ('c raft, 'c) Server \<times> labgob) go" where
  "sendAppendEntries srv e args reply =
     call_through raft_types srv e ''Raft.AppendEntries''
       (TPtr (TNamed ''AppendEntriesArgs''), ptr_to (ae_args_val args))
       (TPtr (TNamed ''AppendEntriesReply''), ptr_to (ae_reply_val reply))"

text \<open>The request that a call with a pointer to a struct makes.\<close>

definition struct_request :: "'e ClientEnd \<Rightarrow> string \<Rightarrow> string \<Rightarrow> 'c goval \<Rightarrow> nat \<Rightarrow> ('e, 'c) reqMsg" where
  "struct_request e m t v ch = \<lparr>req_endname = ce_endname e, svcMeth = m, argsType = (TPtr (TNamed t), VPtr (zero v) None),
     req_args = [gob_send v], replyCh = ch\<rparr>"

section \<open>Messages survive the wire\<close>

lemma exported_names [simp]:
  "exported ''Term''" "exported ''CandidateID''" "exported ''LastLogIndex''" "exported ''LastLogTerm''"
  "exported ''VoteGranted''" "exported ''LeaderID''" "exported ''PrevLogIndex''" "exported ''PrevLogTerm''"
  "exported ''Entries''" "exported ''LeaderCommit''" "exported ''Success''" "exported ''ConflictIndex''"
  "exported ''ConflictTerm''" "exported ''Command''"
  by (simp_all add: is_upper_def)

lemma has_type_entry [simp]: "has_type raft_types (TNamed ''LogEntry'') (entry_val e)"
  by (simp add: entry_val_def raft_types_def)

lemma not_nil_entry [simp]: "\<not> nil_ptr (entry_val e)"
  by (simp add: entry_val_def)

lemma raft_underlying:
  "underlying raft_types (TNamed ''RequestVoteArgs'') =
     TStruct [(''Term'', TInt), (''CandidateID'', TInt), (''LastLogIndex'', TInt), (''LastLogTerm'', TInt)]"
  "underlying raft_types (TNamed ''RequestVoteReply'') = TStruct [(''Term'', TInt), (''VoteGranted'', TBool)]"
  "underlying raft_types (TNamed ''AppendEntriesArgs'') =
     TStruct [(''Term'', TInt), (''LeaderID'', TInt), (''PrevLogIndex'', TInt), (''PrevLogTerm'', TInt),
       (''Entries'', TSlice (TNamed ''LogEntry'')), (''LeaderCommit'', TInt)]"
  "underlying raft_types (TNamed ''AppendEntriesReply'') =
     TStruct [(''Term'', TInt), (''Success'', TBool), (''ConflictIndex'', TInt), (''ConflictTerm'', TInt)]"
  by (simp_all add: raft_types_def)

lemma raft_args_typed:
  "has_type raft_types (TNamed ''RequestVoteArgs'') (rv_args_val a)"
  "has_type raft_types (TNamed ''RequestVoteReply'') (rv_reply_val r)"
  "has_type raft_types (TNamed ''AppendEntriesArgs'') (ae_args_val b)"
  "has_type raft_types (TNamed ''AppendEntriesReply'') (ae_reply_val s)"
  by (simp_all add: rv_args_val_def rv_reply_val_def ae_args_val_def ae_reply_val_def log_val_def raft_underlying
      del: underlying.simps(1))

text \<open>Whether a type is clean can be computed from a set of types that contains it and is closed.\<close>

definition clean_set :: "tenv \<Rightarrow> gotype list \<Rightarrow> bool" where
  "clean_set env ts \<longleftrightarrow> (\<forall>t \<in> set ts. lower_fields env t = 0 \<and> set (children env t) \<subseteq> set ts)"

lemma clean_setD:
  assumes "clean_set env ts" and "t \<in> set ts"
  shows "clean_type env t"
  using assms meets_closed [of env t _ "set ts"] by (auto simp: clean_type_def clean_set_def)

lemma clean_ptr: "clean_type env t \<Longrightarrow> clean_type env (TPtr t)"
  by (auto simp: clean_type_def children_def lower_fields_def elim: meets.cases)

lemma raft_types_clean:
  "clean_type raft_types (TNamed ''RequestVoteArgs'')" "clean_type raft_types (TNamed ''RequestVoteReply'')"
  "clean_type raft_types (TNamed ''AppendEntriesArgs'')" "clean_type raft_types (TNamed ''AppendEntriesReply'')"
proof -
  have "clean_set raft_types
    [TInt, TBool, TIface, TSlice (TNamed ''LogEntry''), TNamed ''LogEntry'', TNamed ''RequestVoteArgs'',
     TNamed ''RequestVoteReply'', TNamed ''AppendEntriesArgs'', TNamed ''AppendEntriesReply'']"
    by code_simp
  note c = clean_setD [OF this]
  show "clean_type raft_types (TNamed ''RequestVoteArgs'')" "clean_type raft_types (TNamed ''RequestVoteReply'')"
    "clean_type raft_types (TNamed ''AppendEntriesArgs'')" "clean_type raft_types (TNamed ''AppendEntriesReply'')"
    by (rule c; simp)+
qed

lemma checkType_clean: "clean_type env t \<Longrightarrow> errorCount (checkType env t st) = errorCount st"
proof -
  assume "clean_type env t"
  moreover obtain new where "explored env {t} 0 st (checkType env t st) new" using checkType_explores by blast
  ultimately show ?thesis by (auto simp: explored_def clean_type_def sum_list_eq_0_iff)
qed

lemma last_index_append: "c \<notin> set ys \<Longrightarrow> last_index c (xs @ c # ys) = int (length xs)"
proof (induction xs)
  case Nil
  have "c \<notin> set zs \<Longrightarrow> last_index c zs = -1" for zs by (induction zs) (auto simp: Let_def)
  with Nil show ?case by simp
qed (simp add: Let_def)

lemma method_name:
  assumes "CHR ''.'' \<notin> set name"
  shows "go_slice_to (svc @ ''.'' @ name) (last_index (CHR ''.'') (svc @ ''.'' @ name)) = Inr svc"
    and "go_slice_from (svc @ ''.'' @ name) (last_index (CHR ''.'') (svc @ ''.'' @ name) + 1) = Inr name"
  using last_index_append [OF assms, of svc] by (simp_all add: go_slice_to_def go_slice_from_def nat_add_distrib)

section \<open>The interface of a handler\<close>

text \<open>
  A method \<open>name\<close> of a server whose arguments and replies are structs of clean types, and which the method
  table has under its name.
\<close>

locale rpc_method =
  fixes env :: tenv
    and name :: string
    and args_type :: string
    and args_val :: "'a \<Rightarrow> 'c goval"
    and args_of :: "'c goval \<Rightarrow> 'a"
    and zero_args :: "'c goval"
    and reply_type :: string
    and reply_val :: "'r \<Rightarrow> 'c goval"
    and zero_reply :: "'c goval"
    and h :: "'c raft \<Rightarrow> 'a \<Rightarrow> ('c raft \<times> 'r) go"
    and ms :: "('c raft, 'c) rmethod list"
  assumes args_back: "args_of (args_val a) = a"
    and args_typed: "has_type env (TNamed args_type) (args_val a)"
    and args_clean: "clean_type env (TNamed args_type)"
    and args_zero: "zero (args_val a) = zero_args"
    and reply_typed: "has_type env (TNamed reply_type) (reply_val r)"
    and reply_clean: "clean_type env (TNamed reply_type)"
    and reply_zero: "zero (reply_val r) = zero_reply"
    and structs: "\<not> nil_ptr (args_val a)" "\<not> nil_ptr (reply_val r)"
    and in_table: "methods (MakeService svc rf ms) name =
      Some (handler_method name reply_type zero_reply args_of reply_val h)"
    and no_dot: "CHR ''.'' \<notin> set name"
begin

lemma args_recv: "gob_recv zero_args (gob_send (args_val a)) = Some (args_val a)"
  using gob_roundtrip [OF clean_wire_safe(1) [OF args_typed args_clean] structs(1)] by (simp add: args_zero)

lemma reply_recv: "gob_recv zero_reply (gob_send (reply_val r)) = Some (reply_val r)"
  using gob_roundtrip [OF clean_wire_safe(1) [OF reply_typed reply_clean] structs(2)] by (simp add: reply_zero)

text \<open>What the handler's dispatch does with a request for it.\<close>

lemma dispatch:
  assumes "argsType req = (TPtr (TNamed args_type), VPtr zero_args None)"
    and "req_args req = [gob_send (args_val a)]"
  shows "Service_dispatch env (MakeService svc rf ms) name req st =
    bind_go (h rf a) (\<lambda>(rf', r).
      Inr (\<lparr>rep_ok = True, rep_reply = [gob_send (reply_val r)]\<rparr>, MakeService svc rf' ms,
        checkType env (TPtr (TNamed reply_type)) (checkType env (TPtr (TPtr (TNamed args_type))) st)))"
proof -
  have svc: "(MakeService svc rf ms)\<lparr>rcvr := rf'\<rparr> = MakeService svc rf' ms"
    "rcvr (MakeService svc rf ms) = rf" for rf'
    by (simp_all add: MakeService_def)
  show ?thesis
    using assms
    by (cases "h rf a")
      (auto simp: Service_dispatch_def in_table handler_method_def Let_def reflect_New_def Decode_def Encode_def
        checkValue_def checkDefault_def args_recv args_back svc ptr_to_def gob_Encode_def)
qed

lemma request:
  "Call_request env e m (TPtr (TNamed args_type), ptr_to (args_val a)) ch st =
   Inr (struct_request e m args_type (args_val a) ch, checkType env (TPtr (TNamed args_type)) st)"
  by (simp add: Call_request_def Encode_def checkValue_def gob_Encode_def ptr_to_def reflect_TypeOf_def
      struct_request_def)

lemma server_dispatch:
  assumes "services srv svc = Some (MakeService svc rf ms)"
  shows "Server_dispatch env srv (struct_request e (svc @ ''.'' @ name) args_type (args_val a) ch) st =
    bind_go (h rf a) (\<lambda>(rf', r).
      Inr (\<lparr>rep_ok = True, rep_reply = [gob_send (reply_val r)]\<rparr>,
        srv\<lparr>services := (services srv)(svc \<mapsto> MakeService svc rf' ms), srv_count := srv_count srv + 1\<rparr>,
        checkType env (TPtr (TNamed reply_type)) (checkType env (TPtr (TPtr (TNamed args_type))) st)))"
proof -
  define m where "m = svc @ ''.'' @ name"
  let ?req = "struct_request e m args_type (args_val a) ch"
  have "Service_dispatch env (MakeService svc rf ms) name ?req st =
    bind_go (h rf a) (\<lambda>(rf', r).
      Inr (\<lparr>rep_ok = True, rep_reply = [gob_send (reply_val r)]\<rparr>, MakeService svc rf' ms,
        checkType env (TPtr (TNamed reply_type)) (checkType env (TPtr (TPtr (TNamed args_type))) st)))"
    by (rule dispatch) (simp_all add: struct_request_def args_zero)
  then show ?thesis
    using method_name [OF no_dot, of svc, folded m_def] assms unfolding m_def [symmetric]
    by (cases "h rf a") (auto simp: Server_dispatch_def struct_request_def)
qed

lemma return:
  assumes "reply_val r0 = zero_reply"
  shows "Call_return env \<lparr>rep_ok = True, rep_reply = [gob_send (reply_val r)]\<rparr>
      (TPtr (TNamed reply_type), ptr_to (reply_val r0)) st =
    Inr ((True, ptr_to (reply_val r)), checkType env (TPtr (TNamed reply_type)) st)"
proof -
  have "zero zero_reply = zero_reply" using reply_zero [of r0] by (simp add: assms)
  then show ?thesis
    using checkDefault1_zero [of zero_reply] reply_recv [of r]
    by (simp add: Call_return_def Decode_def checkValue_def checkDefault_def Let_def ptr_to_def assms reply_zero)
qed

text \<open>A call that gets through is a call of the handler, and nothing is reported on the way.\<close>

lemma call:
  assumes srv: "services srv svc = Some (MakeService svc rf ms)" and r0: "reply_val r0 = zero_reply"
  shows "\<exists>st'. errorCount st' = errorCount st \<and>
    call_through env srv e (svc @ ''.'' @ name) (TPtr (TNamed args_type), ptr_to (args_val a))
      (TPtr (TNamed reply_type), ptr_to (reply_val r0)) ch st =
    bind_go (h rf a) (\<lambda>(rf', r). Inr ((True, ptr_to (reply_val r)),
      srv\<lparr>services := (services srv)(svc \<mapsto> MakeService svc rf' ms), srv_count := srv_count srv + 1\<rparr>, st'))"
proof -
  define m where "m = svc @ ''.'' @ name"
  let ?c = "\<lambda>t st. checkType env (TPtr t) st"
  let ?st' = "?c (TNamed reply_type) (?c (TNamed reply_type) (?c (TPtr (TNamed args_type)) (?c (TNamed args_type) st)))"
  have "errorCount ?st' = errorCount st"
    by (simp add: checkType_clean clean_ptr args_clean reply_clean)
  moreover have "call_through env srv e m (TPtr (TNamed args_type), ptr_to (args_val a))
      (TPtr (TNamed reply_type), ptr_to (reply_val r0)) ch st =
    bind_go (h rf a) (\<lambda>(rf', r). Inr ((True, ptr_to (reply_val r)),
      srv\<lparr>services := (services srv)(svc \<mapsto> MakeService svc rf' ms), srv_count := srv_count srv + 1\<rparr>, ?st'))"
    by (cases "h rf a")
      (auto simp: call_through_def request server_dispatch [OF srv, folded m_def] return [OF r0])
  ultimately show ?thesis unfolding m_def by blast
qed

end

section \<open>Raft's handlers\<close>

lemma raft_method_table:
  "methods (MakeService svc rf (raft_methods :: ('c raft, 'c) rmethod list)) =
     [''AppendEntries'' \<mapsto> handler_method ''AppendEntries'' ''AppendEntriesReply''
        (ae_reply_val \<lparr>aer_Term = 0, Success = False, ConflictIndex = 0, ConflictTerm = 0\<rparr>)
        ae_args_of ae_reply_val AppendEntries,
      ''RequestVote'' \<mapsto> handler_method ''RequestVote'' ''RequestVoteReply''
        (rv_reply_val \<lparr>rvr_Term = 0, VoteGranted = False\<rparr>)
        rv_args_of rv_reply_val (\<lambda>rf args. Inr (RequestVote rf args))]"
  by (simp add: MakeService_def raft_methods_def suitable_def handler_method_def other_method_def)

definition zero_rv_args :: RequestVoteArgs where
  "zero_rv_args = \<lparr>rv_Term = 0, CandidateID = 0, LastLogIndex = 0, LastLogTerm = 0\<rparr>"

definition zero_ae_args :: "'c AppendEntriesArgs" where
  "zero_ae_args = \<lparr>ae_Term = 0, LeaderID = 0, PrevLogIndex = 0, PrevLogTerm = 0, Entries = [], LeaderCommit = 0\<rparr>"

interpretation vote_rpc: rpc_method raft_types "''RequestVote''" "''RequestVoteArgs''" rv_args_val rv_args_of
  "rv_args_val zero_rv_args" "''RequestVoteReply''" rv_reply_val
  "rv_reply_val \<lparr>rvr_Term = 0, VoteGranted = False\<rparr>" "\<lambda>rf args. Inr (RequestVote rf args)" raft_methods
  using raft_types_clean
  by unfold_locales
    (simp_all only: raft_args_typed raft_types_clean raft_method_table,
     simp_all add: rv_args_val_def rv_reply_val_def zero_rv_args_def)

interpretation append_rpc: rpc_method raft_types "''AppendEntries''" "''AppendEntriesArgs''" ae_args_val ae_args_of
  "ae_args_val zero_ae_args" "''AppendEntriesReply''" ae_reply_val
  "ae_reply_val \<lparr>aer_Term = 0, Success = False, ConflictIndex = 0, ConflictTerm = 0\<rparr>" AppendEntries raft_methods
  by unfold_locales
    (simp_all only: raft_args_typed raft_types_clean raft_method_table,
     simp_all add: ae_args_val_def ae_reply_val_def zero_ae_args_def log_val_def o_def)

lemma raft_server_service: "services (raft_server rf) ''Raft'' = Some (MakeService ''Raft'' rf raft_methods)"
  by (simp add: raft_server_def AddService_def MakeServer_def MakeService_def)

lemma raft_server_after:
  "(raft_server rf)\<lparr>services := (services (raft_server rf))(''Raft'' \<mapsto> MakeService ''Raft'' rf' raft_methods),
     srv_count := n\<rparr> = (raft_server rf')\<lparr>srv_count := n\<rparr>"
  by (simp add: raft_server_def AddService_def MakeServer_def MakeService_def)

lemma raft_server_count [simp]: "srv_count (raft_server rf) = 0"
  by (simp add: raft_server_def AddService_def MakeServer_def)

section \<open>Properties\<close>


text \<open>
  C5: a remote call is a call of the handler. For a peer behind a server, \<^verbatim>\<open>sendRequestVote\<close> and
  \<^verbatim>\<open>sendAppendEntries\<close> with a zero reply variable, taken through encoding, dispatch, decoding and back,
  leave the peer and the reply that \<^verbatim>\<open>RequestVote\<close> and \<^verbatim>\<open>AppendEntries\<close> give for these arguments, report
  nothing, and panic exactly when the handler does.
\<close>

theorem remote_call_is_handler_call:
  "(\<exists>st'. errorCount st' = errorCount st \<and>
     sendRequestVote (raft_server rf) e args \<lparr>rvr_Term = 0, VoteGranted = False\<rparr> ch st =
       (let (rf', reply) = RequestVote rf args
        in Inr ((True, ptr_to (rv_reply_val reply)), (raft_server rf')\<lparr>srv_count := 1\<rparr>, st'))) \<and>
   (\<exists>st'. errorCount st' = errorCount st \<and>
     sendAppendEntries (raft_server rf) e aargs
       \<lparr>aer_Term = 0, Success = False, ConflictIndex = 0, ConflictTerm = 0\<rparr> ch st =
       bind_go (AppendEntries rf aargs) (\<lambda>(rf', reply).
         Inr ((True, ptr_to (ae_reply_val reply)), (raft_server rf')\<lparr>srv_count := 1\<rparr>, st')))"
proof -
  show ?thesis
    using vote_rpc.call [OF raft_server_service refl, where st = st and e = e and a = args and ch = ch and rf = rf]
      append_rpc.call [OF raft_server_service refl, where st = st and e = e and a = aargs and ch = ch and rf = rf]
    by (simp add: sendRequestVote_def sendAppendEntries_def raft_server_after split: prod.split)
qed

end
