(* ===== verification/Config.thy ===== *)
theory Config
  imports Cluster RaftRpc
begin

text \<open>
  The test harness, \<^verbatim>\<open>Task5/raft/config.go\<close>: it starts, crashes, connects and disconnects peers on the
  simulated network, reads what they apply and checks it.

  \<^item> Peers are shared by pointer with the servers that call them, so they live in a heap; \<open>rafts\<close> and
    the servers hold addresses. A persister in \<open>saved\<close> is either an object of its own or the one that
    a peer writes to.
  \<^item> Names of ends, which the source draws at random, and the time are arguments.
  \<^item> Where a check looks at peers several times while they run, what it sees is an argument: the value
    that a call of \<^verbatim>\<open>GetState\<close> returns at that moment, or a function that says how the state has changed
    since the last look.
  \<^item> \<^verbatim>\<open>t.Fatal\<close> and \<^verbatim>\<open>log.Fatal\<close> are errors.
\<close>

section \<open>State\<close>

datatype 'c saved = Own "'c goval Persister" | Shared nat

record ('e, 'c) config =
  cfg_net :: "('e, nat) Network"
  cfg_n :: nat
  rafts :: "nat option list"
  applyErr :: "string list"
  connected :: "bool list"
  saved :: "'c saved option list"
  endnames :: "'e list option list"
  logs :: "(int \<rightharpoonup> 'c iface) list"
  start_time :: nat
  t0 :: nat
  rpcs0 :: int
  cmds0 :: int
  bytes0 :: int
  maxIndex :: int
  maxIndex0 :: int
  t_failed :: bool
  peer_heap :: "'c raft list"
  srv_rcvr :: "nat list"

section \<open>Connecting and disconnecting\<close>

definition endname :: "('e, 'c) config \<Rightarrow> nat \<Rightarrow> nat \<Rightarrow> 'e go" where
  "endname cfg i j =
     bind_go (go_index (endnames cfg) (int i)) (\<lambda>row.
       go_index (case row of None \<Rightarrow> [] | Some es \<Rightarrow> es) (int j))"

definition enable_ends :: "('e, 'c) config \<Rightarrow> bool \<Rightarrow> (nat \<times> nat) list \<Rightarrow> ('e, 'c) config go" where
  "enable_ends cfg b ps =
     fold_go (\<lambda>(i, j) cfg. bind_go (endname cfg i j) (\<lambda>e.
       Inr (cfg\<lparr>cfg_net := Enable (cfg_net cfg) e b\<rparr>))) ps cfg"

definition connect :: "('e, 'c) config \<Rightarrow> nat \<Rightarrow> ('e, 'c) config go" where
  "connect cfg i =
     bind_go (go_update (connected cfg) (int i) True) (\<lambda>cs.
       let cfg = cfg\<lparr>connected := cs\<rparr>;
           js = filter (\<lambda>j. connected cfg ! j) [0..<cfg_n cfg]
       in bind_go (enable_ends cfg True (map (\<lambda>j. (i, j)) js)) (\<lambda>cfg.
          enable_ends cfg True (map (\<lambda>j. (j, i)) js)))"

definition disconnect :: "('e, 'c) config \<Rightarrow> nat \<Rightarrow> ('e, 'c) config go" where
  "disconnect cfg i =
     bind_go (go_update (connected cfg) (int i) False) (\<lambda>cs.
       let cfg = cfg\<lparr>connected := cs\<rparr>
       in bind_go (enable_ends cfg False
            (map (\<lambda>j. (i, j)) (filter (\<lambda>j. endnames cfg ! i \<noteq> None) [0..<cfg_n cfg]))) (\<lambda>cfg.
          enable_ends cfg False
            (map (\<lambda>j. (j, i)) (filter (\<lambda>j. endnames cfg ! j \<noteq> None) [0..<cfg_n cfg]))))"

section \<open>Crashing and starting\<close>

definition read_saved :: "('e, 'c) config \<Rightarrow> 'c saved \<Rightarrow> 'c goval Persister" where
  "read_saved cfg s = (case s of Own ps \<Rightarrow> ps | Shared r \<Rightarrow> persister (peer_heap cfg ! r))"

definition kill_peer :: "('e, 'c) config \<Rightarrow> nat \<Rightarrow> ('e, 'c) config" where
  "kill_peer cfg r = cfg\<lparr>peer_heap := (peer_heap cfg)[r := Kill (peer_heap cfg ! r)]\<rparr>"

definition crash1 :: "('e, 'c) config \<Rightarrow> nat \<Rightarrow> ('e, 'c) config go" where
  "crash1 cfg i =
     bind_go (disconnect cfg i) (\<lambda>cfg.
     let cfg = cfg\<lparr>cfg_net := DeleteServer (cfg_net cfg) i\<rparr>;
         cfg = (case saved cfg ! i of
             None \<Rightarrow> cfg
           | Some s \<Rightarrow> cfg\<lparr>saved := (saved cfg)[i := Some (Own (Copy (read_saved cfg s)))]\<rparr>);
         cfg = (case rafts cfg ! i of
             None \<Rightarrow> cfg
           | Some r \<Rightarrow> (kill_peer cfg r)\<lparr>rafts := (rafts cfg)[i := None]\<rparr>);
         cfg = (case saved cfg ! i of
             None \<Rightarrow> cfg
           | Some s \<Rightarrow>
               (let raftlog = ReadRaftState (read_saved cfg s)
                in cfg\<lparr>saved := (saved cfg)[i := Some (Own (SaveRaftState MakePersister raftlog))]\<rparr>))
     in Inr cfg)"

text \<open>A fresh set of ends; \<^verbatim>\<open>MakeEnd\<close> refuses a name that is taken.\<close>

definition make_ends :: "('e, nat) Network \<Rightarrow> 'e list \<Rightarrow> ('e, nat) Network go" where
  "make_ends rn names =
     fold_go (\<lambda>(e, j) rn. bind_go (MakeEnd rn e) (\<lambda>(rn, _). Inr (Connect rn e j)))
       (zip names [0..<length names]) rn"

definition start1 :: "('e, 'c) config \<Rightarrow> nat \<Rightarrow> 'e list \<Rightarrow> ('e, 'c) config go" where
  "start1 cfg i names =
     bind_go (crash1 cfg i) (\<lambda>cfg.
     let cfg = cfg\<lparr>endnames := (endnames cfg)[i := Some names]\<rparr>
     in bind_go (make_ends (cfg_net cfg) names) (\<lambda>rn.
        let ps = (case saved cfg ! i of Some s \<Rightarrow> Copy (read_saved cfg s) | None \<Rightarrow> MakePersister);
            r = length (peer_heap cfg);
            srv = length (srv_rcvr cfg)
        in Inr (cfg\<lparr>cfg_net := AddServer rn i srv, saved := (saved cfg)[i := Some (Shared r)],
             peer_heap := peer_heap cfg @ [Make (cfg_n cfg) i ps], rafts := (rafts cfg)[i := Some r],
             srv_rcvr := srv_rcvr cfg @ [r]\<rparr>)))"

definition setunreliable :: "('e, 'c) config \<Rightarrow> bool \<Rightarrow> ('e, 'c) config" where
  "setunreliable cfg unrel = cfg\<lparr>cfg_net := Reliable (cfg_net cfg) (\<not> unrel)\<rparr>"

definition setlongreordering :: "('e, 'c) config \<Rightarrow> bool \<Rightarrow> ('e, 'c) config" where
  "setlongreordering cfg longrel = cfg\<lparr>cfg_net := LongReordering (cfg_net cfg) longrel\<rparr>"

definition blank_config :: "nat \<Rightarrow> nat \<Rightarrow> ('e, 'c) config" where
  "blank_config n now =
     \<lparr>cfg_net = MakeNetwork, cfg_n = n, rafts = replicate n None, applyErr = replicate n '''',
      connected = replicate n False, saved = replicate n None, endnames = replicate n None,
      logs = replicate n Map.empty, start_time = now, t0 = 0, rpcs0 = 0, cmds0 = 0, bytes0 = 0, maxIndex = 0,
      maxIndex0 = 0, t_failed = False, peer_heap = [], srv_rcvr = []\<rparr>"

definition make_config :: "nat \<Rightarrow> bool \<Rightarrow> nat \<Rightarrow> (nat \<Rightarrow> 'e list) \<Rightarrow> ('e, 'c) config go" where
  "make_config n unreliable now names =
     (let cfg = setunreliable (blank_config n now) unreliable;
          cfg = cfg\<lparr>cfg_net := LongDelays (cfg_net cfg) True\<rparr>
      in bind_go (fold_go (\<lambda>i cfg. start1 cfg i (names i)) [0..<n] cfg) (\<lambda>cfg.
         fold_go (\<lambda>i cfg. connect cfg i) [0..<n] cfg))"

definition checkTimeout :: "('e, 'c) config \<Rightarrow> nat \<Rightarrow> unit go" where
  "checkTimeout cfg now =
     (if \<not> t_failed cfg \<and> now - start_time cfg > 120000
      then Inl (TestFatal ''test took longer than 120 seconds'') else Inr ())"

definition cleanup :: "('e, 'c) config \<Rightarrow> nat \<Rightarrow> ('e, 'c) config go" where
  "cleanup cfg now =
     (let cfg = fold (\<lambda>x cfg. case x of None \<Rightarrow> cfg | Some r \<Rightarrow> kill_peer cfg r) (rafts cfg) cfg
      in bind_go (Cleanup (cfg_net cfg)) (\<lambda>rn.
         let cfg = cfg\<lparr>cfg_net := rn\<rparr> in bind_go (checkTimeout cfg now) (\<lambda>_. Inr cfg)))"

section \<open>Statistics\<close>

definition rpcCount :: "('e, 'c) config \<Rightarrow> ('o, 'c) Server list \<Rightarrow> nat \<Rightarrow> int go" where
  "rpcCount cfg heap server = GetCount (cfg_net cfg) heap server"

definition rpcTotal :: "('e, 'c) config \<Rightarrow> int" where
  "rpcTotal cfg = GetTotalCount (cfg_net cfg)"

definition bytesTotal :: "('e, 'c) config \<Rightarrow> int" where
  "bytesTotal cfg = GetTotalBytes (cfg_net cfg)"

definition begin_test :: "('e, 'c) config \<Rightarrow> nat \<Rightarrow> ('e, 'c) config" where
  "begin_test cfg now =
     cfg\<lparr>t0 := now, rpcs0 := rpcTotal cfg, bytes0 := bytesTotal cfg, cmds0 := 0, maxIndex0 := maxIndex cfg\<rparr>"

text \<open>The numbers that \<^verbatim>\<open>end\<close> prints: time, peers, RPCs, bytes, agreements; nothing if the test has failed.\<close>

definition end_test :: "('e, 'c) config \<Rightarrow> nat \<Rightarrow> (nat \<times> nat \<times> int \<times> int \<times> int) option go" where
  "end_test cfg now =
     bind_go (checkTimeout cfg now) (\<lambda>_.
       Inr (if t_failed cfg then None
            else Some (now - t0 cfg, cfg_n cfg, rpcTotal cfg - rpcs0 cfg, bytesTotal cfg - bytes0 cfg,
              maxIndex cfg - maxIndex0 cfg)))"

section \<open>Reading what peers apply\<close>

text \<open>One message on the channel that \<^verbatim>\<open>start1\<close> has made for peer \<open>i\<close>.\<close>

definition apply_reader :: "('e, 'c) config \<Rightarrow> nat \<Rightarrow> 'c ApplyMsg \<Rightarrow> ('e, 'c) config go" where
  "apply_reader cfg i m =
     (if CommandValid m = False then Inr cfg
      else
        let v = ApplyCommand m; k = CommandIndex m;
            differs = list_ex (\<lambda>l. case l k of None \<Rightarrow> False | Some old \<Rightarrow> old \<noteq> v) (logs cfg);
            prevok = ((logs cfg ! i) (k - 1) \<noteq> None);
            cfg = cfg\<lparr>logs := (logs cfg)[i := (logs cfg ! i)(k \<mapsto> v)]\<rparr>;
            cfg = (if k > maxIndex cfg then cfg\<lparr>maxIndex := k\<rparr> else cfg);
            err_msg = (if differs then ''commit index'' else '''');
            err_msg = (if k > 1 \<and> \<not> prevok then ''apply out of order'' else err_msg)
        in if err_msg \<noteq> '''' then Inl (LogFatal err_msg) else Inr cfg)"

section \<open>Checks\<close>

text \<open>What \<^verbatim>\<open>cfg.rafts[i].GetState()\<close> returns is \<open>obs i\<close>; the pointer must not be nil.\<close>

definition ask_peer :: "('e, 'c) config \<Rightarrow> (nat \<Rightarrow> int \<times> bool) \<Rightarrow> nat \<Rightarrow> (int \<times> bool) go" where
  "ask_peer cfg obs i = (case rafts cfg ! i of None \<Rightarrow> Inl NilDereference | Some r \<Rightarrow> Inr (obs i))"

fun add_leader :: "int \<Rightarrow> nat \<Rightarrow> (int \<times> nat list) list \<Rightarrow> (int \<times> nat list) list" where
  "add_leader t i [] = [(t, [i])]"
| "add_leader t i ((u, is) # ls) = (if u = t then (u, is @ [i]) # ls else (u, is) # add_leader t i ls)"

definition scan_step :: "int \<times> nat list \<Rightarrow> int \<Rightarrow> int go" where
  "scan_step = (\<lambda>(term, is) lastTermWithLeader.
     if length is > 1 then Inl (TestFatal ''term has >1 leaders'')
     else Inr (if term > lastTermWithLeader then term else lastTermWithLeader))"

definition one_leader_poll :: "('e, 'c) config \<Rightarrow> (nat \<Rightarrow> int \<times> bool) \<Rightarrow> nat option go" where
  "one_leader_poll cfg obs =
     bind_go (fold_go (\<lambda>i leaders.
         if connected cfg ! i then
           bind_go (ask_peer cfg obs i) (\<lambda>(term, leader).
             Inr (if leader then add_leader term i leaders else leaders))
         else Inr leaders) [0..<cfg_n cfg] []) (\<lambda>leaders.
     bind_go (fold_go scan_step leaders (-1)) (\<lambda>lastTermWithLeader.
         if length leaders \<noteq> 0 then
           bind_go (go_index (case map_of leaders lastTermWithLeader of None \<Rightarrow> [] | Some is \<Rightarrow> is) 0)
             (\<lambda>i. Inr (Some i))
         else Inr None))"

fun one_leader_iters :: "('e, 'c) config \<Rightarrow> (nat \<Rightarrow> nat \<Rightarrow> int \<times> bool) \<Rightarrow> nat list \<Rightarrow> nat go" where
  "one_leader_iters cfg obs [] = Inl (TestFatal ''expected one leader, got none'')"
| "one_leader_iters cfg obs (k # ks) =
     bind_go (one_leader_poll cfg (obs k)) (\<lambda>r.
       case r of Some i \<Rightarrow> Inr i | None \<Rightarrow> one_leader_iters cfg obs ks)"

definition checkOneLeader :: "('e, 'c) config \<Rightarrow> (nat \<Rightarrow> nat \<Rightarrow> int \<times> bool) \<Rightarrow> nat go" where
  "checkOneLeader cfg obs = one_leader_iters cfg obs [0..<10]"

definition checkTerms :: "('e, 'c) config \<Rightarrow> (nat \<Rightarrow> int \<times> bool) \<Rightarrow> int go" where
  "checkTerms cfg obs =
     fold_go (\<lambda>i term.
       if connected cfg ! i then
         bind_go (ask_peer cfg obs i) (\<lambda>(xterm, _).
           if term = -1 then Inr xterm
           else if term \<noteq> xterm then Inl (TestFatal ''servers disagree on term'')
           else Inr term)
       else Inr term) [0..<cfg_n cfg] (-1)"

definition checkNoLeader :: "('e, 'c) config \<Rightarrow> (nat \<Rightarrow> int \<times> bool) \<Rightarrow> unit go" where
  "checkNoLeader cfg obs =
     fold_go (\<lambda>i _.
       if connected cfg ! i then
         bind_go (ask_peer cfg obs i) (\<lambda>(_, is_leader).
           if is_leader then Inl (TestFatal ''expected no leader'') else Inr ())
       else Inr ()) [0..<cfg_n cfg] ()"

definition nCommitted :: "('e, 'c) config \<Rightarrow> int \<Rightarrow> (nat \<times> 'c iface) go" where
  "nCommitted cfg index =
     fold_go (\<lambda>i (count, cmd).
       if applyErr cfg ! i \<noteq> '''' then Inl (TestFatal (applyErr cfg ! i))
       else case (logs cfg ! i) index of
              Some cmd1 \<Rightarrow>
                if count > 0 \<and> cmd \<noteq> cmd1 then Inl (TestFatal ''committed values do not match'')
                else Inr (count + 1, cmd1)
            | None \<Rightarrow> Inr (count, cmd)) [0..<length (rafts cfg)] (0, None)"

text \<open>\<^verbatim>\<open>wait\<close> returns the command, or \<open>-1\<close> when a peer has moved on to a later term.\<close>

datatype 'c waited = MovedOn | Decided "'c iface"

definition someone_moved_on :: "('e, 'c) config \<Rightarrow> int \<Rightarrow> bool go" where
  "someone_moved_on cfg startTerm =
     fold_go (\<lambda>x moved.
       if moved then Inr True
       else case x of
              None \<Rightarrow> Inl NilDereference
            | Some r \<Rightarrow> Inr (fst (GetState (peer_heap cfg ! r)) > startTerm)) (rafts cfg) False"

text \<open>
  The rounds of \<^verbatim>\<open>wait\<close>, at most 30; before each look at the state the environment has changed it
  (\<open>move k\<close> before the count of round \<open>k\<close>, \<open>move' k\<close> during its sleep). The result tells whether the wait
  was cut short.
\<close>

fun wait_rounds ::
  "int \<Rightarrow> int \<Rightarrow> int \<Rightarrow> (nat \<Rightarrow> ('e, 'c) config \<Rightarrow> ('e, 'c) config) \<Rightarrow> (nat \<Rightarrow> ('e, 'c) config \<Rightarrow> ('e, 'c) config) \<Rightarrow>
   nat list \<Rightarrow> ('e, 'c) config \<Rightarrow> (bool \<times> ('e, 'c) config) go" where
  "wait_rounds index n startTerm move move' [] cfg = Inr (False, cfg)"
| "wait_rounds index n startTerm move move' (k # ks) cfg =
     (let cfg = move k cfg
      in bind_go (nCommitted cfg index) (\<lambda>(nd, _).
         if int nd \<ge> n then Inr (False, cfg)
         else let cfg = move' k cfg
              in if startTerm > -1 then
                   bind_go (someone_moved_on cfg startTerm) (\<lambda>moved.
                     if moved then Inr (True, cfg)
                     else wait_rounds index n startTerm move move' ks cfg)
                 else wait_rounds index n startTerm move move' ks cfg))"

definition wait ::
  "('e, 'c) config \<Rightarrow> int \<Rightarrow> int \<Rightarrow> int \<Rightarrow> (nat \<Rightarrow> ('e, 'c) config \<Rightarrow> ('e, 'c) config) \<Rightarrow>
   (nat \<Rightarrow> ('e, 'c) config \<Rightarrow> ('e, 'c) config) \<Rightarrow> ('c waited \<times> ('e, 'c) config) go" where
  "wait cfg index n startTerm move move' =
     bind_go (wait_rounds index n startTerm move move' [0..<30] cfg) (\<lambda>(moved, cfg).
       if moved then Inr (MovedOn, cfg)
       else let cfg = move 30 cfg
            in bind_go (nCommitted cfg index) (\<lambda>(nd, cmd).
               if int nd < n then Inl (TestFatal ''only some decided'') else Inr (Decided cmd, cfg)))"

text \<open>
  \<^verbatim>\<open>one\<close>: a list of rounds that fit into ten seconds, each with what the environment does before it and
  before each look at the logs within the two seconds of the round.
\<close>

fun one_try ::
  "'c iface \<Rightarrow> nat \<Rightarrow> ('e, 'c) config \<Rightarrow> nat \<Rightarrow> (('e, 'c) config \<times> nat \<times> int) go" where
  "one_try cmd 0 cfg starts = Inr (cfg, starts, -1)"
| "one_try cmd (Suc si) cfg starts =
     (let starts = (starts + 1) mod cfg_n cfg
      in case (if connected cfg ! starts then rafts cfg ! starts else None) of
           None \<Rightarrow> one_try cmd si cfg starts
         | Some r \<Rightarrow>
             (let (rf, index1, _, ok) = Start (peer_heap cfg ! r) cmd;
                  cfg = cfg\<lparr>peer_heap := (peer_heap cfg)[r := rf]\<rparr>
              in if ok then Inr (cfg, starts, index1) else one_try cmd si cfg starts))"

fun one_polls ::
  "int \<Rightarrow> 'c iface \<Rightarrow> int \<Rightarrow> (('e, 'c) config \<Rightarrow> ('e, 'c) config) list \<Rightarrow> ('e, 'c) config \<Rightarrow>
   (bool \<times> ('e, 'c) config) go" where
  "one_polls index cmd expectedServers [] cfg = Inr (False, cfg)"
| "one_polls index cmd expectedServers (m # ms) cfg =
     (let cfg = m cfg
      in bind_go (nCommitted cfg index) (\<lambda>(nd, cmd1).
         if nd > 0 \<and> int nd \<ge> expectedServers \<and> cmd1 = cmd then Inr (True, cfg)
         else one_polls index cmd expectedServers ms cfg))"

fun one_rounds ::
  "'c iface \<Rightarrow> int \<Rightarrow> bool \<Rightarrow>
   ((('e, 'c) config \<Rightarrow> ('e, 'c) config) \<times> (('e, 'c) config \<Rightarrow> ('e, 'c) config) list) list \<Rightarrow>
   ('e, 'c) config \<Rightarrow> nat \<Rightarrow> (int \<times> ('e, 'c) config) go" where
  "one_rounds cmd expectedServers retry [] cfg starts = Inl (TestFatal ''one failed to reach agreement'')"
| "one_rounds cmd expectedServers retry ((m, ms) # rs) cfg starts =
     bind_go (one_try cmd (cfg_n cfg) (m cfg) starts) (\<lambda>(cfg, starts, index).
       if index \<noteq> -1 then
         bind_go (one_polls index cmd expectedServers ms cfg) (\<lambda>(agreed, cfg).
           if agreed then Inr (index, cfg)
           else if retry = False then Inl (TestFatal ''one failed to reach agreement'')
           else one_rounds cmd expectedServers retry rs cfg starts)
       else one_rounds cmd expectedServers retry rs cfg starts)"

definition one ::
  "('e, 'c) config \<Rightarrow> 'c iface \<Rightarrow> int \<Rightarrow> bool \<Rightarrow>
   ((('e, 'c) config \<Rightarrow> ('e, 'c) config) \<times> (('e, 'c) config \<Rightarrow> ('e, 'c) config) list) list \<Rightarrow>
   (int \<times> ('e, 'c) config) go" where
  "one cfg cmd expectedServers retry rs = one_rounds cmd expectedServers retry rs cfg 0"

end
