(* ===== verification/ConfigNet.thy ===== *)
theory ConfigNet
  imports Config
begin

text \<open>
  What the test harness does to the network: in every state that \<^verbatim>\<open>start1\<close>, \<^verbatim>\<open>crash1\<close>, \<^verbatim>\<open>connect\<close> and
  \<^verbatim>\<open>disconnect\<close> lead to, exactly the ends between connected peers are enabled and each end leads to the
  peer that runs now; and a restarted peer has the saved state of the one before.
\<close>

section \<open>Ends\<close>

definition end_of :: "('e, 'c) config \<Rightarrow> nat \<Rightarrow> nat \<Rightarrow> 'e \<Rightarrow> bool" where
  "end_of cfg i j e \<longleftrightarrow> i < cfg_n cfg \<and> j < cfg_n cfg \<and> (\<exists>row. endnames cfg ! i = Some row \<and> row ! j = e)"

text \<open>The tables have one row for each peer.\<close>

definition shape_ok :: "('e, 'c) config \<Rightarrow> bool" where
  "shape_ok cfg \<longleftrightarrow> length (rafts cfg) = cfg_n cfg \<and> length (connected cfg) = cfg_n cfg \<and>
     length (saved cfg) = cfg_n cfg \<and> length (endnames cfg) = cfg_n cfg \<and> length (logs cfg) = cfg_n cfg \<and>
     (\<forall>i < cfg_n cfg. \<forall>row. endnames cfg ! i = Some row \<longrightarrow> length row = cfg_n cfg)"

lemma end_of_simps [simp]:
  "end_of (cfg\<lparr>cfg_net := x\<rparr>) = end_of cfg"
  "end_of (cfg\<lparr>connected := y\<rparr>) = end_of cfg"
  "end_of (cfg\<lparr>saved := z\<rparr>) = end_of cfg"
  "end_of (cfg\<lparr>rafts := u\<rparr>) = end_of cfg"
  "end_of (cfg\<lparr>peer_heap := h\<rparr>) = end_of cfg"
  "shape_ok (cfg\<lparr>cfg_net := x\<rparr>) = shape_ok cfg"
  by (simp_all add: end_of_def fun_eq_iff shape_ok_def)

lemma end_of_bounds: "end_of cfg i j e \<Longrightarrow> i < cfg_n cfg \<and> j < cfg_n cfg"
  by (simp add: end_of_def)

lemma endname_end_of:
  assumes "shape_ok cfg" and "i < cfg_n cfg" and "j < cfg_n cfg" and "endnames cfg ! i \<noteq> None"
  obtains e where "endname cfg i j = Inr e" and "\<And>e'. end_of cfg i j e' \<longleftrightarrow> e' = e"
proof -
  obtain row where row: "endnames cfg ! i = Some row" using assms(4) by blast
  with assms have "length row = cfg_n cfg" "length (endnames cfg) = cfg_n cfg" by (auto simp: shape_ok_def)
  with assms row have "endname cfg i j = Inr (row ! j)" by (simp add: endname_def)
  moreover have "end_of cfg i j e' \<longleftrightarrow> e' = row ! j" for e' using assms row by (auto simp: end_of_def)
  ultimately show thesis by (rule that)
qed

text \<open>The effect of a loop over ends.\<close>

definition set_enabled :: "('e, 'c) config \<Rightarrow> bool \<Rightarrow> 'e set \<Rightarrow> ('e, 'c) config" where
  "set_enabled cfg b E = cfg\<lparr>cfg_net := (cfg_net cfg)
     \<lparr>enabled := (\<lambda>e. if e \<in> E then Some b else enabled (cfg_net cfg) e)\<rparr>\<rparr>"

lemma enable_ends_result:
  assumes "shape_ok cfg"
    and "\<forall>x \<in> set ps. fst x < cfg_n cfg \<and> snd x < cfg_n cfg \<and> endnames cfg ! fst x \<noteq> None"
  shows "enable_ends cfg b ps = Inr (set_enabled cfg b {e. \<exists>x \<in> set ps. end_of cfg (fst x) (snd x) e})"
  using assms
proof (induction ps arbitrary: cfg)
  case Nil
  then show ?case by (simp add: enable_ends_def set_enabled_def)
next
  case (Cons x ps)
  obtain i j where x: "x = (i, j)" by (cases x)
  obtain e where e: "endname cfg i j = Inr e" "\<And>e'. end_of cfg i j e' \<longleftrightarrow> e' = e"
    using Cons.prems x by (auto intro: endname_end_of)
  let ?cfg = "cfg\<lparr>cfg_net := Enable (cfg_net cfg) e b\<rparr>"
  have "enable_ends cfg b (x # ps) = enable_ends ?cfg b ps" by (simp add: enable_ends_def x e(1))
  also have "\<dots> = Inr (set_enabled ?cfg b {e. \<exists>x \<in> set ps. end_of ?cfg (fst x) (snd x) e})"
    by (rule Cons.IH) (use Cons.prems in auto)
  also have "\<dots> = Inr (set_enabled cfg b {e. \<exists>x \<in> set (x # ps). end_of cfg (fst x) (snd x) e})"
    using e(2) by (auto simp: set_enabled_def Enable_def x fun_eq_iff)
  finally show ?case .
qed

lemma set_enabled_twice: "set_enabled (set_enabled cfg b E) b F = set_enabled cfg b (E \<union> F)"
  by (auto simp: set_enabled_def fun_eq_iff)

section \<open>The invariant\<close>

definition names_apart :: "('e, 'c) config \<Rightarrow> bool" where
  "names_apart cfg \<longleftrightarrow> (\<forall>i j i' j' e. end_of cfg i j e \<longrightarrow> end_of cfg i' j' e \<longrightarrow> i = i' \<and> j = j')"

definition links_ok :: "('e, 'c) config \<Rightarrow> bool" where
  "links_ok cfg \<longleftrightarrow> (\<forall>i j e. end_of cfg i j e \<longrightarrow>
     ends (cfg_net cfg) e \<noteq> None \<and> connections (cfg_net cfg) e = Some (Some j))"

definition enabled_ok :: "('e, 'c) config \<Rightarrow> bool" where
  "enabled_ok cfg \<longleftrightarrow> (\<forall>e. map_get (enabled (cfg_net cfg)) False e \<longleftrightarrow>
     (\<exists>i j. end_of cfg i j e \<and> connected cfg ! i \<and> connected cfg ! j))"

definition servers_run :: "('e, 'c) config \<Rightarrow> bool" where
  "servers_run cfg \<longleftrightarrow> (\<forall>i < cfg_n cfg.
     map_option (\<lambda>s. srv_rcvr cfg ! s) (map_get (servers (cfg_net cfg)) None i) = rafts cfg ! i \<and>
     (\<forall>s. map_get (servers (cfg_net cfg)) None i = Some s \<longrightarrow> s < length (srv_rcvr cfg)) \<and>
     (\<forall>r. rafts cfg ! i = Some r \<longrightarrow> r < length (peer_heap cfg) \<and> saved cfg ! i = Some (Shared r)))"

definition config_ok :: "('e, 'c) config \<Rightarrow> bool" where
  "config_ok cfg \<longleftrightarrow> shape_ok cfg \<and> names_apart cfg \<and> links_ok cfg \<and> enabled_ok cfg \<and> servers_run cfg"

lemma set_enabled_fields [simp]:
  "end_of (set_enabled cfg b E) = end_of cfg" "shape_ok (set_enabled cfg b E) = shape_ok cfg"
  "connected (set_enabled cfg b E) = connected cfg" "cfg_n (set_enabled cfg b E) = cfg_n cfg"
  "endnames (set_enabled cfg b E) = endnames cfg" "rafts (set_enabled cfg b E) = rafts cfg"
  "saved (set_enabled cfg b E) = saved cfg" "peer_heap (set_enabled cfg b E) = peer_heap cfg"
  "srv_rcvr (set_enabled cfg b E) = srv_rcvr cfg"
  "links_ok (set_enabled cfg b E) = links_ok cfg" "names_apart (set_enabled cfg b E) = names_apart cfg"
  "servers_run (set_enabled cfg b E) = servers_run cfg"
  by (simp_all add: set_enabled_def links_ok_def names_apart_def servers_run_def)

lemma map_get_set_enabled:
  "map_get (enabled (cfg_net (set_enabled cfg b E))) False e =
     (if e \<in> E then b else map_get (enabled (cfg_net cfg)) False e)"
  by (simp add: set_enabled_def map_get_def)

lemma enabled_ok_setI:
  assumes "\<And>e. (if e \<in> E then b else map_get (enabled (cfg_net cfg)) False e) \<longleftrightarrow>
    (\<exists>i j. end_of cfg i j e \<and> conn ! i \<and> conn ! j)"
  shows "enabled_ok (set_enabled (cfg\<lparr>connected := conn\<rparr>) b E)"
proof -
  have "cfg_net (cfg\<lparr>connected := conn\<rparr>) = cfg_net cfg" "connected (cfg\<lparr>connected := conn\<rparr>) = conn" by simp_all
  with assms show ?thesis
    by (simp only: enabled_ok_def map_get_set_enabled set_enabled_fields end_of_simps) blast
qed

lemma keep_connected [simp]:
  "shape_ok cfg \<Longrightarrow> length cs = cfg_n cfg \<Longrightarrow> shape_ok (cfg\<lparr>connected := cs\<rparr>)"
  "links_ok (cfg\<lparr>connected := cs\<rparr>) = links_ok cfg" "names_apart (cfg\<lparr>connected := cs\<rparr>) = names_apart cfg"
  "servers_run (cfg\<lparr>connected := cs\<rparr>) = servers_run cfg"
  by (simp_all add: shape_ok_def links_ok_def names_apart_def servers_run_def)

section \<open>Disconnecting\<close>

definition touching :: "('e, 'c) config \<Rightarrow> nat \<Rightarrow> 'e set" where
  "touching cfg i = {e. \<exists>j. end_of cfg i j e \<or> end_of cfg j i e}"

lemma disconnect_result:
  assumes "shape_ok cfg" and "i < cfg_n cfg"
  shows "disconnect cfg i = Inr (set_enabled (cfg\<lparr>connected := (connected cfg)[i := False]\<rparr>) False (touching cfg i))"
proof -
  let ?cfg = "cfg\<lparr>connected := (connected cfg)[i := False]\<rparr>"
  let ?out = "map (\<lambda>j. (i, j)) (filter (\<lambda>j. endnames cfg ! i \<noteq> None) [0..<cfg_n cfg])"
  let ?inc = "map (\<lambda>j. (j, i)) (filter (\<lambda>j. endnames cfg ! j \<noteq> None) [0..<cfg_n cfg])"
  have len: "length (connected cfg) = cfg_n cfg" using assms(1) by (simp add: shape_ok_def)
  then have sh: "shape_ok ?cfg" using assms(1) by simp
  have "enable_ends ?cfg False ?out = Inr (set_enabled ?cfg False {e. \<exists>x \<in> set ?out. end_of ?cfg (fst x) (snd x) e})"
    by (rule enable_ends_result [OF sh]) (use assms(2) in auto)
  moreover have "enable_ends (set_enabled ?cfg False E) False ?inc =
      Inr (set_enabled (set_enabled ?cfg False E) False
        {e. \<exists>x \<in> set ?inc. end_of (set_enabled ?cfg False E) (fst x) (snd x) e})" for E
    by (rule enable_ends_result) (use sh assms(2) in auto)
  moreover have "{e. \<exists>x \<in> set ?out. end_of cfg (fst x) (snd x) e} \<union> {e. \<exists>x \<in> set ?inc. end_of cfg (fst x) (snd x) e} =
      touching cfg i"
    by (auto simp: touching_def end_of_def)
  moreover have "go_update (connected cfg) (int i) True = Inr ((connected cfg)[i := True])"
    "go_update (connected cfg) (int i) False = Inr ((connected cfg)[i := False])"
    using assms(2) len by (simp_all add: go_update_def)
  ultimately show ?thesis by (simp add: disconnect_def Let_def set_enabled_twice)
qed

lemma enabled_ok_disconnect:
  assumes "enabled_ok cfg" and "names_apart cfg" and "shape_ok cfg"
  shows "enabled_ok (set_enabled (cfg\<lparr>connected := (connected cfg)[i := False]\<rparr>) False (touching cfg i))"
proof -
  let ?conn = "(connected cfg)[i := False]"
  have conn: "?conn ! a \<longleftrightarrow> a \<noteq> i \<and> connected cfg ! a" if "a < cfg_n cfg" for a
    using that assms(3) by (cases "a = i") (auto simp: shape_ok_def)
  have "(if e \<in> touching cfg i then False else map_get (enabled (cfg_net cfg)) False e) \<longleftrightarrow>
      (\<exists>a b. end_of cfg a b e \<and> ?conn ! a \<and> ?conn ! b)" for e
  proof -
    have ap: "a = a' \<and> b = b'" if "end_of cfg a b e" "end_of cfg a' b' e" for a b a' b'
      using assms(2) that unfolding names_apart_def by blast
    have t: "e \<in> touching cfg i \<longleftrightarrow> a = i \<or> b = i" if "end_of cfg a b e" for a b
    proof
      assume "e \<in> touching cfg i"
      then obtain j where "end_of cfg i j e \<or> end_of cfg j i e" by (auto simp: touching_def)
      then show "a = i \<or> b = i" using ap [OF that] by blast
    next
      assume "a = i \<or> b = i"
      then show "e \<in> touching cfg i" using that by (auto simp: touching_def)
    qed
    have c: "?conn ! a \<and> ?conn ! b \<longleftrightarrow> e \<notin> touching cfg i \<and> connected cfg ! a \<and> connected cfg ! b"
      if "end_of cfg a b e" for a b
      using t [OF that] conn [of a] conn [of b] end_of_bounds [OF that] by blast
    have "map_get (enabled (cfg_net cfg)) False e \<longleftrightarrow>
        (\<exists>a b. end_of cfg a b e \<and> connected cfg ! a \<and> connected cfg ! b)"
      using assms(1) by (simp add: enabled_ok_def)
    with c show ?thesis unfolding if_bool_eq_conj by blast
  qed
  then show ?thesis by (rule enabled_ok_setI)
qed

lemma config_ok_disconnect:
  assumes "config_ok cfg" and "i < cfg_n cfg"
  shows "\<exists>cfg'. disconnect cfg i = Inr cfg' \<and> config_ok cfg' \<and> \<not> connected cfg' ! i"
  using assms disconnect_result [of cfg i] enabled_ok_disconnect [of cfg i]
  by (auto simp: config_ok_def) (simp_all add: shape_ok_def)

section \<open>Connecting\<close>

lemma enable_ends_named:
  assumes "enable_ends cfg b ps = Inr cfg'" and "x \<in> set ps"
  shows "endnames cfg ! fst x \<noteq> None"
  using assms
proof (induction ps arbitrary: cfg)
  case (Cons y ps)
  obtain i j where y: "y = (i, j)" by (cases y)
  from Cons.prems(1) obtain e where e: "endname cfg i j = Inr e"
    and rest: "enable_ends (cfg\<lparr>cfg_net := Enable (cfg_net cfg) e b\<rparr>) b ps = Inr cfg'"
    by (auto simp: enable_ends_def y)
  from e have "endnames cfg ! i \<noteq> None" by (auto simp: endname_def go_index_eq_Inr split: option.splits)
  with Cons.IH [OF rest] Cons.prems(2) y show ?case by auto
qed simp

lemma connect_result:
  assumes "shape_ok cfg" and "connect cfg i = Inr cfg'"
  shows "i < cfg_n cfg" and "cfg' = set_enabled (cfg\<lparr>connected := (connected cfg)[i := True]\<rparr>) True
    {e. \<exists>j. (connected cfg)[i := True] ! j \<and> (end_of cfg i j e \<or> end_of cfg j i e)}"
proof -
  have len: "length (connected cfg) = cfg_n cfg" using assms(1) by (simp add: shape_ok_def)
  show i: "i < cfg_n cfg" using assms(2) len by (auto simp: connect_def go_update_def split: if_splits)
  let ?conn = "(connected cfg)[i := True]"
  let ?cfg = "cfg\<lparr>connected := ?conn\<rparr>" and ?js = "filter (\<lambda>j. ?conn ! j) [0..<cfg_n cfg]"
  have sh: "shape_ok ?cfg" using assms(1) len by simp
  obtain c where c: "enable_ends ?cfg True (map (\<lambda>j. (i, j)) ?js) = Inr c"
    "enable_ends c True (map (\<lambda>j. (j, i)) ?js) = Inr cfg'"
    using assms(2) i len by (auto simp: connect_def go_update_def Let_def)
  have "endnames ?cfg ! fst x \<noteq> None" if "x \<in> set (map (\<lambda>j. (i, j)) ?js)" for x
    using enable_ends_named [OF c(1) that] by simp
  then have r1: "enable_ends ?cfg True (map (\<lambda>j. (i, j)) ?js) =
      Inr (set_enabled ?cfg True {e. \<exists>x \<in> set (map (\<lambda>j. (i, j)) ?js). end_of ?cfg (fst x) (snd x) e})"
    by (intro enable_ends_result [OF sh]) (use i in auto)
  let ?c = "set_enabled ?cfg True {e. \<exists>x \<in> set (map (\<lambda>j. (i, j)) ?js). end_of ?cfg (fst x) (snd x) e}"
  have cc: "c = ?c" using c(1) r1 by simp
  have "endnames ?c ! fst x \<noteq> None" if "x \<in> set (map (\<lambda>j. (j, i)) ?js)" for x
    using enable_ends_named [OF c(2) that] by (simp add: cc)
  then have "enable_ends ?c True (map (\<lambda>j. (j, i)) ?js) =
      Inr (set_enabled ?c True {e. \<exists>x \<in> set (map (\<lambda>j. (j, i)) ?js). end_of ?c (fst x) (snd x) e})"
    by (intro enable_ends_result) (use sh i in auto)
  then have "cfg' = set_enabled ?c True {e. \<exists>x \<in> set (map (\<lambda>j. (j, i)) ?js). end_of ?c (fst x) (snd x) e}"
    using c(2) cc by simp
  then show "cfg' = set_enabled ?cfg True {e. \<exists>j. ?conn ! j \<and> (end_of cfg i j e \<or> end_of cfg j i e)}"
    unfolding set_enabled_twice by (auto simp: end_of_def intro!: arg_cong [where f = "set_enabled ?cfg True"])
qed

lemma enabled_ok_connect:
  assumes "enabled_ok cfg" and "names_apart cfg" and "shape_ok cfg" and "i < cfg_n cfg"
  shows "enabled_ok (set_enabled (cfg\<lparr>connected := (connected cfg)[i := True]\<rparr>) True
    {e. \<exists>j. (connected cfg)[i := True] ! j \<and> (end_of cfg i j e \<or> end_of cfg j i e)})"
proof -
  let ?conn = "(connected cfg)[i := True]"
  define E where "E = {e. \<exists>j. ?conn ! j \<and> (end_of cfg i j e \<or> end_of cfg j i e)}"
  have ci: "?conn ! i" and co: "a \<noteq> i \<Longrightarrow> ?conn ! a = connected cfg ! a" for a
    using assms(3,4) by (auto simp: shape_ok_def)
  have "(if e \<in> E then True else map_get (enabled (cfg_net cfg)) False e) \<longleftrightarrow>
      (\<exists>a b. end_of cfg a b e \<and> ?conn ! a \<and> ?conn ! b)" for e
  proof -
    have "map_get (enabled (cfg_net cfg)) False e \<longleftrightarrow>
        (\<exists>a b. end_of cfg a b e \<and> connected cfg ! a \<and> connected cfg ! b)"
      using assms(1) by (simp add: enabled_ok_def)
    moreover have "?conn ! a" if "connected cfg ! a" for a using that ci co by (cases "a = i") auto
    moreover have "e \<in> E \<or> connected cfg ! a \<and> connected cfg ! b"
      if "end_of cfg a b e" "?conn ! a" "?conn ! b" for a b
    proof (cases "a = i \<or> b = i")
      case True
      with that show ?thesis unfolding E_def by blast
    next
      case False
      with that co show ?thesis by simp
    qed
    moreover have "\<exists>a b. end_of cfg a b e \<and> ?conn ! a \<and> ?conn ! b" if "e \<in> E"
      using that ci unfolding E_def by blast
    ultimately show ?thesis unfolding if_bool_eq_conj by blast
  qed
  then show ?thesis unfolding E_def [symmetric] by (rule enabled_ok_setI)
qed

lemma config_ok_connect:
  assumes "config_ok cfg" and "connect cfg i = Inr cfg'"
  shows "config_ok cfg'"
  using assms connect_result [of cfg i cfg'] enabled_ok_connect [of cfg i]
  by (auto simp: config_ok_def) (simp add: shape_ok_def)

section \<open>Crashing\<close>

definition crashed :: "('e, 'c) config \<Rightarrow> nat \<Rightarrow> ('e, 'c) config" where
  "crashed cfg i = cfg\<lparr>cfg_net := DeleteServer (cfg_net cfg) i,
     saved := (saved cfg)[i := map_option (\<lambda>s. Own (SaveRaftState MakePersister
       (ReadRaftState (Copy (read_saved cfg s))))) (saved cfg ! i)],
     peer_heap := (case rafts cfg ! i of None \<Rightarrow> peer_heap cfg
       | Some r \<Rightarrow> (peer_heap cfg)[r := Kill (peer_heap cfg ! r)]),
     rafts := (rafts cfg)[i := None]\<rparr>"

lemma read_saved_simps [simp]:
  "read_saved cfg (Own ps) = ps" "read_saved (cfg\<lparr>cfg_net := x\<rparr>) = read_saved cfg"
  "read_saved (cfg\<lparr>endnames := y\<rparr>) = read_saved cfg"
  by (simp_all add: read_saved_def fun_eq_iff split: saved.split)

lemma crash1_result:
  assumes "disconnect cfg i = Inr c" and "shape_ok c" and "i < cfg_n c"
  shows "crash1 cfg i = Inr (crashed c i)"
proof -
  have len: "i < length (saved c)" using assms(2,3) by (simp add: shape_ok_def)
  have "(saved c)[i := saved c ! i] = saved c" "(rafts c)[i := rafts c ! i] = rafts c" by simp_all
  with len show ?thesis
    by (cases "saved c ! i"; cases "rafts c ! i")
      (simp_all add: crash1_def assms(1) Let_def crashed_def kill_peer_def)
qed

lemma crashed_fields [simp]:
  "end_of (crashed cfg i) = end_of cfg" "connected (crashed cfg i) = connected cfg"
  "cfg_n (crashed cfg i) = cfg_n cfg" "endnames (crashed cfg i) = endnames cfg"
  "srv_rcvr (crashed cfg i) = srv_rcvr cfg" "length (peer_heap (crashed cfg i)) = length (peer_heap cfg)"
  "shape_ok (crashed cfg i) = shape_ok cfg"
  by (simp_all add: crashed_def end_of_def fun_eq_iff shape_ok_def split: option.split)

lemma config_ok_crashed:
  assumes "config_ok cfg" and "i < cfg_n cfg"
  shows "config_ok (crashed cfg i)"
proof -
  have len: "length (saved cfg) = cfg_n cfg" "length (rafts cfg) = cfg_n cfg"
    using assms(1) by (simp_all add: config_ok_def shape_ok_def)
  have "servers_run (crashed cfg i)"
  proof -
    have "map_option (\<lambda>s. srv_rcvr cfg ! s) (map_get (servers (cfg_net (crashed cfg i))) None j) = rafts (crashed cfg i) ! j \<and>
      (\<forall>s. map_get (servers (cfg_net (crashed cfg i))) None j = Some s \<longrightarrow> s < length (srv_rcvr cfg)) \<and>
      (\<forall>r. rafts (crashed cfg i) ! j = Some r \<longrightarrow> r < length (peer_heap cfg) \<and> saved (crashed cfg i) ! j = Some (Shared r))"
      if j: "j < cfg_n cfg" for j
    proof (cases "j = i")
      case True
      with j len show ?thesis by (simp add: crashed_def DeleteServer_def map_get_def)
    next
      case False
      moreover have "map_get (servers (cfg_net (crashed cfg i))) None j = map_get (servers (cfg_net cfg)) None j"
        "rafts (crashed cfg i) ! j = rafts cfg ! j" "saved (crashed cfg i) ! j = saved cfg ! j"
        using False by (simp_all add: crashed_def DeleteServer_def map_get_def)
      ultimately show ?thesis using assms(1) j by (simp add: config_ok_def servers_run_def)
    qed
    then show ?thesis unfolding servers_run_def crashed_fields by blast
  qed
  moreover have "ends (cfg_net (crashed cfg i)) = ends (cfg_net cfg)"
    "connections (cfg_net (crashed cfg i)) = connections (cfg_net cfg)"
    "enabled (cfg_net (crashed cfg i)) = enabled (cfg_net cfg)"
    by (simp_all add: crashed_def DeleteServer_def)
  ultimately show ?thesis
    using assms(1) by (simp add: config_ok_def links_ok_def enabled_ok_def names_apart_def)
qed

lemma crash1_ok:
  assumes "config_ok cfg" and "i < cfg_n cfg"
  obtains c where "disconnect cfg i = Inr c" and "crash1 cfg i = Inr (crashed c i)"
    and "config_ok (crashed c i)" and "\<not> connected (crashed c i) ! i" and "cfg_n c = cfg_n cfg"
proof -
  from assms have sh: "shape_ok cfg" by (simp add: config_ok_def)
  obtain c where c: "disconnect cfg i = Inr c" "config_ok c" "\<not> connected c ! i"
    using config_ok_disconnect [OF assms] by blast
  have n: "cfg_n c = cfg_n cfg" using disconnect_result [OF sh assms(2)] c(1) by auto
  show thesis
  proof (rule that [OF c(1)])
    show "crash1 cfg i = Inr (crashed c i)"
      using crash1_result [OF c(1)] c(2) assms(2) n by (simp add: config_ok_def)
    show "config_ok (crashed c i)" using c(2) assms(2) n by (intro config_ok_crashed) simp_all
  qed (use c(3) n in simp_all)
qed

section \<open>Starting\<close>

definition with_ends :: "('e, nat) Network \<Rightarrow> 'e list \<Rightarrow> ('e, nat) Network \<Rightarrow> bool" where
  "with_ends rn names rn' \<longleftrightarrow> distinct names \<and> (\<forall>e \<in> set names. ends rn e = None) \<and>
     (\<forall>e. ends rn' e \<noteq> None \<longleftrightarrow> ends rn e \<noteq> None \<or> e \<in> set names) \<and>
     (\<forall>e. e \<in> set names \<longrightarrow> enabled rn' e = Some False) \<and>
     (\<forall>j < length names. connections rn' (names ! j) = Some (Some j)) \<and>
     (\<forall>e. e \<notin> set names \<longrightarrow> enabled rn' e = enabled rn e \<and> connections rn' e = connections rn e) \<and>
     servers rn' = servers rn"

lemma make_ends_snoc:
  "make_ends rn (names @ [e]) =
     bind_go (make_ends rn names) (\<lambda>rn. bind_go (MakeEnd rn e) (\<lambda>(rn, _). Inr (Connect rn e (length names))))"
  by (simp add: make_ends_def fold_go_append bind_go_def split: sum.split)

lemma with_ends_snoc:
  assumes "with_ends rn names rn1" and "MakeEnd rn1 e = Inr (rn2, ce)"
  shows "with_ends rn (names @ [e]) (Connect rn2 e (length names))"
proof -
  have new: "ends rn1 e = None" and rn2: "rn2 = rn1\<lparr>ends := (ends rn1)(e \<mapsto> \<lparr>ce_endname = e\<rparr>),
      enabled := (enabled rn1)(e \<mapsto> False), connections := (connections rn1)(e \<mapsto> None)\<rparr>"
    using assms(2) by (auto simp: MakeEnd_def Let_def split: if_splits)
  have e: "e \<notin> set names" "ends rn e = None"
    using new assms(1) unfolding with_ends_def by blast+
  then have "names ! j \<noteq> e" if "j < length names" for j using that nth_mem by blast
  with assms(1) e show ?thesis
    unfolding with_ends_def rn2 Connect_def by (simp add: nth_append less_Suc_eq)
qed

lemma make_ends_result: "make_ends rn names = Inr rn' \<Longrightarrow> with_ends rn names rn'"
proof (induction names arbitrary: rn' rule: rev_induct)
  case Nil
  then show ?case by (simp add: make_ends_def with_ends_def)
next
  case (snoc e names)
  then obtain rn1 rn2 ce where "make_ends rn names = Inr rn1" "MakeEnd rn1 e = Inr (rn2, ce)"
    "rn' = Connect rn2 e (length names)"
    by (auto simp: make_ends_snoc)
  with with_ends_snoc [OF snoc.IH] show ?case by simp
qed

definition started :: "('e, 'c) config \<Rightarrow> nat \<Rightarrow> 'e list \<Rightarrow> ('e, nat) Network \<Rightarrow> ('e, 'c) config" where
  "started c i names rn = c\<lparr>endnames := (endnames c)[i := Some names],
     cfg_net := AddServer rn i (length (srv_rcvr c)), saved := (saved c)[i := Some (Shared (length (peer_heap c)))],
     peer_heap := peer_heap c @ [Make (cfg_n c) i
       (case saved c ! i of Some s \<Rightarrow> Copy (read_saved c s) | None \<Rightarrow> MakePersister)],
     rafts := (rafts c)[i := Some (length (peer_heap c))], srv_rcvr := srv_rcvr c @ [length (peer_heap c)]\<rparr>"

lemma start1_result:
  assumes "crash1 cfg i = Inr c" and "start1 cfg i names = Inr cfg'"
  obtains rn where "with_ends (cfg_net c) names rn" and "cfg' = started c i names rn"
proof -
  obtain rn where "make_ends (cfg_net c) names = Inr rn" and "cfg' = started c i names rn"
    using assms by (cases "saved c ! i") (auto simp: start1_def Let_def started_def)
  then show thesis using that make_ends_result by blast
qed

lemma end_of_started:
  assumes "shape_ok c" and "i < cfg_n c"
  shows "end_of (started c i names rn) a b e \<longleftrightarrow>
    (if a = i then b < cfg_n c \<and> names ! b = e else end_of c a b e)"
  using assms by (auto simp: started_def end_of_def shape_ok_def)

lemma servers_run_started:
  assumes ok: "config_ok c" and i: "i < cfg_n c" and rn: "servers rn = servers (cfg_net c)"
  shows "servers_run (started c i names rn)"
  unfolding servers_run_def
proof (intro allI impI)
  fix j
  assume "j < cfg_n (started c i names rn)"
  then have j: "j < cfg_n c" by (simp add: started_def)
  have len: "length (saved c) = cfg_n c" "length (rafts c) = cfg_n c"
    using ok by (simp_all add: config_ok_def shape_ok_def)
  show "map_option (\<lambda>s. srv_rcvr (started c i names rn) ! s)
        (map_get (servers (cfg_net (started c i names rn))) None j) = rafts (started c i names rn) ! j \<and>
    (\<forall>s. map_get (servers (cfg_net (started c i names rn))) None j = Some s \<longrightarrow>
      s < length (srv_rcvr (started c i names rn))) \<and>
    (\<forall>r. rafts (started c i names rn) ! j = Some r \<longrightarrow> r < length (peer_heap (started c i names rn)) \<and>
      saved (started c i names rn) ! j = Some (Shared r))"
  proof (cases "j = i")
    case True
    with i len show ?thesis by (simp add: started_def AddServer_def map_get_def)
  next
    case False
    let ?s = "map_get (servers (cfg_net c)) None j"
    have "map_get (servers (cfg_net (started c i names rn))) None j = ?s"
      "rafts (started c i names rn) ! j = rafts c ! j" "saved (started c i names rn) ! j = saved c ! j"
      using False by (simp_all add: started_def AddServer_def map_get_def rn)
    moreover have "map_option (\<lambda>s. srv_rcvr c ! s) ?s = rafts c ! j"
      "\<And>s. ?s = Some s \<Longrightarrow> s < length (srv_rcvr c)"
      "\<And>r. rafts c ! j = Some r \<Longrightarrow> r < length (peer_heap c) \<and> saved c ! j = Some (Shared r)"
      using ok j by (auto simp: config_ok_def servers_run_def)
    ultimately show ?thesis
      by (cases ?s) (auto simp: started_def nth_append less_Suc_eq)
  qed
qed

lemma config_ok_started:
  assumes ok: "config_ok c" and i: "i < cfg_n c" and off: "\<not> connected c ! i"
    and names: "length names = cfg_n c" and rn: "with_ends (cfg_net c) names rn"
  shows "config_ok (started c i names rn)"
proof -
  let ?c = "started c i names rn"
  have sh: "shape_ok c" and ap: "names_apart c" and li: "links_ok c" and en: "enabled_ok c"
    using ok by (simp_all add: config_ok_def)
  note end_of = end_of_started [OF sh i]
  have fresh: "e \<notin> set names" if "end_of c a b e" for a b e
    using that li rn unfolding links_ok_def with_ends_def by blast
  have mem: "names ! b \<in> set names" if "b < cfg_n c" for b using that names by simp
  have "shape_ok ?c" using sh i names by (auto simp: shape_ok_def started_def nth_list_update)
  moreover have "names_apart ?c"
    unfolding names_apart_def
  proof (intro allI impI)
    fix a b a' b' e
    assume 1: "end_of ?c a b e" and 2: "end_of ?c a' b' e"
    have dist: "distinct names" using rn by (simp add: with_ends_def)
    show "a = a' \<and> b = b'"
    proof (cases "a = i \<or> a' = i")
      case True
      then have "a = i \<and> a' = i" using 1 2 fresh mem unfolding end_of by (metis (full_types))
      with 1 2 dist names show ?thesis unfolding end_of
        by simp (metis nth_eq_iff_index_eq)
    next
      case False
      with 1 2 ap show ?thesis unfolding end_of names_apart_def by (metis (full_types))
    qed
  qed
  moreover have "links_ok ?c"
  proof -
    have "ends (cfg_net ?c) = ends rn" "connections (cfg_net ?c) = connections rn"
      by (simp_all add: started_def AddServer_def)
    moreover have "ends rn e \<noteq> None \<and> connections rn e = Some (Some b)" if "end_of ?c a b e" for a b e
    proof (cases "a = i")
      case True
      with that mem rn names show ?thesis unfolding end_of by (auto simp: with_ends_def)
    next
      case False
      then have "end_of c a b e" using that by (simp add: end_of)
      with fresh [OF this] li rn show ?thesis by (auto simp: with_ends_def links_ok_def)
    qed
    ultimately show ?thesis unfolding links_ok_def by simp
  qed
  moreover have "enabled_ok ?c"
  proof -
    have conn: "connected ?c = connected c" "enabled (cfg_net ?c) = enabled rn"
      by (simp_all add: started_def AddServer_def)
    have "map_get (enabled rn) False e \<longleftrightarrow> e \<notin> set names \<and> map_get (enabled (cfg_net c)) False e" for e
      using rn by (cases "e \<in> set names") (simp_all add: with_ends_def map_get_def)
    moreover have "(end_of ?c a b e \<and> connected c ! a \<and> connected c ! b) \<longleftrightarrow>
        (e \<notin> set names \<and> end_of c a b e \<and> connected c ! a \<and> connected c ! b)" for a b e
      using fresh off by (cases "a = i") (auto simp: end_of)
    ultimately show ?thesis using en unfolding enabled_ok_def conn by blast
  qed
  moreover have "servers_run ?c"
    by (rule servers_run_started [OF ok i]) (use rn in \<open>simp add: with_ends_def\<close>)
  ultimately show ?thesis by (simp add: config_ok_def)
qed

section \<open>Every state of a test\<close>

text \<open>
  What can happen during a test: the operations of the harness, a message on an apply channel, a peer that
  runs (its new state is arbitrary) and traffic that the network counts.
\<close>

datatype ('e, 'c) config_op =
    OpStart1 nat "'e list" | OpCrash1 nat | OpConnect nat | OpDisconnect nat
  | OpUnreliable bool | OpLongReordering bool | OpBegin nat
  | OpApply nat "'c ApplyMsg" | OpPeer nat "'c raft" | OpTraffic "32 word" "64 word"

fun config_step :: "('e, 'c) config_op \<Rightarrow> ('e, 'c) config \<Rightarrow> ('e, 'c) config go option" where
  "config_step (OpStart1 i names) cfg =
     (if i < cfg_n cfg \<and> length names = cfg_n cfg then Some (start1 cfg i names) else None)"
| "config_step (OpCrash1 i) cfg = (if i < cfg_n cfg then Some (crash1 cfg i) else None)"
| "config_step (OpConnect i) cfg = Some (connect cfg i)"
| "config_step (OpDisconnect i) cfg = (if i < cfg_n cfg then Some (disconnect cfg i) else None)"
| "config_step (OpUnreliable b) cfg = Some (Inr (setunreliable cfg b))"
| "config_step (OpLongReordering b) cfg = Some (Inr (setlongreordering cfg b))"
| "config_step (OpBegin now) cfg = Some (Inr (begin_test cfg now))"
| "config_step (OpApply i m) cfg = (if i < cfg_n cfg then Some (apply_reader cfg i m) else None)"
| "config_step (OpPeer r rf) cfg = Some (Inr (cfg\<lparr>peer_heap := (peer_heap cfg)[r := rf]\<rparr>))"
| "config_step (OpTraffic c b) cfg =
     Some (Inr (cfg\<lparr>cfg_net := (cfg_net cfg)\<lparr>rpc_count := c, rpc_bytes := b\<rparr>\<rparr>))"

definition config_init :: "nat \<Rightarrow> ('e, 'c) config \<Rightarrow> bool" where
  "config_init n cfg \<longleftrightarrow> (\<exists>now unreliable.
     cfg = (let cfg = setunreliable (blank_config n now) unreliable
            in cfg\<lparr>cfg_net := LongDelays (cfg_net cfg) True\<rparr>))"

definition config_next :: "('e, 'c) config \<Rightarrow> ('e, 'c) config \<Rightarrow> bool" where
  "config_next cfg cfg' \<longleftrightarrow> (\<exists>op. config_step op cfg = Some (Inr cfg'))"

definition config_reach :: "nat \<Rightarrow> ('e, 'c) config \<Rightarrow> bool" where
  "config_reach n = reach (config_init n) config_next"

text \<open>Two states that agree on what the invariant looks at.\<close>

definition same_wiring :: "('e, 'c) config \<Rightarrow> ('e, 'c) config \<Rightarrow> bool" where
  "same_wiring c d \<longleftrightarrow> cfg_n d = cfg_n c \<and> rafts d = rafts c \<and> connected d = connected c \<and> saved d = saved c \<and>
     endnames d = endnames c \<and> length (logs d) = length (logs c) \<and> length (peer_heap d) = length (peer_heap c) \<and>
     srv_rcvr d = srv_rcvr c \<and> ends (cfg_net d) = ends (cfg_net c) \<and>
     enabled (cfg_net d) = enabled (cfg_net c) \<and> connections (cfg_net d) = connections (cfg_net c) \<and>
     servers (cfg_net d) = servers (cfg_net c)"

lemma config_ok_same: "same_wiring c d \<Longrightarrow> config_ok c \<Longrightarrow> config_ok d"
proof -
  assume s: "same_wiring c d"
  then have "end_of d = end_of c" by (auto simp: same_wiring_def end_of_def fun_eq_iff)
  with s show "config_ok c \<Longrightarrow> config_ok d"
    by (simp add: same_wiring_def config_ok_def shape_ok_def names_apart_def links_ok_def enabled_ok_def servers_run_def)
qed

lemma apply_reader_same: "apply_reader cfg i m = Inr cfg' \<Longrightarrow> same_wiring cfg cfg'"
  by (auto simp: apply_reader_def same_wiring_def Let_def split: if_splits)

lemma config_ok_init: "config_init n cfg \<Longrightarrow> config_ok cfg \<and> cfg_n cfg = n"
  by (auto simp: config_init_def Let_def setunreliable_def blank_config_def LongDelays_def Reliable_def MakeNetwork_def
      config_ok_def shape_ok_def names_apart_def links_ok_def enabled_ok_def servers_run_def end_of_def map_get_def)

lemma cfg_n_ops:
  assumes ok: "config_ok cfg"
  shows "connect cfg i = Inr cfg' \<Longrightarrow> cfg_n cfg' = cfg_n cfg"
    and "disconnect cfg i = Inr cfg' \<Longrightarrow> i < cfg_n cfg \<Longrightarrow> cfg_n cfg' = cfg_n cfg"
    and "crash1 cfg i = Inr cfg' \<Longrightarrow> i < cfg_n cfg \<Longrightarrow> cfg_n cfg' = cfg_n cfg"
    and "start1 cfg i names = Inr cfg' \<Longrightarrow> i < cfg_n cfg \<Longrightarrow> cfg_n cfg' = cfg_n cfg"
proof -
  have sh: "shape_ok cfg" using ok by (simp add: config_ok_def)
  show "connect cfg i = Inr cfg' \<Longrightarrow> cfg_n cfg' = cfg_n cfg"
    by (drule connect_result(2) [OF sh]) simp
  show "disconnect cfg i = Inr cfg' \<Longrightarrow> i < cfg_n cfg \<Longrightarrow> cfg_n cfg' = cfg_n cfg"
    using disconnect_result [OF sh, of i] by auto
  have crash: "\<exists>c. crash1 cfg i = Inr c \<and> cfg_n c = cfg_n cfg" if "i < cfg_n cfg"
    by (rule crash1_ok [OF ok that]) simp
  then show "crash1 cfg i = Inr cfg' \<Longrightarrow> i < cfg_n cfg \<Longrightarrow> cfg_n cfg' = cfg_n cfg" by auto
  assume s: "start1 cfg i names = Inr cfg'" and i: "i < cfg_n cfg"
  then obtain c where c: "crash1 cfg i = Inr c" "cfg_n c = cfg_n cfg" using crash by blast
  obtain rn where "cfg' = started c i names rn" by (rule start1_result [OF c(1) s])
  with c(2) show "cfg_n cfg' = cfg_n cfg" by (simp add: started_def)
qed

lemma config_ok_start1:
  assumes ok: "config_ok cfg" and i: "i < cfg_n cfg" and names: "length names = cfg_n cfg"
    and s: "start1 cfg i names = Inr cfg'"
  shows "config_ok cfg'"
proof -
  obtain c where c: "crash1 cfg i = Inr (crashed c i)" "config_ok (crashed c i)"
    "\<not> connected (crashed c i) ! i" "cfg_n c = cfg_n cfg"
    by (rule crash1_ok [OF ok i])
  obtain rn where rn: "with_ends (cfg_net (crashed c i)) names rn" "cfg' = started (crashed c i) i names rn"
    by (rule start1_result [OF c(1) s])
  show ?thesis unfolding rn(2) by (rule config_ok_started [OF c(2)]) (use c i names rn in simp_all)
qed

lemma config_ok_step:
  assumes ok: "config_ok cfg" and step: "config_step op cfg = Some (Inr cfg')"
  shows "config_ok cfg' \<and> cfg_n cfg' = cfg_n cfg"
proof (cases op)
  case (OpStart1 i names)
  with step have "i < cfg_n cfg" "length names = cfg_n cfg" "start1 cfg i names = Inr cfg'"
    by (auto split: if_splits)
  with ok config_ok_start1 cfg_n_ops(4) show ?thesis by blast
next
  case (OpCrash1 i)
  with step have i: "i < cfg_n cfg" and c: "crash1 cfg i = Inr cfg'" by (auto split: if_splits)
  then show ?thesis using crash1_ok [OF ok i] cfg_n_ops(3) [OF ok c i] by auto
next
  case (OpConnect i)
  with step have "connect cfg i = Inr cfg'" by simp
  with ok config_ok_connect cfg_n_ops(1) show ?thesis by blast
next
  case (OpDisconnect i)
  with step have i: "i < cfg_n cfg" and c: "disconnect cfg i = Inr cfg'" by (auto split: if_splits)
  then show ?thesis using config_ok_disconnect [OF ok i] cfg_n_ops(2) [OF ok c i] by auto
next
  case (OpApply i m)
  with step have "same_wiring cfg cfg'" by (auto split: if_splits dest: apply_reader_same)
  with ok config_ok_same show ?thesis by (auto simp: same_wiring_def)
qed (use step in \<open>auto intro!: config_ok_same [OF _ ok] simp: same_wiring_def setunreliable_def setlongreordering_def
      begin_test_def Reliable_def LongReordering_def\<close>)

interpretation harness: invariant_system "config_init n" config_next "\<lambda>cfg. config_ok cfg \<and> cfg_n cfg = n" for n
  by unfold_locales (auto simp: config_next_def dest: config_ok_init config_ok_step)

lemma config_reach_ok: "config_reach n cfg \<Longrightarrow> config_ok cfg \<and> cfg_n cfg = n"
  unfolding config_reach_def by (rule harness.reach_inv)

lemma config_reach_step: "config_reach n cfg \<Longrightarrow> config_step op cfg = Some (Inr cfg') \<Longrightarrow> config_reach n cfg'"
  unfolding config_reach_def by (rule reach.reach_step) (auto simp: config_next_def)

lemma make_config_reach:
  assumes run: "make_config n unreliable now names = Inr cfg" and names: "\<And>i. length (names i) = n"
  shows "config_reach n cfg"
proof -
  let ?c0 = "let cfg = setunreliable (blank_config n now) unreliable
    in cfg\<lparr>cfg_net := LongDelays (cfg_net cfg) True\<rparr>"
  obtain c where 1: "fold_go (\<lambda>i cfg. start1 cfg i (names i)) [0..<n] ?c0 = Inr c"
    and 2: "fold_go (\<lambda>i cfg. connect cfg i) [0..<n] c = Inr cfg"
    using run by (auto simp: make_config_def Let_def)
  have "config_reach n ?c0"
    unfolding config_reach_def by (rule reach.reach_init) (auto simp: config_init_def)
  with 1 have "config_reach n c"
  proof (rule fold_go_inv)
    fix i c c'
    assume "i \<in> set [0..<n]" "config_reach n c" "start1 c i (names i) = Inr c'"
    then show "config_reach n c'"
      using config_reach_step [of n c "OpStart1 i (names i)" c'] names config_reach_ok [of n c] by simp
  qed
  with 2 show ?thesis
  proof (rule fold_go_inv)
    fix i c c'
    assume "config_reach n c" "connect c i = Inr c'"
    then show "config_reach n c'" using config_reach_step [of n c "OpConnect i" c'] by simp
  qed
qed

section \<open>Properties\<close>

text \<open>
  C8: the network follows the harness. In every state of a test exactly the ends between two connected
  peers are enabled, among all ends ever made: the ends of an earlier instance of a peer stay disabled. The
  end from peer \<open>i\<close> to peer \<open>j\<close> is connected to \<open>j\<close>, and the server it leads to, if there is one, calls
  the instance of \<open>j\<close> that runs now.
\<close>

theorem network_follows_config:
  assumes "config_reach n cfg"
  shows "{e. map_get (enabled (cfg_net cfg)) False e} =
      {e. \<exists>i j. end_of cfg i j e \<and> connected cfg ! i \<and> connected cfg ! j} \<and>
    (end_of cfg i j e \<longrightarrow>
      readEndnameInfo (cfg_net cfg) e = (connected cfg ! i \<and> connected cfg ! j, Some j,
        map_get (servers (cfg_net cfg)) None j, reliable (cfg_net cfg), longReordering (cfg_net cfg)) \<and>
      map_option (\<lambda>s. srv_rcvr cfg ! s) (map_get (servers (cfg_net cfg)) None j) = rafts cfg ! j)"
proof -
  have ok: "enabled_ok cfg" "links_ok cfg" "servers_run cfg" "names_apart cfg"
    using config_reach_ok [OF assms] by (simp_all add: config_ok_def)
  have "map_get (enabled (cfg_net cfg)) False e \<longleftrightarrow> connected cfg ! i \<and> connected cfg ! j" if "end_of cfg i j e"
    using ok(1,4) that unfolding enabled_ok_def names_apart_def by blast
  moreover have "map_get (connections (cfg_net cfg)) None e = Some j" if "end_of cfg i j e"
    using ok(2) that by (auto simp: links_ok_def map_get_def)
  moreover have "map_option (\<lambda>s. srv_rcvr cfg ! s) (map_get (servers (cfg_net cfg)) None j) = rafts cfg ! j"
    if "end_of cfg i j e"
    using ok(3) end_of_bounds [OF that] by (auto simp: servers_run_def)
  ultimately show ?thesis
    using ok(1) by (auto simp: readEndnameInfo_def enabled_ok_def)
qed

definition sample_names :: "nat \<Rightarrow> nat list" where
  "sample_names i = [2 * i, 2 * i + 1]"

lemma sample_config:
  "map_sum id (\<lambda>cfg. (endnames cfg, connected cfg, rafts cfg, map (servers (cfg_net cfg)) [0, 1]))
     (make_config 2 False 0 sample_names :: (nat, nat) config go) =
   Inr ([Some [0, 1], Some [2, 3]], [True, True], [Some 0, Some 1], [Some (Some 0), Some (Some 1)])"
  by code_simp

theorem network_follows_config_witness:
  "\<exists>cfg :: (nat, nat) config. config_reach 2 cfg \<and> end_of cfg 0 1 1 \<and>
     readEndnameInfo (cfg_net cfg) 1 = (True, Some 1, Some 1, reliable (cfg_net cfg), longReordering (cfg_net cfg))"
proof -
  obtain cfg :: "(nat, nat) config" where m: "make_config 2 False 0 sample_names = Inr cfg"
    and f: "endnames cfg = [Some [0, 1], Some [2, 3]]" "connected cfg = [True, True]"
      "servers (cfg_net cfg) 1 = Some (Some 1)"
    using sample_config by (cases "make_config 2 False 0 sample_names :: (nat, nat) config go") auto
  have r: "config_reach 2 cfg" by (rule make_config_reach [OF m]) (simp add: sample_names_def)
  then have "end_of cfg 0 1 1" using f config_reach_ok [OF r] by (simp add: end_of_def)
  with network_follows_config [OF r, of 0 1 1] r f show ?thesis by (auto simp: map_get_def)
qed


lemma sample_restart:
  "map_sum id (\<lambda>cfg. (rafts cfg, length (peer_heap cfg), isl (start1 cfg 0 [1])))
     (make_config 1 False 0 (\<lambda>_. [0]) :: (nat, nat) config go) = Inr ([Some 0], 1, False)"
  by code_simp


end
