(* ===== verification/ConfigChecks.thy ===== *)
theory ConfigChecks
  imports Config
begin

text \<open>
  The checks of the test harness are right: the readers of the apply channels accept exactly the runs in
  which peers apply the same commands in order, \<^verbatim>\<open>nCommitted\<close> counts the peers that hold an index, \<^verbatim>\<open>one\<close>
  returns only after an agreement, and \<^verbatim>\<open>checkOneLeader\<close> returns the leader of the latest term.
\<close>

section \<open>The readers of the apply channels\<close>

text \<open>Messages in the order in which the readers take them, with the peers they come from.\<close>

definition apply_all :: "('e, 'c) config \<Rightarrow> (nat \<times> 'c ApplyMsg) list \<Rightarrow> ('e, 'c) config go" where
  "apply_all cfg ms = fold_go (\<lambda>(i, m) cfg. apply_reader cfg i m) ms cfg"

definition said :: "(nat \<times> 'c ApplyMsg) list \<Rightarrow> nat \<Rightarrow> int \<Rightarrow> 'c iface \<Rightarrow> bool" where
  "said ms i k v \<longleftrightarrow> (\<exists>m. (i, m) \<in> set ms \<and> CommandValid m \<and> CommandIndex m = k \<and> ApplyCommand m = v)"

text \<open>No two peers apply different commands at one index, and each applies an index after the one before.\<close>

definition agreeing :: "(nat \<times> 'c ApplyMsg) list \<Rightarrow> bool" where
  "agreeing ms \<longleftrightarrow> (\<forall>i j k v w. said ms i k v \<longrightarrow> said ms j k w \<longrightarrow> v = w)"

definition in_order :: "(nat \<times> 'c ApplyMsg) list \<Rightarrow> bool" where
  "in_order ms \<longleftrightarrow> (\<forall>p < length ms. case ms ! p of (i, m) \<Rightarrow>
     CommandValid m \<and> CommandIndex m > 1 \<longrightarrow> (\<exists>v. said (take p ms) i (CommandIndex m - 1) v))"

lemma said_simps [simp]:
  "\<not> said [] i k v"
  "said (ms @ [(j, m)]) i k v \<longleftrightarrow>
     said ms i k v \<or> CommandValid m \<and> i = j \<and> CommandIndex m = k \<and> ApplyCommand m = v"
  by (auto simp: said_def)

text \<open>What the reader of peer \<open>i\<close> accepts after \<open>ms\<close>.\<close>

definition acceptable :: "(nat \<times> 'c ApplyMsg) list \<Rightarrow> nat \<Rightarrow> 'c ApplyMsg \<Rightarrow> bool" where
  "acceptable ms i m \<longleftrightarrow> (CommandValid m \<longrightarrow>
     (\<forall>j w. said ms j (CommandIndex m) w \<longrightarrow> w = ApplyCommand m) \<and>
     (CommandIndex m > 1 \<longrightarrow> (\<exists>v. said ms i (CommandIndex m - 1) v)))"

lemma agreeing_snoc:
  "agreeing (ms @ [(i, m)]) \<longleftrightarrow> agreeing ms \<and>
     (CommandValid m \<longrightarrow> (\<forall>j w. said ms j (CommandIndex m) w \<longrightarrow> w = ApplyCommand m))"
proof (cases "CommandValid m")
  case True
  then show ?thesis unfolding agreeing_def said_simps by blast
next
  case False
  then show ?thesis unfolding agreeing_def said_simps by simp
qed

lemma in_order_snoc:
  "in_order (ms @ [(i, m)]) \<longleftrightarrow> in_order ms \<and>
     (CommandValid m \<and> CommandIndex m > 1 \<longrightarrow> (\<exists>v. said ms i (CommandIndex m - 1) v))"
  by (auto simp: in_order_def nth_append less_Suc_eq all_conj_distrib split: prod.splits)

lemma accept_snoc:
  "agreeing (ms @ [(i, m)]) \<and> in_order (ms @ [(i, m)]) \<longleftrightarrow> (agreeing ms \<and> in_order ms) \<and> acceptable ms i m"
  by (auto simp: agreeing_snoc in_order_snoc acceptable_def)

text \<open>The logs hold what was said.\<close>

definition recorded :: "nat \<Rightarrow> (nat \<times> 'c ApplyMsg) list \<Rightarrow> ('e, 'c) config \<Rightarrow> bool" where
  "recorded n ms cfg \<longleftrightarrow> length (logs cfg) = n \<and> (\<forall>x \<in> set ms. fst x < n) \<and>
     (\<forall>i < n. \<forall>k v. (logs cfg ! i) k = Some v \<longleftrightarrow> said ms i k v)"

lemma recordedD:
  assumes "recorded n ms cfg"
  shows "length (logs cfg) = n" and "i < n \<Longrightarrow> (logs cfg ! i) k = Some v \<longleftrightarrow> said ms i k v"
    and "said ms i k v \<Longrightarrow> i < n"
  using assms by (auto simp: recorded_def said_def)

lemma recorded_differs:
  assumes "recorded n ms cfg"
  shows "list_ex (\<lambda>l. case l k of None \<Rightarrow> False | Some old \<Rightarrow> old \<noteq> v) (logs cfg) \<longleftrightarrow>
    (\<exists>j w. said ms j k w \<and> w \<noteq> v)"
proof -
  have "list_ex (\<lambda>l. case l k of None \<Rightarrow> False | Some old \<Rightarrow> old \<noteq> v) (logs cfg) \<longleftrightarrow>
      (\<exists>j < n. \<exists>w. (logs cfg ! j) k = Some w \<and> w \<noteq> v)"
    by (auto simp: list_ex_length recordedD(1) [OF assms] split: option.splits)
  then show ?thesis using recordedD(2,3) [OF assms] by blast
qed

lemma recorded_prev:
  assumes "recorded n ms cfg" and "i < n"
  shows "(logs cfg ! i) k = None \<longleftrightarrow> (\<forall>v. \<not> said ms i k v)"
  using recordedD(2) [OF assms] by (metis not_None_eq)

lemma recorded_store:
  assumes rec: "recorded n ms cfg" and i: "i < n" and valid: "CommandValid m"
    and same: "\<forall>j w. said ms j (CommandIndex m) w \<longrightarrow> w = ApplyCommand m"
    and logs': "logs cfg' = (logs cfg)[i := (logs cfg ! i)(CommandIndex m \<mapsto> ApplyCommand m)]"
  shows "recorded n (ms @ [(i, m)]) cfg'"
proof -
  have "(logs cfg' ! j) k = Some w \<longleftrightarrow> said (ms @ [(i, m)]) j k w" if "j < n" for j k w
    using that recordedD(1) [OF rec] recordedD(2) [OF rec that, of k w] valid same [rule_format, of j w]
    by (cases "j = i"; cases "k = CommandIndex m") (auto simp: logs')
  then show ?thesis using rec i by (simp add: recorded_def logs')
qed

lemma apply_reader_accepts:
  assumes rec: "recorded n ms cfg" and i: "i < n" and acc: "acceptable ms i m"
  shows "\<exists>cfg'. apply_reader cfg i m = Inr cfg' \<and> recorded n (ms @ [(i, m)]) cfg'"
proof (cases "CommandValid m")
  case False
  then have "said (ms @ [(i, m)]) = said ms" by (auto simp: fun_eq_iff)
  then show ?thesis using False rec i by (simp add: apply_reader_def recorded_def)
next
  case True
  let ?cfg = "cfg\<lparr>logs := (logs cfg)[i := (logs cfg ! i)(CommandIndex m \<mapsto> ApplyCommand m)]\<rparr>"
  let ?new = "if CommandIndex m > maxIndex ?cfg then ?cfg\<lparr>maxIndex := CommandIndex m\<rparr> else ?cfg"
  have "recorded n (ms @ [(i, m)]) ?new"
    by (rule recorded_store [OF rec i True]) (use acc True in \<open>simp_all add: acceptable_def\<close>)
  moreover have "apply_reader cfg i m = Inr ?new"
    using acc True by (auto simp: apply_reader_def acceptable_def recorded_differs [OF rec] recorded_prev [OF rec i]
        Let_def simp del: not_None_eq)
  ultimately show ?thesis by blast
qed

lemma apply_reader_refuses:
  assumes rec: "recorded n ms cfg" and i: "i < n" and acc: "\<not> acceptable ms i m"
  shows "\<exists>e. apply_reader cfg i m = Inl e"
proof -
  have "CommandValid m" using acc by (simp add: acceptable_def)
  then show ?thesis
    using acc by (auto simp: apply_reader_def acceptable_def recorded_differs [OF rec] recorded_prev [OF rec i]
        Let_def simp del: not_None_eq)
qed

lemma apply_all_snoc:
  "apply_all cfg (ms @ [(i, m)]) = bind_go (apply_all cfg ms) (\<lambda>c. apply_reader c i m)"
  by (simp add: apply_all_def fold_go_append bind_go_def split: sum.split)

lemma apply_all_recorded:
  assumes "\<forall>x \<in> set ms. fst x < n" and "recorded n [] cfg"
  shows "if agreeing ms \<and> in_order ms then \<exists>cfg'. apply_all cfg ms = Inr cfg' \<and> recorded n ms cfg'
    else \<exists>e. apply_all cfg ms = Inl e"
  using assms(1)
proof (induction ms rule: rev_induct)
  case Nil
  then show ?case using assms(2) by (simp add: apply_all_def agreeing_def in_order_def)
next
  case (snoc x ms)
  obtain i m where x: "x = (i, m)" by (cases x)
  have i: "i < n" and IH: "if agreeing ms \<and> in_order ms then \<exists>cfg'. apply_all cfg ms = Inr cfg' \<and> recorded n ms cfg'
    else \<exists>e. apply_all cfg ms = Inl e"
    using snoc x by auto
  show ?case
  proof (cases "agreeing ms \<and> in_order ms")
    case True
    then obtain c where c: "apply_all cfg ms = Inr c" "recorded n ms c" using IH by auto
    show ?thesis
      using True apply_reader_accepts [OF c(2) i, of m] apply_reader_refuses [OF c(2) i, of m]
      unfolding x accept_snoc apply_all_snoc c(1) bind_go_Inr by simp
  next
    case False
    then obtain e where "apply_all cfg ms = Inl e" using IH by auto
    then show ?thesis using False unfolding x accept_snoc apply_all_snoc by auto
  qed
qed

lemma blank_recorded: "logs cfg = replicate n Map.empty \<Longrightarrow> recorded n [] cfg"
  by (simp add: recorded_def)

section \<open>Counting commits\<close>

definition committers :: "('e, 'c) config \<Rightarrow> int \<Rightarrow> nat set" where
  "committers cfg k = {i. i < length (rafts cfg) \<and> (logs cfg ! i) k \<noteq> None}"

abbreviation commit_step :: "('e, 'c) config \<Rightarrow> int \<Rightarrow> nat \<Rightarrow> nat \<times> 'c iface \<Rightarrow> (nat \<times> 'c iface) go" where
  "commit_step cfg index \<equiv> \<lambda>i (count, cmd).
       if applyErr cfg ! i \<noteq> '''' then Inl (TestFatal (applyErr cfg ! i))
       else case (logs cfg ! i) index of
              Some cmd1 \<Rightarrow>
                if count > 0 \<and> cmd \<noteq> cmd1 then Inl (TestFatal ''committed values do not match'')
                else Inr (count + 1, cmd1)
            | None \<Rightarrow> Inr (count, cmd)"

lemma card_less_Suc_filter: "card {i. i < Suc m \<and> P i} = card {i. i < m \<and> P i} + (if P m then 1 else 0)"
proof -
  have "{i. i < Suc m \<and> P i} = (if P m then insert m {i. i < m \<and> P i} else {i. i < m \<and> P i})"
    by (auto simp: less_Suc_eq)
  then show ?thesis by simp
qed

lemma commit_steps:
  "fold_go (commit_step cfg k) [0..<m] (0, None) = Inr (c, v) \<Longrightarrow>
     c = card {i. i < m \<and> (logs cfg ! i) k \<noteq> None} \<and>
     (\<forall>i < m. (logs cfg ! i) k \<noteq> None \<longrightarrow> (logs cfg ! i) k = Some v)"
proof (induction m arbitrary: c v)
  case (Suc m)
  then obtain c1 v1 where 1: "fold_go (commit_step cfg k) [0..<m] (0, None) = Inr (c1, v1)"
    and 2: "commit_step cfg k m (c1, v1) = Inr (c, v)"
    by (auto simp: fold_go_append)
  note IH = Suc.IH [OF 1]
  show ?case
  proof (cases "(logs cfg ! m) k")
    case None
    with 2 have "c = c1" "v = v1" by (auto split: if_splits)
    with IH None show ?thesis by (simp add: card_less_Suc_filter) (simp add: less_Suc_eq)
  next
    case (Some w)
    with 2 have c: "c = c1 + 1" "v = w" and same: "0 < c1 \<Longrightarrow> v1 = w" by (auto split: if_splits)
    have "(logs cfg ! i) k = Some w" if "i < m" "(logs cfg ! i) k \<noteq> None" for i
    proof -
      have "card {i. i < m \<and> (logs cfg ! i) k \<noteq> None} \<noteq> 0" using that by auto
      then have "0 < c1" using IH by (simp only: neq0_conv)
      then have "v1 = w" by (rule same)
      with IH that show ?thesis by simp
    qed
    with IH c Some show ?thesis by (simp add: card_less_Suc_filter) (simp add: less_Suc_eq)
  qed
qed simp

lemma nCommitted_result:
  assumes "nCommitted cfg k = Inr (c, v)"
  shows "c = card (committers cfg k)" and "i \<in> committers cfg k \<Longrightarrow> (logs cfg ! i) k = Some v"
  using commit_steps [OF assms [unfolded nCommitted_def]] by (auto simp: committers_def)

lemma one_polls_agreed:
  "one_polls k cmd n ms cfg = Inr (True, cfg') \<Longrightarrow>
   \<exists>nd. nCommitted cfg' k = Inr (nd, cmd) \<and> 0 < nd \<and> n \<le> int nd"
  by (induction ms arbitrary: cfg) (auto simp: Let_def split: if_splits)

lemma one_rounds_agreed:
  "one_rounds cmd n retry rs cfg starts = Inr (k, cfg') \<Longrightarrow>
   k \<noteq> -1 \<and> (\<exists>nd. nCommitted cfg' k = Inr (nd, cmd) \<and> 0 < nd \<and> n \<le> int nd)"
proof (induction rs arbitrary: cfg starts)
  case (Cons x rs)
  obtain m ms where x: "x = (m, ms)" by (cases x)
  from Cons.prems obtain cfg1 starts1 k1
    where rest: "(if k1 \<noteq> -1 then
         bind_go (one_polls k1 cmd n ms cfg1) (\<lambda>(agreed, cfg).
           if agreed then Inr (k1, cfg)
           else if retry = False then Inl (TestFatal ''one failed to reach agreement'')
           else one_rounds cmd n retry rs cfg starts1)
       else one_rounds cmd n retry rs cfg1 starts1) = Inr (k, cfg')"
    by (auto simp: x)
  show ?case
  proof (cases "k1 = -1")
    case True
    with rest Cons.IH show ?thesis by simp
  next
    case False
    with rest obtain agreed cfg2 where "one_polls k1 cmd n ms cfg1 = Inr (agreed, cfg2)"
      and "(if agreed then Inr (k1, cfg2)
           else if retry = False then Inl (TestFatal ''one failed to reach agreement'')
           else one_rounds cmd n retry rs cfg2 starts1) = Inr (k, cfg')"
      by auto
    with False one_polls_agreed Cons.IH show ?thesis by (cases agreed; cases retry) auto
  qed
qed simp

section \<open>Checking for one leader\<close>

definition claims :: "('e, 'c) config \<Rightarrow> (nat \<Rightarrow> int \<times> bool) \<Rightarrow> nat list" where
  "claims cfg obs = filter (\<lambda>i. connected cfg ! i \<and> snd (obs i)) [0..<cfg_n cfg]"

definition by_term :: "(nat \<Rightarrow> int \<times> bool) \<Rightarrow> nat list \<Rightarrow> (int \<times> nat list) list" where
  "by_term obs is = fold (\<lambda>i. add_leader (fst (obs i)) i) is []"

lemma map_of_add_leader:
  "map_of (add_leader t i ls) u =
     (if u = t then Some ((case map_of ls t of None \<Rightarrow> [] | Some is \<Rightarrow> is) @ [i]) else map_of ls u)"
  by (induction t i ls rule: add_leader.induct) auto

lemma keys_add_leader: "fst ` set (add_leader t i ls) = insert t (fst ` set ls)"
  by (induction t i ls rule: add_leader.induct) auto

lemma distinct_add_leader: "distinct (map fst ls) \<Longrightarrow> distinct (map fst (add_leader t i ls))"
proof (induction t i ls rule: add_leader.induct)
  case (2 t i u "is" ls)
  then show ?case using keys_add_leader [of t i ls] by auto
qed simp

lemma by_term_facts:
  "distinct (map fst (by_term obs is)) \<and>
   (\<forall>t. map_of (by_term obs is) t =
     (let js = filter (\<lambda>i. fst (obs i) = t) is in if js = [] then None else Some js))"
proof (induction "is" rule: rev_induct)
  case (snoc i "is")
  then show ?case
    by (auto simp: by_term_def distinct_add_leader map_of_add_leader Let_def filter_empty_conv)
qed (simp add: by_term_def)

lemma gather_leaders:
  assumes "\<forall>i < m. connected cfg ! i \<longrightarrow> rafts cfg ! i \<noteq> None"
  shows "fold_go (\<lambda>i leaders.
      if connected cfg ! i then
        bind_go (ask_peer cfg obs i) (\<lambda>(term, leader).
          Inr (if leader then add_leader term i leaders else leaders))
      else Inr leaders) [0..<m] [] =
    Inr (by_term obs (filter (\<lambda>i. connected cfg ! i \<and> snd (obs i)) [0..<m]))"
  using assms
proof (induction m)
  case (Suc m)
  then have IH: "fold_go (\<lambda>i leaders.
      if connected cfg ! i then
        bind_go (ask_peer cfg obs i) (\<lambda>(term, leader).
          Inr (if leader then add_leader term i leaders else leaders))
      else Inr leaders) [0..<m] [] =
    Inr (by_term obs (filter (\<lambda>i. connected cfg ! i \<and> snd (obs i)) [0..<m]))"
    by auto
  have "connected cfg ! m \<Longrightarrow> ask_peer cfg obs m = Inr (obs m)"
    using Suc.prems by (auto simp: ask_peer_def)
  then show ?case
    by (cases "obs m") (simp add: fold_go_append IH by_term_def)
qed (simp add: by_term_def)

lemma scan_leaders:
  "fold_go scan_step ls a = (if \<exists>x \<in> set ls. length (snd x) > 1 then Inl (TestFatal ''term has >1 leaders'')
     else Inr (fold (\<lambda>x. max (fst x)) ls a))"
proof (induction ls arbitrary: a)
  case (Cons x ls)
  obtain t "is" where x: "x = (t, is)" by (cases x)
  show ?case
  proof (cases "length is > 1")
    case False
    have "fold_go scan_step (x # ls) a = fold_go scan_step ls (max t a)"
      using False by (simp add: x max_def scan_step_def)
    then show ?thesis unfolding Cons.IH using False by (simp add: x)
  qed (simp add: x scan_step_def)
qed simp

lemma fold_max: "fold (\<lambda>x. max (fst x)) ls a = Max (insert a (fst ` set ls))" for a :: int
proof -
  have "fold (\<lambda>x. max (fst x)) ls a = fold max (map fst ls) a" by (simp add: fold_map o_def)
  also have "\<dots> = Max (set (a # map fst ls))" by (simp only: Max.set_eq_fold)
  finally show ?thesis by simp
qed

lemma filter_inj:
  "distinct xs \<Longrightarrow> (\<forall>t. length (filter (\<lambda>i. f i = t) xs) \<le> 1) \<longleftrightarrow> inj_on f (set xs)"
proof (induction xs)
  case (Cons x xs)
  have "(\<forall>t. length (filter (\<lambda>i. f i = t) (x # xs)) \<le> 1) \<longleftrightarrow>
      filter (\<lambda>i. f i = f x) xs = [] \<and> (\<forall>t. length (filter (\<lambda>i. f i = t) xs) \<le> 1)"
  proof (intro iffI conjI allI)
    assume all: "\<forall>t. length (filter (\<lambda>i. f i = t) (x # xs)) \<le> 1"
    from spec [OF all, of "f x"] show "filter (\<lambda>i. f i = f x) xs = []" by simp
    show "length (filter (\<lambda>i. f i = t) xs) \<le> 1" for t using spec [OF all, of t] by (simp split: if_splits)
  next
    fix t
    assume "filter (\<lambda>i. f i = f x) xs = [] \<and> (\<forall>t. length (filter (\<lambda>i. f i = t) xs) \<le> 1)"
    then show "length (filter (\<lambda>i. f i = t) (x # xs)) \<le> 1" by (cases "f x = t") auto
  qed
  also have "\<dots> \<longleftrightarrow> f x \<notin> f ` set xs \<and> inj_on f (set xs)"
  proof -
    have "filter (\<lambda>i. f i = f x) xs = [] \<longleftrightarrow> f x \<notin> f ` set xs"
      unfolding filter_empty_conv image_iff by metis
    moreover have "(\<forall>t. length (filter (\<lambda>i. f i = t) xs) \<le> 1) \<longleftrightarrow> inj_on f (set xs)"
      using Cons by (metis distinct.simps(2))
    ultimately show ?thesis by (simp only:)
  qed
  also have "\<dots> \<longleftrightarrow> inj_on f (set (x # xs))" using Cons.prems by auto
  finally show ?case .
qed simp

lemma by_term_crowded:
  assumes "distinct is"
  shows "(\<exists>x \<in> set (by_term obs is). length (snd x) > 1) \<longleftrightarrow> \<not> inj_on (\<lambda>i. fst (obs i)) (set is)"
proof -
  let ?js = "\<lambda>t. filter (\<lambda>i. fst (obs i) = t) is"
  have d: "distinct (map fst (by_term obs is))"
    and m: "map_of (by_term obs is) t = (if ?js t = [] then None else Some (?js t))" for t
    using by_term_facts [of obs "is"] by (simp_all add: Let_def)
  have "(\<exists>x \<in> set (by_term obs is). length (snd x) > 1) \<longleftrightarrow> (\<exists>t. length (?js t) > 1)"
  proof
    assume "\<exists>x \<in> set (by_term obs is). length (snd x) > 1"
    then obtain t js where "(t, js) \<in> set (by_term obs is)" "length js > 1" by auto
    then have "map_of (by_term obs is) t = Some js" "length js > 1" using d by simp_all
    with m [of t] show "\<exists>t. length (?js t) > 1" by (metis option.distinct(1) option.inject)
  next
    assume "\<exists>t. length (?js t) > 1"
    then obtain t where t: "length (?js t) > 1" by blast
    then have "?js t \<noteq> []" by auto
    then have "map_of (by_term obs is) t = Some (?js t)" using m [of t] by simp
    then have "(t, ?js t) \<in> set (by_term obs is)" by (rule map_of_SomeD)
    with t show "\<exists>x \<in> set (by_term obs is). length (snd x) > 1" by force
  qed
  then show ?thesis using filter_inj [OF assms, of "\<lambda>i. fst (obs i)"] by (metis not_le)
qed

lemma by_term_keys: "fst ` set (by_term obs is) = (\<lambda>i. fst (obs i)) ` set is"
proof (induction "is" rule: rev_induct)
  case (snoc i "is")
  then show ?case by (simp add: by_term_def keys_add_leader)
qed (simp add: by_term_def)

text \<open>
  One look at the peers: two claims in one term are fatal, no claim gives nothing, and otherwise the
  result is the claim with the highest term.
\<close>

lemma one_leader_poll_result:
  fixes obs :: "nat \<Rightarrow> int \<times> bool"
  assumes run: "\<forall>i < cfg_n cfg. connected cfg ! i \<longrightarrow> rafts cfg ! i \<noteq> None"
    and terms: "\<forall>i. 0 \<le> fst (obs i)"
  shows "\<not> inj_on (\<lambda>i. fst (obs i)) (set (claims cfg obs)) \<Longrightarrow>
      one_leader_poll cfg obs = Inl (TestFatal ''term has >1 leaders'')"
    and "claims cfg obs = [] \<Longrightarrow> one_leader_poll cfg obs = Inr None"
    and "inj_on (\<lambda>i. fst (obs i)) (set (claims cfg obs)) \<Longrightarrow> i \<in> set (claims cfg obs) \<Longrightarrow>
      (\<forall>j \<in> set (claims cfg obs). fst (obs j) \<le> fst (obs i)) \<Longrightarrow> one_leader_poll cfg obs = Inr (Some i)"
proof -
  let ?C = "claims cfg obs" and ?ls = "by_term obs (claims cfg obs)" and ?f = "\<lambda>i. fst (obs i)"
  have dist: "distinct ?C" by (simp add: claims_def)
  have poll: "one_leader_poll cfg obs = bind_go (fold_go scan_step ?ls (-1)) (\<lambda>t.
      if length ?ls \<noteq> 0 then
        bind_go (go_index (case map_of ?ls t of None \<Rightarrow> [] | Some is \<Rightarrow> is) 0) (\<lambda>i. Inr (Some i))
      else Inr None)"
    by (simp only: one_leader_poll_def gather_leaders [OF run] bind_go_Inr claims_def)
  show "\<not> inj_on ?f (set ?C) \<Longrightarrow> one_leader_poll cfg obs = Inl (TestFatal ''term has >1 leaders'')"
    using by_term_crowded [OF dist, of obs] by (simp add: poll scan_leaders)
  show "?C = [] \<Longrightarrow> one_leader_poll cfg obs = Inr None"
    by (simp add: poll by_term_def)
  assume inj: "inj_on ?f (set ?C)" and i: "i \<in> set ?C" and top: "\<forall>j \<in> set ?C. ?f j \<le> ?f i"
  have "Max (insert (-1) (?f ` set ?C)) = ?f i"
    using i top terms by (intro Max_eqI) (auto intro: order_trans [of _ 0])
  then have scan: "fold_go scan_step ?ls (-1) = Inr (?f i)"
    using by_term_crowded [OF dist, of obs] inj by (simp add: scan_leaders fold_max by_term_keys)
  have ne: "?ls \<noteq> []" using by_term_keys [of obs ?C] i by auto
  have js: "filter (\<lambda>j. ?f j = ?f i) ?C = [i]"
  proof -
    have "length (filter (\<lambda>j. ?f j = ?f i) ?C) \<le> 1" using filter_inj [OF dist, of ?f] inj by blast
    moreover have "i \<in> set (filter (\<lambda>j. ?f j = ?f i) ?C)" using i by simp
    ultimately show ?thesis
      by (cases "filter (\<lambda>j. ?f j = ?f i) ?C") auto
  qed
  have "map_of ?ls (?f i) = Some [i]"
    using by_term_facts [of obs ?C] js by (simp add: Let_def)
  then show "one_leader_poll cfg obs = Inr (Some i)"
    using ne by (simp add: poll scan go_index_def)
qed

definition best_claim :: "('e, 'c) config \<Rightarrow> (nat \<Rightarrow> int \<times> bool) \<Rightarrow> nat \<Rightarrow> bool" where
  "best_claim cfg obs i \<longleftrightarrow> inj_on (\<lambda>i. fst (obs i)) (set (claims cfg obs)) \<and> i \<in> set (claims cfg obs) \<and>
     (\<forall>j \<in> set (claims cfg obs). fst (obs j) \<le> fst (obs i))"

lemma best_claim_exists:
  assumes "inj_on (\<lambda>i. fst (obs i)) (set (claims cfg obs))" and "claims cfg obs \<noteq> []"
  obtains i where "best_claim cfg obs i"
proof -
  let ?A = "(\<lambda>i. fst (obs i)) ` set (claims cfg obs)"
  have "Max ?A \<in> ?A" using assms(2) by (intro Max_in) auto
  then obtain i where "i \<in> set (claims cfg obs)" "fst (obs i) = Max ?A" by auto
  moreover have "fst (obs j) \<le> Max ?A" if "j \<in> set (claims cfg obs)" for j
    using that by (intro Max_ge) auto
  ultimately have "best_claim cfg obs i" unfolding best_claim_def using assms(1) by simp
  then show thesis by (rule that)
qed

lemma best_claim_unique: "best_claim cfg obs i \<Longrightarrow> best_claim cfg obs j \<Longrightarrow> i = j"
  unfolding best_claim_def inj_on_def by (metis order.antisym)

lemma poll_best:
  assumes "\<forall>i < cfg_n cfg. connected cfg ! i \<longrightarrow> rafts cfg ! i \<noteq> None" and "\<forall>i. 0 \<le> fst (obs i)"
  shows "one_leader_poll cfg obs = Inr (Some i) \<longleftrightarrow> best_claim cfg obs i"
    and "one_leader_poll cfg obs = Inr None \<longleftrightarrow> claims cfg obs = []"
proof -
  note res = one_leader_poll_result [OF assms]
  consider "\<not> inj_on (\<lambda>i. fst (obs i)) (set (claims cfg obs))" | "claims cfg obs = []"
    | j where "best_claim cfg obs j"
    using best_claim_exists by blast
  then have "(one_leader_poll cfg obs = Inr (Some i) \<longleftrightarrow> best_claim cfg obs i) \<and>
    (one_leader_poll cfg obs = Inr None \<longleftrightarrow> claims cfg obs = [])"
  proof cases
    case 1
    then have "claims cfg obs \<noteq> []" by auto
    with 1 res(1) show ?thesis by (simp add: best_claim_def)
  next
    case 2
    with res(2) show ?thesis by (simp add: best_claim_def)
  next
    case (3 j)
    then have "one_leader_poll cfg obs = Inr (Some j)" and "claims cfg obs \<noteq> []"
      using res(3) [of j] by (auto simp: best_claim_def)
    with 3 best_claim_unique show ?thesis by auto
  qed
  then show "one_leader_poll cfg obs = Inr (Some i) \<longleftrightarrow> best_claim cfg obs i"
    and "one_leader_poll cfg obs = Inr None \<longleftrightarrow> claims cfg obs = []"
    by blast+
qed

lemma one_leader_iters_result:
  assumes "\<forall>i < cfg_n cfg. connected cfg ! i \<longrightarrow> rafts cfg ! i \<noteq> None" and "\<forall>k i. 0 \<le> fst (obs k i)"
  shows "one_leader_iters cfg obs [a..<b] = Inr i \<longleftrightarrow>
    (\<exists>k. a \<le> k \<and> k < b \<and> (\<forall>k'. a \<le> k' \<and> k' < k \<longrightarrow> claims cfg (obs k') = []) \<and> best_claim cfg (obs k) i)"
proof (induction "b - a" arbitrary: a)
  case (Suc d)
  then have ab: "a < b" and IH: "one_leader_iters cfg obs [Suc a..<b] = Inr i \<longleftrightarrow>
    (\<exists>k. Suc a \<le> k \<and> k < b \<and> (\<forall>k'. Suc a \<le> k' \<and> k' < k \<longrightarrow> claims cfg (obs k') = []) \<and> best_claim cfg (obs k) i)"
    by auto
  note poll = poll_best [OF assms(1) spec [OF assms(2), of a]]
  have best_ne: "claims cfg (obs a) \<noteq> []" if "best_claim cfg (obs a) i" for i
    using that by (auto simp: best_claim_def)
  show ?case
  proof (cases "claims cfg (obs a) = []")
    case True
    then have "one_leader_iters cfg obs [a..<b] = one_leader_iters cfg obs [Suc a..<b]"
      using ab poll(2) by (simp add: upt_conv_Cons)
    moreover have "\<not> best_claim cfg (obs a) i" using True best_ne by blast
    moreover have "(a \<le> k \<and> k < b \<and> (\<forall>k'. a \<le> k' \<and> k' < k \<longrightarrow> claims cfg (obs k') = []) \<and> best_claim cfg (obs k) i) \<longleftrightarrow>
        (Suc a \<le> k \<and> k < b \<and> (\<forall>k'. Suc a \<le> k' \<and> k' < k \<longrightarrow> claims cfg (obs k') = []) \<and> best_claim cfg (obs k) i)" for k
      using True calculation(2) by (metis Suc_leD Suc_leI le_neq_implies_less)
    ultimately show ?thesis using IH by simp
  next
    case False
    then have "one_leader_iters cfg obs [a..<b] = Inr i \<longleftrightarrow> one_leader_poll cfg (obs a) = Inr (Some i)"
      using ab poll(2) by (cases "one_leader_poll cfg (obs a)") (auto simp: upt_conv_Cons split: option.split)
    also have "\<dots> \<longleftrightarrow> best_claim cfg (obs a) i" by (rule poll(1))
    also have "\<dots> \<longleftrightarrow> (\<exists>k. a \<le> k \<and> k < b \<and> (\<forall>k'. a \<le> k' \<and> k' < k \<longrightarrow> claims cfg (obs k') = []) \<and> best_claim cfg (obs k) i)"
      using False ab by (metis le_neq_implies_less le_refl not_le)
    finally show ?thesis .
  qed
qed simp

section \<open>Properties\<close>


definition sample_msg :: "int \<Rightarrow> nat \<Rightarrow> nat ApplyMsg" where
  "sample_msg k c = \<lparr>CommandValid = True, ApplyCommand = Some c, CommandIndex = k\<rparr>"


text \<open>
  C18: \<^verbatim>\<open>one\<close> returns only after an agreement. When it returns an index, at least the expected number of
  servers, and at least one, hold the command at that index, and no server holds another one there.
\<close>

theorem one_reports_agreement:
  assumes "one cfg cmd expectedServers retry rs = Inr (k, cfg')"
  shows "k \<noteq> -1 \<and> 0 < card (committers cfg' k) \<and> expectedServers \<le> int (card (committers cfg' k)) \<and>
    (\<forall>i < length (rafts cfg'). (logs cfg' ! i) k \<in> {None, Some cmd})"
proof -
  obtain nd where nd: "nCommitted cfg' k = Inr (nd, cmd)" "k \<noteq> -1" "0 < nd" "expectedServers \<le> int nd"
    using one_rounds_agreed assms unfolding one_def by blast
  have "(logs cfg' ! i) k \<in> {None, Some cmd}" if "i < length (rafts cfg')" for i
    using nCommitted_result(2) [OF nd(1), of i] that by (cases "(logs cfg' ! i) k") (auto simp: committers_def)
  with nd nCommitted_result(1) [OF nd(1)] show ?thesis by auto
qed

definition sample_harness :: "(nat, nat) config" where
  "sample_harness = (blank_config 1 0)\<lparr>connected := [True], rafts := [Some 0],
     peer_heap := [(Make 1 0 MakePersister)\<lparr>state := Leader\<rparr>]\<rparr>"

definition sample_commit :: "(nat, nat) config \<Rightarrow> (nat, nat) config" where
  "sample_commit cfg = cfg\<lparr>logs := [[0 \<mapsto> Some 7]]\<rparr>"

lemma sample_one:
  "map_sum id (\<lambda>(k, cfg). (k, rafts cfg, (logs cfg ! 0) 0))
     (one sample_harness (Some 7) 1 True [(id, [id, sample_commit])]) = Inr (0, [Some 0], Some (Some 7))"
  by code_simp

theorem one_reports_agreement_witness:
  "\<exists>cfg'. one sample_harness (Some 7) 1 True [(id, [id, sample_commit])] = Inr (0, cfg') \<and>
     1 \<le> int (card (committers cfg' 0))"
proof -
  obtain cfg' where "one sample_harness (Some 7) 1 True [(id, [id, sample_commit])] = Inr (0, cfg')"
    using sample_one by (cases "one sample_harness (Some 7) 1 True [(id, [id, sample_commit])]") auto
  with one_reports_agreement [OF this] show ?thesis by blast
qed

text \<open>
  C17: what \<^verbatim>\<open>checkOneLeader\<close> returns, if all connected peers run and terms are not negative: a connected
  peer that says it is leader, in the first of ten looks in which a connected peer says so, provided that no
  two of them name the same term, and then the one with the highest term. In every other case it fails.
\<close>

theorem checkOneLeader_spec:
  assumes "\<forall>i < cfg_n cfg. connected cfg ! i \<longrightarrow> rafts cfg ! i \<noteq> None" and "\<forall>k i. 0 \<le> fst (obs k i)"
  shows "checkOneLeader cfg obs = Inr i \<longleftrightarrow>
    (\<exists>k < 10. (\<forall>k' < k. claims cfg (obs k') = []) \<and> i \<in> set (claims cfg (obs k)) \<and>
      inj_on (\<lambda>j. fst (obs k j)) (set (claims cfg (obs k))) \<and>
      (\<forall>j \<in> set (claims cfg (obs k)). fst (obs k j) \<le> fst (obs k i)))"
  using one_leader_iters_result [OF assms, of 0 10 i]
  by (auto simp: checkOneLeader_def best_claim_def)

theorem checkOneLeader_spec_witness:
  "checkOneLeader sample_harness (\<lambda>k i. (3, k = 2)) = Inr 0"
proof -
  have c: "claims sample_harness (\<lambda>i. (3, b)) = (if b then [0] else [])" for b
    by (simp add: claims_def sample_harness_def blank_config_def)
  have h: "cfg_n sample_harness = 1" "rafts sample_harness = [Some 0]"
    by (simp_all add: sample_harness_def blank_config_def)
  show ?thesis
    by (subst checkOneLeader_spec) (auto simp: c h intro!: exI [of _ 2])
qed

end
