(* ===== verification/Spec2Isabelle.thy ===== *)
theory Spec2Isabelle
  imports ElectionSafety ProcessReq RaftRpc ConfigNet ConfigChecks
begin

text \<open>
  Header.
\<close>

section \<open>A vote over the network\<close>


definition sample_wire :: "(nat, nat, nat raft, nat) world" where
  "sample_wire = (init_world labgob_init)\<lparr>heap := [raft_server (Make 3 0 MakePersister)],
     net := Enable (Connect (AddServer MakeNetwork 0 0) 7 0) 7 True\<rparr>"


end
